(* ===== verification/Raft_Prelude.thy ===== *)
theory Raft_Prelude
  imports Main "HOL-Library.Word" "HOL-Library.AList"
begin

text \<open>
  Shared ground of the development: the Go language features the sources use, as
  executable HOL functions, and the generic lemmas the component theories rest on.

  \<^item> Go's \<open>int\<close> and \<open>int64\<close> (64 bits, two's complement) are values of type \<open>int\<close>;
    where the code increments one, the wrap-around is written out with \<open>wrap64\<close>.
  \<^item> \<open>float64\<close> conversions of integers (\<open>float64_of_int\<close>, \<open>int_of_float64\<close>).
  \<^item> Go maps are association lists with distinct keys; the laws a client of a Go map
    relies on are the locale \<open>go_map\<close>, interpreted on the association lists.
  \<^item> majorities, as the code computes them (\<open>n > len(config)/2\<close>), and the locale
    \<open>quorum_system\<close> of what the Raft safety argument needs from them.
  \<^item> little-endian encodings of integers, and lemmas on lists.
\<close>

named_theorems go_simps \<open>simplification rules for the Go primitives\<close>
named_theorems frame \<open>fields of the node state that an operation leaves alone\<close>

section \<open>Machine integers\<close>

type_synonym byte = "8 word"
type_synonym bytes = "byte list"

definition max_int64 :: int where
  "max_int64 = 2 ^ 63 - 1"

definition min_int64 :: int where
  "min_int64 = - (2 ^ 63)"

text \<open>The value a 64-bit signed addition leaves in the register.\<close>

definition wrap64 :: "int \<Rightarrow> int" where
  "wrap64 x = (x + 2 ^ 63) mod 2 ^ 64 - 2 ^ 63"

definition is_int64 :: "int \<Rightarrow> bool" where
  "is_int64 x \<longleftrightarrow> min_int64 \<le> x \<and> x \<le> max_int64"

lemmas int64_defs = max_int64_def min_int64_def wrap64_def is_int64_def

lemma wrap64_id: "is_int64 x \<Longrightarrow> wrap64 x = x"
  by (simp add: int64_defs)

lemma wrap64_range: "is_int64 (wrap64 x)"
proof -
  have "(0::int) \<le> (x + 2 ^ 63) mod 2 ^ 64" and "(x + 2 ^ 63) mod 2 ^ 64 < (2::int) ^ 64"
    by simp_all
  then show ?thesis by (simp add: int64_defs)
qed

lemma wrap64_succ [go_simps]: "- 1 \<le> x \<Longrightarrow> x < max_int64 \<Longrightarrow> wrap64 (x + 1) = x + 1"
  by (rule wrap64_id) (simp add: int64_defs)

lemma wrap64_overflow: "wrap64 (max_int64 + 1) = min_int64"
  by (simp add: int64_defs)

section \<open>float64\<close>

text \<open>
  \<open>float64(x)\<close> of an integer rounds to the nearest multiple of the unit in the last
  place of a 53-bit significand, ties to even. Every float64 of magnitude \<open>2^53\<close> or
  more is an integer, so the rounded value is again an \<open>int\<close>.
\<close>

definition round_half_even :: "int \<Rightarrow> int \<Rightarrow> int" where
  "round_half_even m u =
     (let q = m div u; r = m mod u
      in if 2 * r < u \<or> (2 * r = u \<and> even q) then q * u else (q + 1) * u)"

fun float64_ulp :: "nat \<Rightarrow> int \<Rightarrow> int" where
  "float64_ulp 0 m = 1"
| "float64_ulp (Suc k) m = (if m < 2 ^ 53 then 1 else 2 * float64_ulp k (m div 2))"

definition float64_of_int :: "int \<Rightarrow> int" where
  "float64_of_int x = sgn x * round_half_even \<bar>x\<bar> (float64_ulp 64 \<bar>x\<bar>)"

text \<open>
  \<open>int(f)\<close> of an integral float. A value out of range is implementation-specific in
  Go; \<open>2^63\<close>, the only such value a rounded \<open>int64\<close> can have, gives \<open>-2^63\<close> on amd64.
\<close>

definition int_of_float64 :: "int \<Rightarrow> int" where
  "int_of_float64 f = wrap64 f"

lemma float64_ulp_small: "m < 2 ^ 53 \<Longrightarrow> float64_ulp k m = 1"
  by (cases k) simp_all

lemma float64_exact: "\<bar>x\<bar> < 2 ^ 53 \<Longrightarrow> float64_of_int x = x"
  by (simp add: float64_of_int_def round_half_even_def float64_ulp_small sgn_mult_abs)

lemma float64_min_exact:
  assumes "\<bar>a\<bar> < 2 ^ 53" "\<bar>b\<bar> < 2 ^ 53"
  shows "int_of_float64 (min (float64_of_int a) (float64_of_int b)) = min a b"
proof -
  have "is_int64 (min a b)" using assms by (simp add: int64_defs min_def) linarith
  then show ?thesis using assms by (simp add: float64_exact int_of_float64_def wrap64_id)
qed

text \<open>Above \<open>2^53\<close> the conversion is no longer the identity.\<close>

lemma float64_inexact: "float64_of_int (2 ^ 53 + 1) = 2 ^ 53"
  by code_simp

section \<open>Go maps\<close>

text \<open>
  A Go map with keys \<open>'k\<close> is an association list with distinct keys. A read of a missing
  key yields the zero value of the element type (\<open>mget\<close> takes it as its argument);
  \<open>len\<close> is the number of keys; \<open>range\<close> visits every key once, in an unspecified order,
  so a client may only compute what does not depend on the order.
\<close>

type_synonym ('k, 'v) gomap = "('k \<times> 'v) list"

definition mget :: "'v \<Rightarrow> ('k, 'v) gomap \<Rightarrow> 'k \<Rightarrow> 'v" where
  "mget z m k = (case map_of m k of None \<Rightarrow> z | Some v \<Rightarrow> v)"

definition mput :: "'k \<Rightarrow> 'v \<Rightarrow> ('k, 'v) gomap \<Rightarrow> ('k, 'v) gomap" where
  "mput k v m = AList.update k v m"

definition mdel :: "'k \<Rightarrow> ('k, 'v) gomap \<Rightarrow> ('k, 'v) gomap" where
  "mdel k m = AList.delete k m"

definition mhas :: "('k, 'v) gomap \<Rightarrow> 'k \<Rightarrow> bool" where
  "mhas m k \<longleftrightarrow> map_of m k \<noteq> None"

definition mkeys :: "('k, 'v) gomap \<Rightarrow> 'k list" where
  "mkeys m = map fst m"

definition mlen :: "('k, 'v) gomap \<Rightarrow> nat" where
  "mlen m = length m"

definition m_ok :: "('k, 'v) gomap \<Rightarrow> bool" where
  "m_ok m \<longleftrightarrow> distinct (map fst m)"

text \<open>What the code relies on from a map, whatever its representation.\<close>

locale go_map =
  fixes empty :: "'m"
    and put :: "'k \<Rightarrow> 'v \<Rightarrow> 'm \<Rightarrow> 'm"
    and del :: "'k \<Rightarrow> 'm \<Rightarrow> 'm"
    and lookup :: "'m \<Rightarrow> 'k \<Rightarrow> 'v option"
    and keys :: "'m \<Rightarrow> 'k list"
    and invar :: "'m \<Rightarrow> bool"
  assumes lookup_empty: "lookup empty k = None"
    and lookup_put: "invar m \<Longrightarrow> lookup (put k v m) k' = (if k' = k then Some v else lookup m k')"
    and lookup_del: "invar m \<Longrightarrow> lookup (del k m) k' = (if k' = k then None else lookup m k')"
    and set_keys: "invar m \<Longrightarrow> set (keys m) = {k. lookup m k \<noteq> None}"
    and distinct_keys: "invar m \<Longrightarrow> distinct (keys m)"
    and invar_empty: "invar empty"
    and invar_put: "invar m \<Longrightarrow> invar (put k v m)"
    and invar_del: "invar m \<Longrightarrow> invar (del k m)"
begin

lemma set_keys_put: "invar m \<Longrightarrow> set (keys (put k v m)) = insert k (set (keys m))"
  by (auto simp: set_keys invar_put lookup_put split: if_splits)

lemma set_keys_del: "invar m \<Longrightarrow> set (keys (del k m)) = set (keys m) - {k}"
  by (auto simp: set_keys invar_del lookup_del split: if_splits)

lemma length_keys: "invar m \<Longrightarrow> length (keys m) = card (set (keys m))"
  by (simp add: distinct_card distinct_keys)

lemma length_keys_put:
  "invar m \<Longrightarrow> length (keys (put k v m)) =
     (if lookup m k = None then Suc (length (keys m)) else length (keys m))"
  by (simp add: length_keys invar_put set_keys_put card_insert_if) (simp add: set_keys)

lemma length_keys_del:
  "invar m \<Longrightarrow> length (keys (del k m)) =
     (if lookup m k = None then length (keys m) else length (keys m) - 1)"
  by (simp add: length_keys invar_del set_keys_del card_Diff_singleton_if) (auto simp: set_keys)

text \<open>A loop that counts keys over \<open>range\<close> computes the cardinality of a set.\<close>

lemma count_keys:
  "invar m \<Longrightarrow> length (filter P (keys m)) = card {k. lookup m k \<noteq> None \<and> P k}"
proof -
  assume m: "invar m"
  have "length (filter P (keys m)) = card (set (filter P (keys m)))"
    using distinct_card [of "filter P (keys m)"] distinct_keys [OF m] by simp
  also have "set (filter P (keys m)) = {k. lookup m k \<noteq> None \<and> P k}"
    using set_keys [OF m] by auto
  finally show ?thesis .
qed

end

interpretation gm: go_map "[]" mput mdel map_of mkeys m_ok
proof
  fix m :: "('a, 'b) gomap" and k k' v
  show "map_of (mput k v m) k' = (if k' = k then Some v else map_of m k')"
    by (simp add: mput_def update_conv)
  show "map_of (mdel k m) k' = (if k' = k then None else map_of m k')"
    by (simp add: mdel_def delete_conv)
  show "set (mkeys m) = {k. map_of m k \<noteq> None}"
    by (auto simp: mkeys_def map_of_eq_None_iff)
  assume "m_ok m"
  then show "distinct (mkeys m)" and "m_ok (mput k v m)" and "m_ok (mdel k m)"
    by (simp_all add: m_ok_def mkeys_def mput_def mdel_def distinct_update distinct_delete)
qed (simp_all add: m_ok_def)

lemma mlen_keys: "mlen m = length (mkeys m)"
  by (simp add: mlen_def mkeys_def)

lemma mget_mput [simp, go_simps]: "mget z (mput k v m) k' = (if k' = k then v else mget z m k')"
  by (simp add: mget_def mput_def update_conv)

lemma mput_fresh: "k \<notin> fst ` set m \<Longrightarrow> mput k v m = m @ [(k, v)]"
  by (induction m) (auto simp: mput_def)

text \<open>Filling a map key by key with \<open>range\<close> over another one copies it.\<close>

lemma fold_mput_fresh:
  "distinct (map fst (dst @ src)) \<Longrightarrow> fold (\<lambda>(k, v) d. mput k v d) src dst = dst @ src"
proof (induction src arbitrary: dst)
  case (Cons kv src)
  obtain k v where kv: "kv = (k, v)" by fastforce
  have "k \<notin> fst ` set dst" using Cons.prems kv by auto
  then have "mput k v dst = dst @ [(k, v)]"
    by (rule mput_fresh)
  with Cons kv show ?case by simp
qed simp

lemma m_ok_fold_mput: "m_ok dst \<Longrightarrow> m_ok (fold (\<lambda>(k, v) d. mput k v d) src dst)"
  by (induction src arbitrary: dst) (auto simp: gm.invar_put)

lemma mhas_mput [simp]: "mhas (mput k v m) k' \<longleftrightarrow> k' = k \<or> mhas m k'"
  by (auto simp: mhas_def mput_def update_conv)

lemma mhas_keys: "mhas m k \<longleftrightarrow> k \<in> set (mkeys m)"
  by (auto simp: mhas_def mkeys_def map_of_eq_None_iff)

lemma mhas_mdel [simp]: "mhas (mdel k m) k' \<longleftrightarrow> k' \<noteq> k \<and> mhas m k'"
  by (auto simp: mhas_def mdel_def delete_conv)

section \<open>Majorities\<close>

text \<open>
  The code compares a count with \<open>len(serverConfig)/2\<close> (integer division). A set of
  servers is a majority of a configuration when it consists of members and its size
  passes that comparison.
\<close>

definition majority_of :: "('k, 'v) gomap \<Rightarrow> 'k set \<Rightarrow> bool" where
  "majority_of cfg A \<longleftrightarrow> A \<subseteq> set (mkeys cfg) \<and> card A > mlen cfg div 2"

text \<open>What the election and commit arguments need: any two quorums share a server.\<close>

locale quorum_system =
  fixes quorum :: "'a set \<Rightarrow> bool"
  assumes quorums_meet: "quorum A \<Longrightarrow> quorum B \<Longrightarrow> A \<inter> B \<noteq> {}"
begin

lemma quorum_nonempty: "quorum A \<Longrightarrow> A \<noteq> {}"
  using quorums_meet [of A A] by auto

text \<open>If every server gives at most one vote, two candidates with a quorum are the same.\<close>

lemma single_winner:
  assumes "quorum A" "quorum B"
    and "\<And>v. v \<in> A \<Longrightarrow> vote v = Some c" "\<And>v. v \<in> B \<Longrightarrow> vote v = Some d"
  shows "c = d"
proof -
  from quorums_meet [OF assms(1,2)] obtain v where "v \<in> A" "v \<in> B" by blast
  with assms(3,4) [of v] show ?thesis by simp
qed

end

lemma card_meet:
  assumes "finite E" "A \<subseteq> E" "B \<subseteq> E" "card E < card A + card B"
  shows "A \<inter> B \<noteq> {}"
proof
  assume "A \<inter> B = {}"
  then have "card A + card B = card (A \<union> B)"
    using assms(1-3) by (simp add: card_Un_disjoint finite_subset)
  also have "\<dots> \<le> card E" using assms(1-3) by (simp add: card_mono)
  finally show False using assms(4) by simp
qed

lemma card_mkeys_le: "card (set (mkeys m)) \<le> mlen m"
  by (simp add: mlen_keys card_length)

text \<open>Majorities of one configuration are a quorum system.\<close>

interpretation mq: quorum_system "majority_of cfg" for cfg :: "('k, 'v) gomap"
proof
  fix A B assume "majority_of cfg A" "majority_of cfg B"
  then have "A \<subseteq> set (mkeys cfg)" "B \<subseteq> set (mkeys cfg)" "mlen cfg < card A + card B"
    by (auto simp: majority_of_def)
  with card_mkeys_le [of cfg] show "A \<inter> B \<noteq> {}"
    by (intro card_meet [of "set (mkeys cfg)"]) auto
qed

text \<open>
  Majorities of two configurations that differ by one server meet as well: the reason why
  single-server membership changes are safe.
\<close>

lemma majorities_meet_put:
  assumes ok: "m_ok cfg" and A: "majority_of cfg A" and B: "majority_of (mput k v cfg) B"
  shows "A \<inter> B \<noteq> {}"
proof (rule card_meet [of "set (mkeys (mput k v cfg))"])
  have len: "card (set (mkeys (mput k v cfg))) = mlen (mput k v cfg)"
    using ok by (simp add: mlen_keys gm.length_keys gm.invar_put)
  have "mlen (mput k v cfg) \<le> Suc (mlen cfg)"
    using ok by (simp add: mlen_keys gm.length_keys_put)
  then show "card (set (mkeys (mput k v cfg))) < card A + card B"
    using A B len unfolding majority_of_def by linarith
  show "A \<subseteq> set (mkeys (mput k v cfg))"
    using A gm.set_keys_put [OF ok, of k v] by (auto simp: majority_of_def)
  show "B \<subseteq> set (mkeys (mput k v cfg))"
    using B by (auto simp: majority_of_def)
qed simp

lemma majorities_meet_del:
  assumes ok: "m_ok cfg" and A: "majority_of cfg A" and B: "majority_of (mdel k cfg) B"
  shows "A \<inter> B \<noteq> {}"
proof (rule card_meet [of "set (mkeys cfg)"])
  have len: "card (set (mkeys cfg)) = mlen cfg"
    using ok by (simp add: mlen_keys gm.length_keys)
  have "mlen cfg \<le> Suc (mlen (mdel k cfg))"
    using ok by (auto simp: mlen_keys gm.length_keys_del)
  then show "card (set (mkeys cfg)) < card A + card B"
    using A B len unfolding majority_of_def by linarith
  show "A \<subseteq> set (mkeys cfg)" "B \<subseteq> set (mkeys cfg)"
    using A B gm.set_keys_del [OF ok, of k] by (auto simp: majority_of_def)
qed simp

section \<open>Little-endian integers\<close>

text \<open>\<open>binary.Write(buf, binary.LittleEndian, int64(x))\<close> writes \<open>le_bytes 8 x\<close>.\<close>

fun le_bytes :: "nat \<Rightarrow> int \<Rightarrow> bytes" where
  "le_bytes 0 x = []"
| "le_bytes (Suc n) x = word_of_int x # le_bytes n (x div 256)"

fun le_value :: "bytes \<Rightarrow> int" where
  "le_value [] = 0"
| "le_value (b # bs) = uint b + 256 * le_value bs"

lemma length_le_bytes [simp]: "length (le_bytes n x) = n"
  by (induction n arbitrary: x) auto

lemma le_value_bytes: "le_value (le_bytes n x) = x mod 256 ^ n"
proof (induction n arbitrary: x)
  case (Suc n)
  have "uint (word_of_int x :: byte) = x mod 256"
    by (simp add: uint_word_of_int)
  then have "le_value (le_bytes (Suc n) x) = x mod 256 + 256 * (x div 256 mod 256 ^ n)"
    using Suc by simp
  also have "\<dots> = x mod (256 * 256 ^ n)"
    by (simp add: zmod_zmult2_eq)
  finally show ?case by simp
qed simp

lemma le_bytes_int64_inj:
  assumes "is_int64 x" "is_int64 y" "le_bytes 8 x = le_bytes 8 y"
  shows "x = y"
proof -
  have e: "x mod 2 ^ 64 = y mod 2 ^ 64"
    using le_value_bytes [of 8 x] le_value_bytes [of 8 y] assms(3) by simp
  have "wrap64 x = wrap64 y"
    unfolding wrap64_def using e mod_add_cong [OF e refl] by metis
  with assms(1,2) show ?thesis by (simp add: wrap64_id)
qed

section \<open>Lists\<close>

lemma map_upt_cong: "(\<And>i. i < n \<Longrightarrow> f i = g i) \<Longrightarrow> map f [0..<n] = map g [0..<n]"
  by simp

lemma map_fun_upd_upt [simp]: "n \<le> j \<Longrightarrow> map (f(j := x)) [0..<n] = map f [0..<n]"
  by simp

lemma last_map_upt: "0 < n \<Longrightarrow> last (map f [0..<n]) = f (n - 1)"
  by (simp add: last_map)

lemma nat_succ_pred: "- 1 < x \<Longrightarrow> nat (x + 1) - Suc 0 = nat x"
  by arith

lemma take_Suc_eqD:
  assumes "take (Suc n) xs = take (Suc n) ys" "n < length ys"
  shows "n < length xs \<and> xs ! n = ys ! n"
proof -
  have "length (take (Suc n) xs) = Suc n" using assms by simp
  then have "n < length xs" by simp
  moreover have "take (Suc n) xs ! n = take (Suc n) ys ! n" using assms(1) by simp
  ultimately show ?thesis by simp
qed

lemma sorted_take_le:
  assumes "sorted p" "n < length p" "x \<in> set (take (Suc n) p)"
  shows "x \<le> p ! n"
proof -
  from assms(3) obtain i where "i < length (take (Suc n) p)" "x = take (Suc n) p ! i"
    by (metis in_set_conv_nth)
  then have "i \<le> n" "x = p ! i" by simp_all
  with assms(1,2) show ?thesis by (simp add: sorted_nth_mono)
qed

text \<open>Appending to a sorted list, through a bound \<open>m\<close> between the two parts.\<close>

lemma sorted_appendI2:
  "sorted xs \<Longrightarrow> (\<And>x. x \<in> set xs \<Longrightarrow> x \<le> m) \<Longrightarrow> sorted (m # ys) \<Longrightarrow> sorted (xs @ ys)"
  by (fastforce simp: sorted_append)

end
