(* ===== verification/Raft_Types.thy ===== *)
theory Raft_Types
  imports Raft_Prelude
begin

text \<open>
  The shared data types of the library (src/types/types.go): log entries, the startup
  configuration, the persistent state and snapshots, the arguments and replies of the
  RPCs, the client-facing requests, and the \<open>StateMachine\<close> interface as a record of its
  three methods. Field names carry a prefix for the struct they belong to, since several
  structs share names such as \<open>Term\<close>.
\<close>

section \<open>Log entries\<close>

type_synonym server_id = string

datatype log_type = LogCommand | LogConfiguration | LogNoop

text \<open>The numeric constants behind the \<open>LogType\<close> names.\<close>

fun log_type_int :: "log_type \<Rightarrow> int" where
  "log_type_int LogCommand = 0"
| "log_type_int LogConfiguration = 1"
| "log_type_int LogNoop = 2"

record config_change =
  cc_Add :: bool
  cc_Server :: server_id

record raft_log =
  rl_Index :: int
  rl_Term :: int
  rl_Type :: log_type
  rl_Data :: bytes
  rl_Config :: config_change
  rl_ClientID :: string
  rl_SeqNum :: int

text \<open>The zero value of a \<open>ConfigChange\<close> and of a \<open>RaftLog\<close>.\<close>

definition zero_config_change :: config_change where
  "zero_config_change = \<lparr>cc_Add = False, cc_Server = ''''\<rparr>"

definition zero_raft_log :: raft_log where
  "zero_raft_log = \<lparr>rl_Index = 0, rl_Term = 0, rl_Type = LogCommand, rl_Data = [],
     rl_Config = zero_config_change, rl_ClientID = '''', rl_SeqNum = 0\<rparr>"

section \<open>Configuration, persistent state, snapshots\<close>

record raft_config =
  cfg_ID :: server_id
  cfg_Peers :: "server_id list"
  cfg_HeartbeatMs :: int
  cfg_ElectionMinMs :: int
  cfg_ElectionMaxMs :: int

definition DefaultConfig :: "server_id \<Rightarrow> server_id list \<Rightarrow> raft_config" where
  "DefaultConfig sid peers = \<lparr>cfg_ID = sid, cfg_Peers = peers, cfg_HeartbeatMs = 20,
     cfg_ElectionMinMs = 150, cfg_ElectionMaxMs = 300\<rparr>"

record persistent_state =
  ps_CurrentTerm :: int
  ps_VotedFor :: server_id
  ps_Logs :: "raft_log list"

definition zero_persistent_state :: persistent_state where
  "zero_persistent_state = \<lparr>ps_CurrentTerm = 0, ps_VotedFor = '''', ps_Logs = []\<rparr>"

type_synonym server_config = "(server_id, bool) gomap"

record snapshot =
  snap_LastIncludedIndex :: int
  snap_LastIncludedTerm :: int
  snap_Data :: bytes
  snap_ServerConfig :: server_config
  snap_Hash :: bytes

section \<open>RPC arguments and replies\<close>

record append_entries_args =
  ae_Term :: int
  ae_LeaderID :: server_id
  ae_PrevLogIndex :: int
  ae_PrevLogTerm :: int
  ae_Entries :: "raft_log list"
  ae_LeaderCommit :: int

record append_entries_response =
  aer_ID :: server_id
  aer_Term :: int
  aer_Success :: bool
  aer_LastIndex :: int

record request_vote_args =
  rv_Term :: int
  rv_CandidateID :: server_id
  rv_LastLogIndex :: int
  rv_LastLogTerm :: int

record request_vote_response =
  rvr_ID :: server_id
  rvr_Term :: int
  rvr_VoteGranted :: bool

record install_snapshot_args =
  is_ID :: server_id
  is_Term :: int
  is_LastIncludedIndex :: int
  is_LastIncludedTerm :: int
  is_Data :: bytes
  is_ServerConfiguration :: server_config
  is_Hash :: bytes

record install_snapshot_response =
  isr_ID :: server_id
  isr_Term :: int
  isr_Success :: bool
  isr_LastIncludedIndex :: int
  isr_LastIncludedTerm :: int

section \<open>Client-facing requests\<close>

record apply_args =
  aa_ClientID :: string
  aa_SeqNum :: int
  aa_Command :: bytes

record apply_response =
  ar_Success :: bool
  ar_LeaderID :: server_id

record add_remove_server_args =
  ars_Server :: server_id
  ars_Add :: bool

record add_remove_server_response =
  arr_Success :: bool
  arr_LeaderID :: server_id

section \<open>Interfaces\<close>

text \<open>
  A Go interface value is a record of its methods. A method of a \<open>StateMachine\<close> over
  states \<open>'sm\<close> may fail (\<open>Inl\<close> an error message); \<open>Apply\<close> and \<open>Restore\<close> may have
  changed the state even when they return an error, so they return the state as well.
\<close>

type_synonym error = string

record 'sm state_machine =
  sm_Apply :: "bytes \<Rightarrow> 'sm \<Rightarrow> error option \<times> 'sm"
  sm_Snapshot :: "'sm \<Rightarrow> error + bytes"
  sm_Restore :: "bytes \<Rightarrow> 'sm \<Rightarrow> error option \<times> 'sm"

text \<open>Run-time panics of the Go program that the sources can reach.\<close>

datatype go_panic = IntnNonPositive | NilDereference | IndexOutOfRange | NilMapWrite

end
