(* ===== verification/Raft_State.thy ===== *)
theory Raft_State
  imports Raft_Types
begin

text \<open>
  The mutable state of a node (src/raft/state.go): the \<open>nodeState\<close> struct as the record
  \<open>node_state\<close>, its constructor, the election timer, the getters, the helpers on the
  log array, the chained hash and the bytes it covers. Every method of the source runs
  under the mutex \<open>mu\<close>, so a method is one function on the record.

  The log array \<open>[1024]RaftLog\<close> is a function on positions; the entries in use are
  those below \<open>nextLogIdx\<close> (\<open>live_log\<close>), and the frame lemmas show that no operation
  writes at a position of 1024 or above.

  The invariant \<open>log_wf\<close> says that the entries in use carry consecutive indices that
  start right after the snapshot; the lookup by index is then an arithmetic fact
  (\<open>findArrayIdx_wf\<close>).
\<close>

section \<open>State\<close>

datatype node_role = Follower | Candidate | Leader

definition logArrayCapacity :: nat where
  "logArrayCapacity = 1024"

text \<open>
  A \<open>time.Timer\<close>: its duration, whether it is running, and whether its channel holds an
  undelivered tick.
\<close>

record timer =
  tm_Duration :: int
  tm_Active :: bool
  tm_Tick :: bool

text \<open>A pending membership change; channels are named by numbers.\<close>

record config_entry =
  ce_msg :: config_change
  ce_chanApplied :: nat
  ce_resultCh :: nat

definition zero_config_entry :: config_entry where
  "zero_config_entry = \<lparr>ce_msg = zero_config_change, ce_chanApplied = 0, ce_resultCh = 0\<rparr>"

record node_state =
  currentTerm :: int
  votedFor :: server_id
  logs :: "nat \<Rightarrow> raft_log"
  logHashes :: "nat \<Rightarrow> bytes"
  nextLogIdx :: nat
  role :: node_role
  commitIndex :: int
  lastApplied :: int
  currentLeader :: server_id
  lastSnapshot :: "snapshot option"
  nextIndex :: "(server_id, int) gomap"
  matchIndex :: "(server_id, int) gomap"
  lastSentLogIndex :: "(server_id, int) gomap"
  electionTimeoutStarted :: bool
  electionTimer :: "timer option"
  electionVotes :: int
  serverConfig :: server_config
  oldServerConfig :: server_config
  lastConfigLogIndex :: int
  inConfigChange :: bool
  pendingConfigs :: int
  configQueue :: "config_entry list"
  unvotingServers :: "(server_id, config_entry) gomap"
  clientLastSeq :: "(server_id, int) gomap"
  snapshotInstallChan :: "bytes list"
  electionMinMs :: int
  electionMaxMs :: int

text \<open>The 32 zero bytes of an unset \<open>[32]byte\<close>.\<close>

definition zero_hash :: bytes where
  "zero_hash = replicate 32 0"

definition initPeer :: "server_id \<Rightarrow> node_state \<Rightarrow> node_state" where
  "initPeer p s = s\<lparr>
     nextIndex := mput p 0 (nextIndex s),
     matchIndex := mput p (- 1) (matchIndex s),
     lastSentLogIndex := mput p (- 1) (lastSentLogIndex s),
     serverConfig := mput p True (serverConfig s),
     oldServerConfig := mput p True (oldServerConfig s)\<rparr>"

definition newNodeState :: "server_id \<Rightarrow> server_id list \<Rightarrow> int \<Rightarrow> int \<Rightarrow> node_state" where
  "newNodeState sid peers minMs maxMs = fold initPeer peers
     \<lparr>currentTerm = 0, votedFor = '''', logs = (\<lambda>_. zero_raft_log),
      logHashes = (\<lambda>_. zero_hash), nextLogIdx = 0,
      role = Follower, commitIndex = - 1, lastApplied = - 1, currentLeader = '''',
      lastSnapshot = None, nextIndex = [], matchIndex = [], lastSentLogIndex = [],
      electionTimeoutStarted = False, electionTimer = None, electionVotes = 0,
      serverConfig = [(sid, True)], oldServerConfig = [(sid, True)],
      lastConfigLogIndex = 0, inConfigChange = False, pendingConfigs = 0,
      configQueue = [], unvotingServers = [], clientLastSeq = [],
      snapshotInstallChan = [], electionMinMs = minMs, electionMaxMs = maxMs\<rparr>"

section \<open>Timer helpers\<close>

text \<open>
  \<open>rand.Intn(n)\<close> panics for \<open>n \<le> 0\<close> and otherwise returns a value in \<open>[0, n)\<close>; the
  random source is the parameter \<open>rand\<close>.
\<close>

definition Intn :: "(int \<Rightarrow> int) \<Rightarrow> int \<Rightarrow> go_panic + int" where
  "Intn rand n = (if n \<le> 0 then Inl IntnNonPositive else Inr (rand n))"

definition checkElectionTimeout :: "(int \<Rightarrow> int) \<Rightarrow> node_state \<Rightarrow> go_panic + node_state" where
  "checkElectionTimeout rand s =
     (if \<not> electionTimeoutStarted s then
        (case Intn rand (electionMaxMs s - electionMinMs s) of
           Inl p \<Rightarrow> Inl p
         | Inr r \<Rightarrow> Inr (s\<lparr>electionTimeoutStarted := True,
             electionTimer := Some \<lparr>tm_Duration = r + electionMinMs s,
                                    tm_Active = True, tm_Tick = False\<rparr>\<rparr>))
      else Inr s)"

text \<open>\<open>Timer.Stop\<close> reports whether the timer was still running.\<close>

definition timer_stop :: "timer \<Rightarrow> bool \<times> timer" where
  "timer_stop t = (tm_Active t, t\<lparr>tm_Active := False\<rparr>)"

definition stopElectionTimeout :: "node_state \<Rightarrow> node_state" where
  "stopElectionTimeout s =
     (case electionTimer s of
        None \<Rightarrow> s
      | Some t \<Rightarrow>
          (let (running, t1) = timer_stop t;
               t2 = (if \<not> running then t1\<lparr>tm_Tick := False\<rparr> else t1)
           in s\<lparr>electionTimer := Some t2, electionTimeoutStarted := False\<rparr>))"

section \<open>Getters and setters\<close>

definition getClientLastSeq :: "server_id \<Rightarrow> node_state \<Rightarrow> int" where
  "getClientLastSeq c s = mget 0 (clientLastSeq s) c"

definition setClientLastSeq :: "server_id \<Rightarrow> int \<Rightarrow> node_state \<Rightarrow> node_state" where
  "setClientLastSeq c seq s = s\<lparr>clientLastSeq := mput c seq (clientLastSeq s)\<rparr>"

text \<open>The entries of the array in use.\<close>

definition live_log :: "node_state \<Rightarrow> raft_log list" where
  "live_log s = map (logs s) [0..<nextLogIdx s]"

definition getPersistentState :: "node_state \<Rightarrow> persistent_state" where
  "getPersistentState s = \<lparr>ps_CurrentTerm = currentTerm s, ps_VotedFor = votedFor s,
     ps_Logs = live_log s\<rparr>"

section \<open>Log array helpers\<close>

definition getLastLogIdxTerm :: "node_state \<Rightarrow> int \<times> int" where
  "getLastLogIdxTerm s =
     (if nextLogIdx s > 0 then
        (let l = logs s (nextLogIdx s - 1) in (rl_Index l, rl_Term l))
      else case lastSnapshot s of
        Some sn \<Rightarrow> (snap_LastIncludedIndex sn, snap_LastIncludedTerm sn)
      | None \<Rightarrow> (- 1, - 1))"

fun findArrayIdx_loop :: "(nat \<Rightarrow> raft_log) \<Rightarrow> int \<Rightarrow> nat \<Rightarrow> bool \<times> int" where
  "findArrayIdx_loop ls logIdx 0 = (False, - 1)"
| "findArrayIdx_loop ls logIdx (Suc i) =
     (if rl_Index (ls i) = logIdx then (True, int i) else findArrayIdx_loop ls logIdx i)"

definition findArrayIdxByLogIndex :: "node_state \<Rightarrow> int \<Rightarrow> bool \<times> int" where
  "findArrayIdxByLogIndex s logIdx = findArrayIdx_loop (logs s) logIdx (nextLogIdx s)"

definition updateCurrentTerm :: "int \<Rightarrow> node_state \<Rightarrow> node_state" where
  "updateCurrentTerm t s = s\<lparr>currentTerm := t, votedFor := ''''\<rparr>"

function copyLogs_loop :: "nat \<Rightarrow> nat \<Rightarrow> node_state \<Rightarrow> node_state" where
  "copyLogs_loop startLog dst s =
     (if startLog + dst < nextLogIdx s then
        copyLogs_loop startLog (Suc dst)
          (s\<lparr>logs := (logs s)(dst := logs s (startLog + dst)),
             logHashes := (logHashes s)(dst := logHashes s (startLog + dst))\<rparr>)
      else s\<lparr>nextLogIdx := dst\<rparr>)"
  by pat_completeness auto
termination
  by (relation "measure (\<lambda>(startLog, dst, s). nextLogIdx s - (startLog + dst))") auto

declare copyLogs_loop.simps [simp del]

definition copyLogsToBeginning :: "nat \<Rightarrow> node_state \<Rightarrow> node_state" where
  "copyLogsToBeginning startLog s = copyLogs_loop startLog 0 s"

section \<open>Hashes\<close>

definition string_bytes :: "string \<Rightarrow> bytes" where
  "string_bytes = map of_char"

definition raftLogBytes :: "raft_log \<Rightarrow> bytes" where
  "raftLogBytes rl =
     le_bytes 8 (rl_Index rl) @ le_bytes 8 (rl_Term rl) @
     le_bytes 8 (log_type_int (rl_Type rl)) @ rl_Data rl @
     [if cc_Add (rl_Config rl) then 1 else 0] @ string_bytes (cc_Server (rl_Config rl))"

text \<open>\<open>sha256.Sum256\<close> is the parameter \<open>sha\<close>.\<close>

definition getLogHash :: "(bytes \<Rightarrow> bytes) \<Rightarrow> node_state \<Rightarrow> raft_log \<Rightarrow> bytes" where
  "getLogHash sha s rl =
     (let b = raftLogBytes rl; (_, arrIdx) = findArrayIdxByLogIndex s (rl_Index rl)
      in if arrIdx > 0 then sha (b @ logHashes s (nat (arrIdx - 1)))
         else case lastSnapshot s of
           Some sn \<Rightarrow> sha (b @ snap_Hash sn)
         | None \<Rightarrow> sha b)"

section \<open>Configuration maps\<close>

text \<open>\<open>copyConfig\<close> (src/raft/config_change.go) fills a fresh map key by key.\<close>

definition copyConfig :: "server_config \<Rightarrow> server_config" where
  "copyConfig src = fold (\<lambda>(k, v) dst. mput k v dst) src []"

lemma copyConfig_id: "m_ok src \<Longrightarrow> copyConfig src = src"
  by (simp add: copyConfig_def fold_mput_fresh m_ok_def)

lemma m_ok_copyConfig [simp]: "m_ok (copyConfig src)"
  by (simp add: copyConfig_def m_ok_fold_mput gm.invar_empty)

section \<open>Invariants\<close>

text \<open>Index and term of the last entry covered by the snapshot (-1 before the first).\<close>

definition base_index :: "node_state \<Rightarrow> int" where
  "base_index s = (case lastSnapshot s of None \<Rightarrow> - 1 | Some sn \<Rightarrow> snap_LastIncludedIndex sn)"

definition base_term :: "node_state \<Rightarrow> int" where
  "base_term s = (case lastSnapshot s of None \<Rightarrow> - 1 | Some sn \<Rightarrow> snap_LastIncludedTerm sn)"

definition last_index :: "node_state \<Rightarrow> int" where
  "last_index s = base_index s + int (nextLogIdx s)"

definition log_wf :: "node_state \<Rightarrow> bool" where
  "log_wf s \<longleftrightarrow> nextLogIdx s \<le> logArrayCapacity \<and> - 1 \<le> base_index s \<and>
     (\<forall>i < nextLogIdx s. rl_Index (logs s i) = base_index s + 1 + int i)"

text \<open>Terms never go down along the log and never exceed the current term.\<close>

definition terms_wf :: "node_state \<Rightarrow> bool" where
  "terms_wf s \<longleftrightarrow> sorted (base_term s # map rl_Term (live_log s) @ [currentTerm s])"

text \<open>Nothing is applied before it is committed, and the snapshot covers applied entries.\<close>

definition apply_wf :: "node_state \<Rightarrow> bool" where
  "apply_wf s \<longleftrightarrow> base_index s \<le> lastApplied s \<and> lastApplied s \<le> commitIndex s"

definition maps_wf :: "node_state \<Rightarrow> bool" where
  "maps_wf s \<longleftrightarrow> m_ok (nextIndex s) \<and> m_ok (matchIndex s) \<and> m_ok (lastSentLogIndex s) \<and>
     m_ok (serverConfig s) \<and> m_ok (oldServerConfig s) \<and> m_ok (unvotingServers s) \<and>
     m_ok (clientLastSeq s)"

definition queue_wf :: "node_state \<Rightarrow> bool" where
  "queue_wf s \<longleftrightarrow> pendingConfigs s = int (length (configQueue s))"

definition node_inv :: "node_state \<Rightarrow> bool" where
  "node_inv s \<longleftrightarrow> log_wf s \<and> terms_wf s \<and> apply_wf s \<and> maps_wf s \<and> queue_wf s"

lemmas base_defs = base_index_def base_term_def

lemmas inv_defs = node_inv_def log_wf_def terms_wf_def apply_wf_def maps_wf_def queue_wf_def
  live_log_def base_defs

lemma terms_wf_raise:
  "terms_wf s \<Longrightarrow> currentTerm s \<le> t \<Longrightarrow> terms_wf (s\<lparr>currentTerm := t\<rparr>)"
  by (auto simp: terms_wf_def live_log_def base_term_def sorted_append split: option.splits)

text \<open>The invariant reads only some fields; the timer, votes and leader are not among them.\<close>

lemma node_inv_update [simp]:
  "node_inv (s\<lparr>votedFor := v\<rparr>) = node_inv s"
  "node_inv (s\<lparr>role := r\<rparr>) = node_inv s"
  "node_inv (s\<lparr>currentLeader := l\<rparr>) = node_inv s"
  "node_inv (s\<lparr>electionVotes := e\<rparr>) = node_inv s"
  "node_inv (s\<lparr>electionTimer := tm\<rparr>) = node_inv s"
  "node_inv (s\<lparr>electionTimeoutStarted := b\<rparr>) = node_inv s"
  "node_inv (s\<lparr>logHashes := h\<rparr>) = node_inv s"
  "node_inv (s\<lparr>inConfigChange := b\<rparr>) = node_inv s"
  "node_inv (s\<lparr>lastConfigLogIndex := i\<rparr>) = node_inv s"
  "node_inv (s\<lparr>snapshotInstallChan := ch\<rparr>) = node_inv s"
  by (simp_all add: inv_defs)

lemma node_inv_maps [simp]:
  "m_ok m \<Longrightarrow> node_inv s \<Longrightarrow> node_inv (s\<lparr>nextIndex := m\<rparr>)"
  "m_ok m \<Longrightarrow> node_inv s \<Longrightarrow> node_inv (s\<lparr>matchIndex := m\<rparr>)"
  "m_ok m \<Longrightarrow> node_inv s \<Longrightarrow> node_inv (s\<lparr>lastSentLogIndex := m\<rparr>)"
  "m_ok c \<Longrightarrow> node_inv s \<Longrightarrow> node_inv (s\<lparr>serverConfig := c\<rparr>)"
  "m_ok c \<Longrightarrow> node_inv s \<Longrightarrow> node_inv (s\<lparr>oldServerConfig := c\<rparr>)"
  "m_ok u \<Longrightarrow> node_inv s \<Longrightarrow> node_inv (s\<lparr>unvotingServers := u\<rparr>)"
  "m_ok m \<Longrightarrow> node_inv s \<Longrightarrow> node_inv (s\<lparr>clientLastSeq := m\<rparr>)"
  by (simp_all add: inv_defs)

lemma node_inv_raise_term:
  "node_inv s \<Longrightarrow> currentTerm s \<le> t \<Longrightarrow> node_inv (s\<lparr>currentTerm := t\<rparr>)"
  using terms_wf_raise by (simp add: node_inv_def) (simp add: inv_defs)

lemma node_inv_m_ok:
  assumes "node_inv s"
  shows "m_ok (nextIndex s)" "m_ok (matchIndex s)" "m_ok (lastSentLogIndex s)"
    "m_ok (serverConfig s)" "m_ok (oldServerConfig s)" "m_ok (unvotingServers s)"
    "m_ok (clientLastSeq s)"
  using assms by (simp_all add: node_inv_def maps_wf_def)

lemma node_inv_updateCurrentTerm:
  "node_inv s \<Longrightarrow> currentTerm s \<le> t \<Longrightarrow> node_inv (updateCurrentTerm t s)"
  by (simp add: updateCurrentTerm_def node_inv_raise_term)

lemma node_inv_stopElectionTimeout [simp]: "node_inv (stopElectionTimeout s) = node_inv s"
  by (simp add: stopElectionTimeout_def timer_stop_def split: option.splits)

lemma stopElectionTimeout_frame [simp]:
  "currentTerm (stopElectionTimeout s) = currentTerm s"
  "votedFor (stopElectionTimeout s) = votedFor s"
  "role (stopElectionTimeout s) = role s"
  "electionVotes (stopElectionTimeout s) = electionVotes s"
  "logs (stopElectionTimeout s) = logs s" "logHashes (stopElectionTimeout s) = logHashes s"
  "nextLogIdx (stopElectionTimeout s) = nextLogIdx s"
  "lastSnapshot (stopElectionTimeout s) = lastSnapshot s"
  "commitIndex (stopElectionTimeout s) = commitIndex s"
  "lastApplied (stopElectionTimeout s) = lastApplied s"
  "currentLeader (stopElectionTimeout s) = currentLeader s"
  "serverConfig (stopElectionTimeout s) = serverConfig s"
  "oldServerConfig (stopElectionTimeout s) = oldServerConfig s"
  "lastConfigLogIndex (stopElectionTimeout s) = lastConfigLogIndex s"
  "nextIndex (stopElectionTimeout s) = nextIndex s"
  "matchIndex (stopElectionTimeout s) = matchIndex s"
  "lastSentLogIndex (stopElectionTimeout s) = lastSentLogIndex s"
  by (simp_all add: stopElectionTimeout_def timer_stop_def split: option.splits)

lemma updateCurrentTerm_frame [simp]:
  "currentTerm (updateCurrentTerm t s) = t" "votedFor (updateCurrentTerm t s) = ''''"
  "role (updateCurrentTerm t s) = role s" "electionVotes (updateCurrentTerm t s) = electionVotes s"
  "logs (updateCurrentTerm t s) = logs s" "logHashes (updateCurrentTerm t s) = logHashes s"
  "nextLogIdx (updateCurrentTerm t s) = nextLogIdx s"
  "lastSnapshot (updateCurrentTerm t s) = lastSnapshot s"
  "commitIndex (updateCurrentTerm t s) = commitIndex s"
  "lastApplied (updateCurrentTerm t s) = lastApplied s"
  "currentLeader (updateCurrentTerm t s) = currentLeader s"
  "serverConfig (updateCurrentTerm t s) = serverConfig s"
  "oldServerConfig (updateCurrentTerm t s) = oldServerConfig s"
  "lastConfigLogIndex (updateCurrentTerm t s) = lastConfigLogIndex s"
  "nextIndex (updateCurrentTerm t s) = nextIndex s"
  "matchIndex (updateCurrentTerm t s) = matchIndex s"
  "lastSentLogIndex (updateCurrentTerm t s) = lastSentLogIndex s"
  by (simp_all add: updateCurrentTerm_def)

lemma newNodeState_inv: "node_inv (newNodeState sid peers mn mx)"
proof -
  have "node_inv s \<Longrightarrow> node_inv (fold initPeer peers s)" for s
  proof (induction peers arbitrary: s)
    case (Cons p peers)
    have "node_inv (initPeer p s)"
      using Cons.prems by (simp add: initPeer_def gm.invar_put node_inv_m_ok)
    with Cons.IH show ?case by simp
  qed simp
  then show ?thesis
    by (simp add: newNodeState_def inv_defs m_ok_def)
qed

section \<open>Facts on the log array\<close>

lemma length_live_log [simp]: "length (live_log s) = nextLogIdx s"
  by (simp add: live_log_def)

lemma nth_live_log [simp]: "i < nextLogIdx s \<Longrightarrow> live_log s ! i = logs s i"
  by (simp add: live_log_def)

lemma findArrayIdx_loop_None:
  "findArrayIdx_loop ls li n = (False, - 1) \<longleftrightarrow> (\<forall>i < n. rl_Index (ls i) \<noteq> li)"
  by (induction n) (auto simp: less_Suc_eq)

lemma findArrayIdx_loop_Some:
  "findArrayIdx_loop ls li n = (True, j) \<longleftrightarrow>
     (\<exists>i < n. j = int i \<and> rl_Index (ls i) = li \<and> (\<forall>k. i < k \<and> k < n \<longrightarrow> rl_Index (ls k) \<noteq> li))"
  by (induction n) (auto simp: less_Suc_eq)

lemma findArrayIdx_loop_cases:
  obtains "findArrayIdx_loop ls li n = (False, - 1)" "\<forall>i < n. rl_Index (ls i) \<noteq> li"
  | i where "findArrayIdx_loop ls li n = (True, int i)" "i < n" "rl_Index (ls i) = li"
proof -
  have "(findArrayIdx_loop ls li n = (False, - 1) \<and> (\<forall>i < n. rl_Index (ls i) \<noteq> li)) \<or>
    (\<exists>i < n. findArrayIdx_loop ls li n = (True, int i) \<and> rl_Index (ls i) = li)"
    by (induction n) (auto simp: less_Suc_eq)
  then show thesis using that by blast
qed

text \<open>Under the invariant a lookup is subtraction.\<close>

lemma findArrayIdx_wf:
  assumes wf: "log_wf s"
  shows "findArrayIdxByLogIndex s li =
    (if base_index s < li \<and> li \<le> last_index s then (True, li - base_index s - 1) else (False, - 1))"
proof (cases rule: findArrayIdx_loop_cases [of "logs s" li "nextLogIdx s"])
  case 1
  have "\<not> (base_index s < li \<and> li \<le> last_index s)"
  proof
    assume r: "base_index s < li \<and> li \<le> last_index s"
    then have "nat (li - base_index s - 1) < nextLogIdx s" by (auto simp: last_index_def)
    with wf have "rl_Index (logs s (nat (li - base_index s - 1))) = li"
      using r by (simp add: log_wf_def)
    with 1 \<open>nat (li - base_index s - 1) < nextLogIdx s\<close> show False by blast
  qed
  with 1 show ?thesis by (simp add: findArrayIdxByLogIndex_def)
next
  case (2 i)
  with wf have "li = base_index s + 1 + int i" by (auto simp: log_wf_def)
  with 2 show ?thesis by (auto simp: findArrayIdxByLogIndex_def last_index_def)
qed

lemma getLastLogIdxTerm_wf:
  assumes "log_wf s"
  shows "getLastLogIdxTerm s =
    (last_index s, if nextLogIdx s = 0 then base_term s else rl_Term (logs s (nextLogIdx s - 1)))"
  using assms
  by (auto simp: getLastLogIdxTerm_def last_index_def base_defs log_wf_def Let_def of_nat_diff
           split: option.splits)

lemma last_index_ge: "log_wf s \<Longrightarrow> - 1 \<le> last_index s"
  by (simp add: log_wf_def last_index_def)

text \<open>The compaction loop: positions shift down, everything else stays.\<close>

lemma copyLogs_loop_result:
  assumes "nextLogIdx s = n"
  shows "copyLogs_loop st dst s = s\<lparr>
     logs := (\<lambda>i. if dst \<le> i \<and> st + i < n then logs s (st + i) else logs s i),
     logHashes := (\<lambda>i. if dst \<le> i \<and> st + i < n then logHashes s (st + i) else logHashes s i),
     nextLogIdx := max dst (n - st)\<rparr>"
  using assms
proof (induction st dst s rule: copyLogs_loop.induct)
  case (1 st dst s)
  show ?case
  proof (cases "st + dst < nextLogIdx s")
    case True
    with "1.IH" [OF True] "1.prems" show ?thesis
      by (subst copyLogs_loop.simps) (auto simp: fun_eq_iff max_def)
  next
    case False
    with "1.prems" show ?thesis
      by (subst copyLogs_loop.simps)
        (auto simp: fun_eq_iff max_def intro!: node_state.equality)
  qed
qed

lemma copyLogsToBeginning_result:
  "copyLogsToBeginning st s = s\<lparr>
     logs := (\<lambda>i. if st + i < nextLogIdx s then logs s (st + i) else logs s i),
     logHashes := (\<lambda>i. if st + i < nextLogIdx s then logHashes s (st + i) else logHashes s i),
     nextLogIdx := nextLogIdx s - st\<rparr>"
  by (simp add: copyLogsToBeginning_def copyLogs_loop_result)

lemma live_log_copyLogs: "live_log (copyLogsToBeginning st s) = drop st (live_log s)"
  by (rule nth_equalityI) (simp_all add: copyLogsToBeginning_result live_log_def)

section \<open>The hashed bytes of an entry\<close>

text \<open>The bytes that are hashed for an entry determine its index, term and type: two entries
  with the same bytes agree on all three, and the index can be read back.\<close>

lemma entry_bytes_determine_position:
  assumes "raftLogBytes a = raftLogBytes b" "is_int64 (rl_Index a)" "is_int64 (rl_Index b)"
    "is_int64 (rl_Term a)" "is_int64 (rl_Term b)"
  shows "rl_Index a = rl_Index b \<and> rl_Term a = rl_Term b \<and> rl_Type a = rl_Type b \<and>
    wrap64 (le_value (take 8 (raftLogBytes a))) = rl_Index a"
proof -
  have e: "le_bytes 8 (rl_Index a) = le_bytes 8 (rl_Index b)" "le_bytes 8 (rl_Term a) = le_bytes 8 (rl_Term b)"
    "le_bytes 8 (log_type_int (rl_Type a)) = le_bytes 8 (log_type_int (rl_Type b))"
    using assms(1) by (simp_all add: raftLogBytes_def)
  have t: "is_int64 (log_type_int x)" for x by (cases x) (simp_all add: int64_defs)
  have "log_type_int (rl_Type a) = log_type_int (rl_Type b)" by (rule le_bytes_int64_inj [OF t t e(3)])
  then have "rl_Type a = rl_Type b" by (cases "rl_Type a"; cases "rl_Type b") simp_all
  moreover have "wrap64 (x mod 2 ^ 64) = wrap64 x" for x
    unfolding wrap64_def by (simp add: mod_simps)
  then have "wrap64 (le_value (take 8 (raftLogBytes a))) = rl_Index a"
    using wrap64_id [OF assms(2)] by (simp add: raftLogBytes_def le_value_bytes)
  ultimately show ?thesis
    using le_bytes_int64_inj [OF assms(2,3) e(1)] le_bytes_int64_inj [OF assms(4,5) e(2)] by blast
qed

end
