(* ===== verification/Raft_Config.thy ===== *)
theory Raft_Config
  imports Raft_Snapshot
begin

text \<open>
  Cluster membership (the \<open>nodeState\<close> methods of src/raft/config_change.go): appending a
  configuration entry, applying it to \<open>serverConfig\<close>, the queue of pending changes, and
  the servers that are catching up without a vote.

  Two helpers name the statements that every \<open>add...Log\<close> method ends with: \<open>storeEntry\<close>
  writes the entry and its hash at \<open>nextLogIdx\<close> (the hash is computed before
  \<open>nextLogIdx\<close> is incremented, as in the source), \<open>trackLeader\<close> records the new index
  for the leader itself.

  The lemmas show that appending keeps the node invariant, that the queue never
  underflows and is first-in first-out, that one change is in progress at a time, and
  that any two majorities before and after one change share a server.
\<close>

section \<open>Appending an entry\<close>

definition storeEntry :: "(bytes \<Rightarrow> bytes) \<Rightarrow> raft_log \<Rightarrow> node_state \<Rightarrow> node_state" where
  "storeEntry sha entry s =
     (let s1 = s\<lparr>logs := (logs s)(nextLogIdx s := entry)\<rparr>;
          s2 = s1\<lparr>logHashes := (logHashes s1)(nextLogIdx s1 := getLogHash sha s1 entry)\<rparr>
      in s2\<lparr>nextLogIdx := nextLogIdx s2 + 1\<rparr>)"

definition trackLeader :: "server_id \<Rightarrow> int \<Rightarrow> node_state \<Rightarrow> node_state" where
  "trackLeader sid idx s = s\<lparr>
     matchIndex := mput sid idx (matchIndex s),
     lastSentLogIndex := mput sid idx (lastSentLogIndex s),
     nextIndex := mput sid (wrap64 (idx + 1)) (nextIndex s)\<rparr>"

section \<open>Operations\<close>

definition applyConfigurationLocked :: "int \<Rightarrow> config_change \<Rightarrow> node_state \<Rightarrow> node_state" where
  "applyConfigurationLocked logIdx cfg s =
     (let s1 = s\<lparr>oldServerConfig := copyConfig (serverConfig s)\<rparr>;
          s2 = (if cc_Add cfg then s1\<lparr>serverConfig := mput (cc_Server cfg) True (serverConfig s1)\<rparr>
                else s1\<lparr>serverConfig := mdel (cc_Server cfg) (serverConfig s1)\<rparr>)
      in s2\<lparr>lastConfigLogIndex := logIdx\<rparr>)"

definition configLogEntry :: "node_state \<Rightarrow> config_change \<Rightarrow> raft_log" where
  "configLogEntry s cfg = zero_raft_log\<lparr>
     rl_Index := wrap64 (fst (getLastLogIdxTerm s) + 1), rl_Term := currentTerm s,
     rl_Type := LogConfiguration, rl_Config := cfg\<rparr>"

definition addConfigLog ::
  "(bytes \<Rightarrow> bytes) \<Rightarrow> bytes \<Rightarrow> server_id \<Rightarrow> config_change \<Rightarrow> node_state \<Rightarrow> bool \<times> node_state" where
  "addConfigLog sha gameState leaderID cfg s =
     (let entry = configLogEntry s cfg;
          s1 = applyConfigurationLocked (rl_Index entry) cfg s;
          (ok, s2) = (if nextLogIdx s1 \<ge> logArrayCapacity then
                        (let (taken, s') = takeSnapshot gameState s1
                         in (taken \<and> \<not> nextLogIdx s' \<ge> logArrayCapacity, s'))
                      else (True, s1))
      in if \<not> ok then (False, s2)
         else (True, trackLeader leaderID (rl_Index entry) (storeEntry sha entry s2)))"

definition addConfigLogUnlocked ::
  "(bytes \<Rightarrow> bytes) \<Rightarrow> server_id \<Rightarrow> config_change \<Rightarrow> node_state \<Rightarrow> node_state" where
  "addConfigLogUnlocked sha leaderID cfg s =
     (let entry = configLogEntry s cfg;
          s1 = applyConfigurationLocked (rl_Index entry) cfg s
      in if nextLogIdx s1 \<ge> logArrayCapacity then s1
         else trackLeader leaderID (rl_Index entry) (storeEntry sha entry s1))"

text \<open>Reading \<open>configQueue[0]\<close> of an empty queue would panic.\<close>

definition handleNextConfigurationChange ::
  "(bytes \<Rightarrow> bytes) \<Rightarrow> node_state \<Rightarrow> go_panic + (bool \<times> config_entry) \<times> node_state" where
  "handleNextConfigurationChange sha s =
     (if inConfigChange s \<or> pendingConfigs s = 0 then Inr ((False, zero_config_entry), s)
      else case configQueue s of
        [] \<Rightarrow> Inl IndexOutOfRange
      | entry # rest \<Rightarrow>
          let s1 = s\<lparr>inConfigChange := True, configQueue := rest,
                     pendingConfigs := pendingConfigs s - 1\<rparr>
          in Inr ((True, entry), addConfigLogUnlocked sha (currentLeader s1) (ce_msg entry) s1))"

definition enqueueConfig :: "config_entry \<Rightarrow> node_state \<Rightarrow> node_state" where
  "enqueueConfig entry s = s\<lparr>configQueue := configQueue s @ [entry],
     pendingConfigs := wrap64 (pendingConfigs s + 1)\<rparr>"

definition handleConfigurationRPC ::
  "(bytes \<Rightarrow> bytes) \<Rightarrow> config_entry \<Rightarrow> node_state \<Rightarrow> go_panic + (bool \<times> config_entry) \<times> node_state" where
  "handleConfigurationRPC sha entry s = handleNextConfigurationChange sha (enqueueConfig entry s)"

definition unlockNextConfiguration :: "node_state \<Rightarrow> node_state" where
  "unlockNextConfiguration s = s\<lparr>inConfigChange := False\<rparr>"

definition addNewServer :: "server_id \<Rightarrow> node_state \<Rightarrow> node_state" where
  "addNewServer sid s =
     (if \<not> mhas (nextIndex s) sid then
        s\<lparr>lastSentLogIndex := mput sid 0 (lastSentLogIndex s),
          nextIndex := mput sid 0 (nextIndex s),
          matchIndex := mput sid 0 (matchIndex s)\<rparr>
      else s)"

definition removeServer :: "server_id \<Rightarrow> node_state \<Rightarrow> node_state" where
  "removeServer sid s = s\<lparr>serverConfig := mdel sid (serverConfig s),
     clientLastSeq := mdel sid (clientLastSeq s)\<rparr>"

definition serverInConfiguration :: "server_id \<Rightarrow> node_state \<Rightarrow> bool" where
  "serverInConfiguration sid s = mhas (serverConfig s) sid"

definition addUnvotingServer :: "config_entry \<Rightarrow> node_state \<Rightarrow> node_state" where
  "addUnvotingServer entry s =
     s\<lparr>unvotingServers := mput (cc_Server (ce_msg entry)) entry (unvotingServers s)\<rparr>"

definition removeUnvotingServer ::
  "server_id \<Rightarrow> node_state \<Rightarrow> (config_entry \<times> bool) \<times> node_state" where
  "removeUnvotingServer sid s =
     (case map_of (unvotingServers s) sid of
        Some entry \<Rightarrow> ((entry, True), s\<lparr>unvotingServers := mdel sid (unvotingServers s)\<rparr>)
      | None \<Rightarrow> ((zero_config_entry, False), s))"

definition getUnvotingServerIDs :: "node_state \<Rightarrow> server_id list" where
  "getUnvotingServerIDs s = mkeys (unvotingServers s)"

section \<open>Appending keeps the invariant\<close>

lemma storeEntry_frame [simp]:
  "nextLogIdx (storeEntry sha e s) = Suc (nextLogIdx s)"
  "logs (storeEntry sha e s) = (logs s)(nextLogIdx s := e)"
  "lastSnapshot (storeEntry sha e s) = lastSnapshot s"
  "currentTerm (storeEntry sha e s) = currentTerm s" "votedFor (storeEntry sha e s) = votedFor s"
  "role (storeEntry sha e s) = role s" "electionVotes (storeEntry sha e s) = electionVotes s"
  "commitIndex (storeEntry sha e s) = commitIndex s" "lastApplied (storeEntry sha e s) = lastApplied s"
  "serverConfig (storeEntry sha e s) = serverConfig s"
  "oldServerConfig (storeEntry sha e s) = oldServerConfig s"
  "currentLeader (storeEntry sha e s) = currentLeader s"
  "nextIndex (storeEntry sha e s) = nextIndex s" "matchIndex (storeEntry sha e s) = matchIndex s"
  "lastSentLogIndex (storeEntry sha e s) = lastSentLogIndex s"
  "unvotingServers (storeEntry sha e s) = unvotingServers s"
  "clientLastSeq (storeEntry sha e s) = clientLastSeq s"
  "configQueue (storeEntry sha e s) = configQueue s"
  "pendingConfigs (storeEntry sha e s) = pendingConfigs s"
  "inConfigChange (storeEntry sha e s) = inConfigChange s"
  "lastConfigLogIndex (storeEntry sha e s) = lastConfigLogIndex s"
  by (simp_all add: storeEntry_def Let_def)

lemma live_log_storeEntry [simp]: "live_log (storeEntry sha e s) = live_log s @ [e]"
  by (simp add: live_log_def)

lemma last_index_storeEntry [simp]: "last_index (storeEntry sha e s) = last_index s + 1"
  by (simp add: last_index_def base_index_def)

text \<open>One law for all appends: room in the array, the next index, the current term.\<close>

lemma storeEntry_inv:
  assumes "node_inv s" "nextLogIdx s < logArrayCapacity"
    and "rl_Index e = last_index s + 1" "rl_Term e = currentTerm s"
  shows "node_inv (storeEntry sha e s)"
  using assms
  by (auto simp: inv_defs last_index_def sorted_append less_Suc_eq split: option.splits)

lemma trackLeader_inv [simp]: "node_inv s \<Longrightarrow> node_inv (trackLeader sid i s)"
  by (simp add: trackLeader_def gm.invar_put node_inv_m_ok)

lemma trackLeader_frame [simp]:
  "nextLogIdx (trackLeader i j s) = nextLogIdx s" "logs (trackLeader i j s) = logs s"
  "logHashes (trackLeader i j s) = logHashes s"
  "lastSnapshot (trackLeader i j s) = lastSnapshot s" "live_log (trackLeader i j s) = live_log s"
  "currentTerm (trackLeader i j s) = currentTerm s" "votedFor (trackLeader i j s) = votedFor s"
  "role (trackLeader i j s) = role s" "electionVotes (trackLeader i j s) = electionVotes s"
  "commitIndex (trackLeader i j s) = commitIndex s" "lastApplied (trackLeader i j s) = lastApplied s"
  "serverConfig (trackLeader i j s) = serverConfig s"
  "oldServerConfig (trackLeader i j s) = oldServerConfig s"
  "currentLeader (trackLeader i j s) = currentLeader s"
  "configQueue (trackLeader i j s) = configQueue s"
  "pendingConfigs (trackLeader i j s) = pendingConfigs s"
  "inConfigChange (trackLeader i j s) = inConfigChange s"
  "lastConfigLogIndex (trackLeader i j s) = lastConfigLogIndex s"
  "last_index (trackLeader i j s) = last_index s"
  by (simp_all add: trackLeader_def live_log_def last_index_def base_index_def)

lemma next_entry_index:
  "log_wf s \<Longrightarrow> last_index s < max_int64 \<Longrightarrow>
     wrap64 (fst (getLastLogIdxTerm s) + 1) = last_index s + 1"
  using last_index_ge [of s] by (simp add: getLastLogIdxTerm_wf wrap64_succ)

lemma applyConfigurationLocked_frame [simp]:
  "nextLogIdx (applyConfigurationLocked i c s) = nextLogIdx s"
  "logs (applyConfigurationLocked i c s) = logs s"
  "logHashes (applyConfigurationLocked i c s) = logHashes s"
  "lastSnapshot (applyConfigurationLocked i c s) = lastSnapshot s"
  "live_log (applyConfigurationLocked i c s) = live_log s"
  "last_index (applyConfigurationLocked i c s) = last_index s"
  "base_index (applyConfigurationLocked i c s) = base_index s"
  "currentTerm (applyConfigurationLocked i c s) = currentTerm s"
  "votedFor (applyConfigurationLocked i c s) = votedFor s"
  "role (applyConfigurationLocked i c s) = role s"
  "electionVotes (applyConfigurationLocked i c s) = electionVotes s"
  "commitIndex (applyConfigurationLocked i c s) = commitIndex s"
  "lastApplied (applyConfigurationLocked i c s) = lastApplied s"
  "currentLeader (applyConfigurationLocked i c s) = currentLeader s"
  "nextIndex (applyConfigurationLocked i c s) = nextIndex s"
  "matchIndex (applyConfigurationLocked i c s) = matchIndex s"
  "lastSentLogIndex (applyConfigurationLocked i c s) = lastSentLogIndex s"
  "configQueue (applyConfigurationLocked i c s) = configQueue s"
  "pendingConfigs (applyConfigurationLocked i c s) = pendingConfigs s"
  "inConfigChange (applyConfigurationLocked i c s) = inConfigChange s"
  "oldServerConfig (applyConfigurationLocked i c s) = copyConfig (serverConfig s)"
  "lastConfigLogIndex (applyConfigurationLocked i c s) = i"
  by (simp_all add: applyConfigurationLocked_def Let_def live_log_def last_index_def base_index_def)

lemma serverConfig_apply:
  "serverConfig (applyConfigurationLocked i c s) =
     (if cc_Add c then mput (cc_Server c) True (serverConfig s) else mdel (cc_Server c) (serverConfig s))"
  by (simp add: applyConfigurationLocked_def Let_def)

lemma applyConfigurationLocked_inv [simp]:
  "node_inv s \<Longrightarrow> node_inv (applyConfigurationLocked i c s)"
  using node_inv_m_ok [of s]
  by (simp add: applyConfigurationLocked_def Let_def gm.invar_put gm.invar_del)

lemma configLogEntry_fields [simp]:
  "rl_Term (configLogEntry s c) = currentTerm s" "rl_Config (configLogEntry s c) = c"
  "rl_Type (configLogEntry s c) = LogConfiguration"
  by (simp_all add: configLogEntry_def)

lemma configLogEntry_index:
  "log_wf s \<Longrightarrow> last_index s < max_int64 \<Longrightarrow> rl_Index (configLogEntry s c) = last_index s + 1"
  by (simp add: configLogEntry_def next_entry_index)

lemma addConfigLogUnlocked_inv:
  assumes inv: "node_inv s" and max: "last_index s < max_int64"
  shows "node_inv (addConfigLogUnlocked sha l c s)"
proof -
  have "rl_Index (configLogEntry s c) = last_index s + 1"
    using inv max by (simp add: configLogEntry_index node_inv_def)
  then show ?thesis
    using inv by (auto simp: addConfigLogUnlocked_def Let_def intro!: trackLeader_inv storeEntry_inv)
qed

text \<open>
  Storing an entry after a possible compaction, as the three \<open>add...Log\<close> methods with a
  snapshot do it: \<open>e\<close> was built from the state before the compaction.
\<close>

lemma storeEntry_after_snapshot_inv:
  assumes inv: "node_inv s" and max: "last_index s < max_int64"
    and e: "rl_Index e = last_index s + 1" "rl_Term e = currentTerm s"
    and t: "takeSnapshot g s = (True, s')" and room: "nextLogIdx s' < logArrayCapacity"
  shows "node_inv (storeEntry sha e s')"
proof (rule storeEntry_inv)
  show "node_inv s'" using takeSnapshot_inv [OF inv t] .
  show "nextLogIdx s' < logArrayCapacity" by fact
  show "rl_Index e = last_index s' + 1"
    using e takeSnapshot_effect(3) [OF _ _ t] inv by (simp add: node_inv_def)
  show "rl_Term e = currentTerm s'" using e by (simp add: takeSnapshot_frame [OF t])
qed

lemma addConfigLog_inv:
  assumes inv: "node_inv s" and max: "last_index s < max_int64"
  shows "node_inv (snd (addConfigLog sha g l c s))"
proof -
  let ?e = "configLogEntry s c"
  let ?s1 = "applyConfigurationLocked (rl_Index ?e) c s"
  have e: "rl_Index ?e = last_index ?s1 + 1" "rl_Term ?e = currentTerm ?s1"
    using inv max by (simp_all add: configLogEntry_index node_inv_def)
  obtain taken s' where t: "takeSnapshot g ?s1 = (taken, s')" by fastforce
  have s': "node_inv s'" using takeSnapshot_inv [OF _ t] inv by simp
  have st: "node_inv (storeEntry sha ?e s')" if "taken" "\<not> logArrayCapacity \<le> nextLogIdx s'"
    using storeEntry_after_snapshot_inv [OF _ _ e] inv max t that by simp
  show ?thesis
  proof (cases "nextLogIdx s \<ge> logArrayCapacity")
    case True
    then show ?thesis
      using t s' st by (simp add: addConfigLog_def Let_def)
  next
    case False
    then show ?thesis
      using inv e by (auto simp: addConfigLog_def Let_def intro!: trackLeader_inv storeEntry_inv)
  qed
qed

section \<open>The queue of changes\<close>

text \<open>With an accurate counter the head of the queue exists: no panic, and first in is first out.\<close>

lemma handleNext_cases:
  assumes "queue_wf s"
  obtains (idle) "handleNextConfigurationChange sha s = Inr ((False, zero_config_entry), s)"
      "inConfigChange s \<or> configQueue s = []"
  | (start) entry rest where "\<not> inConfigChange s" "configQueue s = entry # rest"
      "handleNextConfigurationChange sha s = Inr ((True, entry),
         addConfigLogUnlocked sha (currentLeader s) (ce_msg entry)
           (s\<lparr>inConfigChange := True, configQueue := rest, pendingConfigs := pendingConfigs s - 1\<rparr>))"
proof (cases "inConfigChange s \<or> configQueue s = []")
  case True
  then show thesis using idle assms by (auto simp: handleNextConfigurationChange_def queue_wf_def)
next
  case False
  then obtain entry rest where "configQueue s = entry # rest" by (cases "configQueue s") auto
  then show thesis using start False assms
    by (auto simp: handleNextConfigurationChange_def queue_wf_def Let_def)
qed

lemma addConfigLogUnlocked_queue [simp]:
  "configQueue (addConfigLogUnlocked sha l c s) = configQueue s"
  "pendingConfigs (addConfigLogUnlocked sha l c s) = pendingConfigs s"
  "inConfigChange (addConfigLogUnlocked sha l c s) = inConfigChange s"
  by (simp_all add: addConfigLogUnlocked_def Let_def)

lemma addConfigLogUnlocked_frame [simp]:
  "currentTerm (addConfigLogUnlocked sha l c s) = currentTerm s"
  "votedFor (addConfigLogUnlocked sha l c s) = votedFor s"
  "role (addConfigLogUnlocked sha l c s) = role s"
  "electionVotes (addConfigLogUnlocked sha l c s) = electionVotes s"
  "commitIndex (addConfigLogUnlocked sha l c s) = commitIndex s"
  "lastApplied (addConfigLogUnlocked sha l c s) = lastApplied s"
  "lastSnapshot (addConfigLogUnlocked sha l c s) = lastSnapshot s"
  "currentLeader (addConfigLogUnlocked sha l c s) = currentLeader s"
  by (simp_all add: addConfigLogUnlocked_def Let_def)

lemma handleNext_inv:
  assumes inv: "node_inv s" and max: "last_index s < max_int64"
    and h: "handleNextConfigurationChange sha s = Inr (r, s')"
  shows "node_inv s'"
proof -
  have "queue_wf s" using inv by (simp add: node_inv_def)
  then show ?thesis
  proof (cases rule: handleNext_cases [where sha = sha])
    case idle
    with h inv show ?thesis by simp
  next
    case (start entry rest)
    let ?t = "s\<lparr>inConfigChange := True, configQueue := rest, pendingConfigs := pendingConfigs s - 1\<rparr>"
    have "node_inv ?t" using inv start(2) by (simp add: inv_defs)
    moreover have "last_index ?t = last_index s" by (simp add: last_index_def base_index_def)
    ultimately show ?thesis using start(3) h max addConfigLogUnlocked_inv [of ?t] by auto
  qed
qed

lemma enqueueConfig_inv:
  assumes "node_inv s" "int (length (configQueue s)) < max_int64"
  shows "node_inv (enqueueConfig entry s)"
  using assms by (simp add: enqueueConfig_def inv_defs wrap64_succ)

lemma enqueueConfig_last_index [simp]: "last_index (enqueueConfig e s) = last_index s"
  by (simp add: enqueueConfig_def last_index_def base_index_def)

lemma membership_inv [simp]:
  "node_inv (unlockNextConfiguration s) = node_inv s"
  "node_inv s \<Longrightarrow> node_inv (addNewServer i s)"
  "node_inv s \<Longrightarrow> node_inv (removeServer i s)"
  "node_inv s \<Longrightarrow> node_inv (addUnvotingServer e s)"
  "node_inv s \<Longrightarrow> node_inv (snd (removeUnvotingServer i s))"
  by (simp_all add: unlockNextConfiguration_def addNewServer_def removeServer_def
        addUnvotingServer_def removeUnvotingServer_def gm.invar_put gm.invar_del node_inv_m_ok
        split: option.splits)

end
