(* ===== verification/Raft_Log.thy ===== *)
theory Raft_Log
  imports Raft_Config
begin

text \<open>
  Log replication (the \<open>nodeState\<close> methods of src/raft/log.go): appending commands and
  no-ops on the leader, building AppendEntries for a follower, the follower's handler
  with its merge loop, the leader's handling of the reply, the commit rule and the step
  that selects the next entry to apply.

  The merge loop is compared with a specification on lists (\<open>merge_spec\<close>): keep what
  agrees, cut at the first conflict, append the rest.
\<close>

section \<open>Appending on the leader\<close>

definition commandLogEntry :: "node_state \<Rightarrow> string \<Rightarrow> int \<Rightarrow> bytes \<Rightarrow> raft_log" where
  "commandLogEntry s clientID seqNum data = zero_raft_log\<lparr>
     rl_Index := wrap64 (fst (getLastLogIdxTerm s) + 1), rl_Term := currentTerm s,
     rl_Type := LogCommand, rl_Data := data, rl_ClientID := clientID, rl_SeqNum := seqNum\<rparr>"

definition addCommandLog ::
  "(bytes \<Rightarrow> bytes) \<Rightarrow> bytes \<Rightarrow> server_id \<Rightarrow> string \<Rightarrow> int \<Rightarrow> bytes \<Rightarrow> node_state \<Rightarrow> int \<times> node_state" where
  "addCommandLog sha gameState sid clientID seqNum data s =
     (let entry = commandLogEntry s clientID seqNum data;
          (ok, s1) = (if nextLogIdx s \<ge> logArrayCapacity then
                        (let (taken, s') = takeSnapshot gameState s
                         in (taken \<and> \<not> nextLogIdx s' \<ge> logArrayCapacity, s'))
                      else (True, s))
      in if \<not> ok then (- 1, s1)
         else (rl_Index entry, trackLeader sid (rl_Index entry) (storeEntry sha entry s1)))"

definition noopLogEntry :: "node_state \<Rightarrow> raft_log" where
  "noopLogEntry s = zero_raft_log\<lparr>
     rl_Index := wrap64 (fst (getLastLogIdxTerm s) + 1), rl_Term := currentTerm s,
     rl_Type := LogNoop\<rparr>"

definition addNoopLogLocked :: "(bytes \<Rightarrow> bytes) \<Rightarrow> server_id \<Rightarrow> node_state \<Rightarrow> node_state" where
  "addNoopLogLocked sha sid s =
     (let entry = noopLogEntry s
      in if nextLogIdx s \<ge> logArrayCapacity then s
         else trackLeader sid (rl_Index entry) (storeEntry sha entry s))"

section \<open>Building AppendEntries\<close>

definition prevLogOf :: "node_state \<Rightarrow> int \<Rightarrow> int \<times> int" where
  "prevLogOf s arrLogIdx =
     (if arrLogIdx < 0 then getLastLogIdxTerm s
      else if arrLogIdx = 0 \<and> lastSnapshot s \<noteq> None then
        (let sn = the (lastSnapshot s) in (snap_LastIncludedIndex sn, snap_LastIncludedTerm sn))
      else if arrLogIdx > 0 then
        (let prev = logs s (nat (arrLogIdx - 1)) in (rl_Index prev, rl_Term prev))
      else (- 1, - 1))"

definition getAppendEntriesArgs ::
  "server_id \<Rightarrow> node_state \<Rightarrow> append_entries_args option \<times> node_state" where
  "getAppendEntriesArgs sid s =
     (let (myLastIdx, myLastTerm) = getLastLogIdxTerm s;
          serverNextIdx = mget 0 (nextIndex s) sid;
          (found, arrLogIdx) = findArrayIdxByLogIndex s serverNextIdx
      in if \<not> found \<and> serverNextIdx \<le> myLastIdx then (None, s)
         else
           let logsToSend = (if arrLogIdx \<ge> 0 \<and> arrLogIdx < int (nextLogIdx s)
                             then map (logs s) [nat arrLogIdx..<nextLogIdx s] else []);
               (prevLogIdx, prevLogTerm) = prevLogOf s arrLogIdx;
               s1 = (if length logsToSend > 0
                     then s\<lparr>lastSentLogIndex :=
                              mput sid (rl_Index (last logsToSend)) (lastSentLogIndex s)\<rparr>
                     else s\<lparr>lastSentLogIndex :=
                              mput sid (wrap64 (serverNextIdx - 1)) (lastSentLogIndex s)\<rparr>)
           in (Some \<lparr>ae_Term = currentTerm s, ae_LeaderID = currentLeader s,
                     ae_PrevLogIndex = prevLogIdx, ae_PrevLogTerm = prevLogTerm,
                     ae_Entries = logsToSend, ae_LeaderCommit = commitIndex s\<rparr>, s1))"

section \<open>Handling AppendEntries on a follower\<close>

text \<open>One iteration of the merge loop, for the entry that belongs at position \<open>pos\<close>.\<close>

definition putEntry :: "(bytes \<Rightarrow> bytes) \<Rightarrow> nat \<Rightarrow> raft_log \<Rightarrow> node_state \<Rightarrow> node_state" where
  "putEntry sha pos entry s =
     (let s1 = s\<lparr>logs := (logs s)(pos := entry), nextLogIdx := pos + 1\<rparr>;
          s2 = s1\<lparr>logHashes := (logHashes s1)(pos := getLogHash sha s1 entry)\<rparr>
      in if rl_Type entry = LogConfiguration
         then applyConfigurationLocked (int pos) (rl_Config entry) s2 else s2)"

definition mergeEntry :: "(bytes \<Rightarrow> bytes) \<Rightarrow> nat \<Rightarrow> raft_log \<Rightarrow> node_state \<Rightarrow> node_state" where
  "mergeEntry sha pos entry s =
     (if pos \<ge> nextLogIdx s then putEntry sha pos entry s
      else if rl_Index (logs s pos) \<noteq> rl_Index entry \<or> rl_Term (logs s pos) \<noteq> rl_Term entry then
        (let s1 = (if rl_Index (logs s pos) \<le> lastConfigLogIndex s
                   then s\<lparr>serverConfig := copyConfig (oldServerConfig s)\<rparr> else s)
         in putEntry sha pos entry s1)
      else s)"

fun mergeEntries :: "(bytes \<Rightarrow> bytes) \<Rightarrow> nat \<Rightarrow> raft_log list \<Rightarrow> node_state \<Rightarrow> node_state" where
  "mergeEntries sha pos [] s = s"
| "mergeEntries sha pos (e # es) s = mergeEntries sha (Suc pos) es (mergeEntry sha pos e s)"

text \<open>The consistency check: \<open>None\<close> rejects, \<open>Some i\<close> gives \<open>prevLogArrIdx\<close>.\<close>

definition checkPrevLog :: "append_entries_args \<Rightarrow> node_state \<Rightarrow> int option" where
  "checkPrevLog aea s =
     (if ae_PrevLogIndex aea \<ge> 0 then
        (let (found, arrIdx) = findArrayIdxByLogIndex s (ae_PrevLogIndex aea)
         in if \<not> found then
              (case lastSnapshot s of
                 None \<Rightarrow> None
               | Some sn \<Rightarrow> if snap_LastIncludedIndex sn < ae_PrevLogIndex aea then None
                            else Some (- 1))
            else if rl_Term (logs s (nat arrIdx)) \<noteq> ae_PrevLogTerm aea then None
            else Some arrIdx)
      else Some (- 1))"

definition advanceCommit :: "append_entries_args \<Rightarrow> node_state \<Rightarrow> node_state" where
  "advanceCommit aea s =
     (if ae_LeaderCommit aea > commitIndex s then
        (if length (ae_Entries aea) > 0 then
           s\<lparr>commitIndex := int_of_float64 (min (float64_of_int (ae_LeaderCommit aea))
                                (float64_of_int (rl_Index (last (ae_Entries aea)))))\<rparr>
         else s\<lparr>commitIndex := ae_LeaderCommit aea\<rparr>)
      else s)"

definition stepDownTo :: "append_entries_args \<Rightarrow> node_state \<Rightarrow> node_state" where
  "stepDownTo aea s =
     (let s1 = (if ae_Term aea > currentTerm s then updateCurrentTerm (ae_Term aea) s else s)
      in if role s1 = Candidate \<or> role s1 = Leader
         then (stopElectionTimeout s1)\<lparr>role := Follower\<rparr> else s1)"

definition handleAppendEntries ::
  "(bytes \<Rightarrow> bytes) \<Rightarrow> bytes \<Rightarrow> server_id \<Rightarrow> append_entries_args \<Rightarrow> node_state
     \<Rightarrow> append_entries_response \<times> node_state" where
  "handleAppendEntries sha gameState myID aea s =
     (let lastIdx = fst (getLastLogIdxTerm s);
          reply = (\<lambda>ok st. \<lparr>aer_ID = myID, aer_Term = currentTerm st, aer_Success = ok,
                            aer_LastIndex = lastIdx\<rparr>)
      in if ae_Term aea < currentTerm s then (reply False s, s)
         else
           let s2 = stepDownTo aea s
           in case checkPrevLog aea s2 of
                None \<Rightarrow> (reply False s2, s2)
              | Some prevLogArrIdx \<Rightarrow>
                  let s3 = s2\<lparr>currentLeader := ae_LeaderID aea\<rparr>;
                      startNext = nat (prevLogArrIdx + 1);
                      (ok, s4) =
                        (if startNext + length (ae_Entries aea) \<ge> logArrayCapacity then
                           (let (taken, s') = takeSnapshot gameState s3
                            in (taken \<and> \<not> startNext + length (ae_Entries aea) \<ge> logArrayCapacity, s'))
                         else (True, s3))
                  in if \<not> ok then (reply False s4, s4)
                     else
                       let s5 = mergeEntries sha startNext (ae_Entries aea) s4;
                           s6 = advanceCommit aea s5
                       in (reply True s6, s6))"

section \<open>Handling the reply on the leader\<close>

definition handleAppendEntriesResponse ::
  "server_id \<Rightarrow> append_entries_response \<Rightarrow> node_state \<Rightarrow> (int \<times> bool) \<times> node_state" where
  "handleAppendEntriesResponse myID aer s =
     (if \<not> aer_Success aer then
        (if aer_Term aer > currentTerm s then
           ((- 1, False), (updateCurrentTerm (aer_Term aer) (s\<lparr>role := Follower\<rparr>))
                            \<lparr>currentLeader := aer_ID aer\<rparr>)
         else
           let s1 = (if aer_LastIndex aer \<ge> 0
                     then s\<lparr>nextIndex := mput (aer_ID aer) (aer_LastIndex aer) (nextIndex s)\<rparr>
                     else s\<lparr>nextIndex := mput (aer_ID aer) 0 (nextIndex s)\<rparr>);
               needSnapshot = (case lastSnapshot s1 of
                                 None \<Rightarrow> False
                               | Some sn \<Rightarrow> mget 0 (nextIndex s1) (aer_ID aer)
                                              \<le> snap_LastIncludedIndex sn)
           in ((- 1, needSnapshot), s1))
      else
        let sent = mget 0 (lastSentLogIndex s) (aer_ID aer);
            s1 = s\<lparr>nextIndex := mput (aer_ID aer) (wrap64 (sent + 1)) (nextIndex s),
                   matchIndex := mput (aer_ID aer) sent (matchIndex s)\<rparr>
        in ((mget 0 (matchIndex s1) (aer_ID aer), False), s1))"

section \<open>Committing and applying\<close>

definition replicatedCount :: "node_state \<Rightarrow> int \<Rightarrow> nat" where
  "replicatedCount s idx =
     length (filter (\<lambda>sid. mget 0 (matchIndex s) sid \<ge> idx) (mkeys (matchIndex s)))"

fun checkCommits_loop :: "nat \<Rightarrow> node_state \<Rightarrow> node_state" where
  "checkCommits_loop 0 s = s"
| "checkCommits_loop (Suc i) s =
     (if rl_Index (logs s i) \<le> commitIndex s then s
      else if replicatedCount s (rl_Index (logs s i)) > mlen (serverConfig s) div 2
              \<and> rl_Term (logs s i) = currentTerm s
           then s\<lparr>commitIndex := rl_Index (logs s i)\<rparr>
      else checkCommits_loop i s)"

definition checkCommits :: "node_state \<Rightarrow> node_state" where
  "checkCommits s = checkCommits_loop (nextLogIdx s) s"

definition updateLastApplied :: "node_state \<Rightarrow> int \<times> node_state" where
  "updateLastApplied s =
     (if commitIndex s \<le> lastApplied s then (- 1, s)
      else let (_, arrIdx) = findArrayIdxByLogIndex s (wrap64 (lastApplied s + 1))
           in (arrIdx, if arrIdx \<ge> 0 then s\<lparr>lastApplied := wrap64 (lastApplied s + 1)\<rparr> else s))"

definition getLog :: "nat \<Rightarrow> node_state \<Rightarrow> raft_log" where
  "getLog i s = logs s i"

section \<open>Appending: facts\<close>

lemma command_noop_fields [simp]:
  "rl_Term (commandLogEntry s c q d) = currentTerm s" "rl_Data (commandLogEntry s c q d) = d"
  "rl_Type (commandLogEntry s c q d) = LogCommand" "rl_ClientID (commandLogEntry s c q d) = c"
  "rl_SeqNum (commandLogEntry s c q d) = q"
  "rl_Term (noopLogEntry s) = currentTerm s" "rl_Type (noopLogEntry s) = LogNoop"
  by (simp_all add: commandLogEntry_def noopLogEntry_def)

lemma command_noop_index:
  assumes "log_wf s" "last_index s < max_int64"
  shows "rl_Index (commandLogEntry s c q d) = last_index s + 1"
    and "rl_Index (noopLogEntry s) = last_index s + 1"
  using next_entry_index [OF assms] by (simp_all add: commandLogEntry_def noopLogEntry_def)

lemma addNoopLogLocked_inv:
  assumes "node_inv s" "last_index s < max_int64"
  shows "node_inv (addNoopLogLocked sha i s)"
  using assms
  by (auto simp: addNoopLogLocked_def Let_def command_noop_index node_inv_def [of s]
           intro!: trackLeader_inv storeEntry_inv)

text \<open>The two outcomes of \<open>addCommandLog\<close>, with the state each one leaves.\<close>

lemma addCommandLog_cases:
  assumes inv: "node_inv s" and max: "last_index s < max_int64"
  obtains (full) s1 b where "takeSnapshot g s = (b, s1)" "nextLogIdx s \<ge> logArrayCapacity"
      "\<not> b \<or> nextLogIdx s1 \<ge> logArrayCapacity"
      "addCommandLog sha g i c q d s = (- 1, s1)"
  | (stored) s1 where
      "s1 = s \<and> nextLogIdx s < logArrayCapacity \<or> takeSnapshot g s = (True, s1)"
      "nextLogIdx s1 < logArrayCapacity" "node_inv s1" "last_index s1 = last_index s"
      "node_inv (storeEntry sha (commandLogEntry s c q d) s1)"
      "addCommandLog sha g i c q d s = (last_index s + 1,
         trackLeader i (last_index s + 1) (storeEntry sha (commandLogEntry s c q d) s1))"
proof -
  let ?e = "commandLogEntry s c q d"
  have e: "rl_Index ?e = last_index s + 1" "rl_Term ?e = currentTerm s"
    using inv max by (simp_all add: command_noop_index node_inv_def)
  obtain b s1 where t: "takeSnapshot g s = (b, s1)" by fastforce
  show thesis
  proof (cases "nextLogIdx s \<ge> logArrayCapacity")
    case isfull: True
    show thesis
    proof (cases "b \<and> nextLogIdx s1 < logArrayCapacity")
      case True
      then have "takeSnapshot g s = (True, s1)" using t by simp
      then show thesis
        using stored [of s1] True isfull inv max e t takeSnapshot_inv [OF inv t]
          storeEntry_after_snapshot_inv [OF inv max e] takeSnapshot_effect(3) [of s g s1]
        by (simp add: addCommandLog_def Let_def node_inv_def [of s])
    next
      case False
      then show thesis using full [OF t isfull] t isfull
        by (auto simp: addCommandLog_def Let_def)
    qed
  next
    case False
    then show thesis using stored [of s] inv e storeEntry_inv [OF inv _ e]
      by (simp add: addCommandLog_def Let_def)
  qed
qed

lemma addCommandLog_inv:
  assumes "node_inv s" "last_index s < max_int64"
  shows "node_inv (snd (addCommandLog sha g i c q d s))"
  using assms
proof (cases rule: addCommandLog_cases [where sha = sha and g = g and i = i and c = c and q = q and d = d])
  case (full s1 b)
  then show ?thesis using takeSnapshot_inv [OF assms(1)] by simp
next
  case (stored s1)
  then show ?thesis by simp
qed

section \<open>The merge loop against its specification\<close>

text \<open>Entries are compared by index and term, as the source does.\<close>

definition same_entry :: "raft_log \<Rightarrow> raft_log \<Rightarrow> bool" where
  "same_entry a b \<longleftrightarrow> rl_Index a = rl_Index b \<and> rl_Term a = rl_Term b"

fun merge_spec :: "nat \<Rightarrow> raft_log list \<Rightarrow> raft_log list \<Rightarrow> raft_log list" where
  "merge_spec pos [] L = L"
| "merge_spec pos (e # es) L =
     (if pos < length L \<and> same_entry (L ! pos) e then merge_spec (Suc pos) es L
      else take pos L @ e # es)"

lemma merge_spec_at_end: "merge_spec (length L) es L = L @ es"
  by (cases es) auto

lemma putEntry_frame [simp]:
  "nextLogIdx (putEntry sha pos e s) = Suc pos"
  "logs (putEntry sha pos e s) = (logs s)(pos := e)"
  "lastSnapshot (putEntry sha pos e s) = lastSnapshot s"
  "currentTerm (putEntry sha pos e s) = currentTerm s" "votedFor (putEntry sha pos e s) = votedFor s"
  "role (putEntry sha pos e s) = role s" "electionVotes (putEntry sha pos e s) = electionVotes s"
  "commitIndex (putEntry sha pos e s) = commitIndex s" "lastApplied (putEntry sha pos e s) = lastApplied s"
  "currentLeader (putEntry sha pos e s) = currentLeader s"
  "configQueue (putEntry sha pos e s) = configQueue s"
  "pendingConfigs (putEntry sha pos e s) = pendingConfigs s"
  by (simp_all add: putEntry_def Let_def)

lemma live_log_putEntry:
  "pos \<le> nextLogIdx s \<Longrightarrow> live_log (putEntry sha pos e s) = take pos (live_log s) @ [e]"
  by (simp add: live_log_def take_map)

lemma live_log_mergeEntry:
  assumes "pos \<le> nextLogIdx s"
  shows "live_log (mergeEntry sha pos e s) =
    (if pos < nextLogIdx s \<and> same_entry (live_log s ! pos) e then live_log s
     else take pos (live_log s) @ [e])"
proof -
  have "live_log (s\<lparr>serverConfig := c\<rparr>) = live_log s" for c by (simp add: live_log_def)
  then show ?thesis
    using assms by (auto simp: mergeEntry_def same_entry_def Let_def live_log_putEntry)
qed

lemma live_log_mergeEntries:
  assumes "pos \<le> nextLogIdx s"
  shows "live_log (mergeEntries sha pos es s) = merge_spec pos es (live_log s)"
  using assms
proof (induction es arbitrary: pos s)
  case (Cons e es)
  let ?s1 = "mergeEntry sha pos e s"
  note m = live_log_mergeEntry [OF Cons.prems, of sha e]
  show ?case
  proof (cases "pos < nextLogIdx s \<and> same_entry (live_log s ! pos) e")
    case True
    then have "live_log ?s1 = live_log s" using m by auto
    moreover from this have "nextLogIdx ?s1 = nextLogIdx s" by (metis length_live_log)
    ultimately show ?thesis using Cons.IH [of "Suc pos" ?s1] True by auto
  next
    case False
    then have l: "live_log ?s1 = take pos (live_log s) @ [e]" using m by auto
    have "length (live_log ?s1) = Suc pos" unfolding l using Cons.prems by simp
    then have "nextLogIdx ?s1 = Suc pos" by (simp only: length_live_log)
    then have "live_log (mergeEntries sha (Suc pos) es ?s1) = live_log ?s1 @ es"
      using Cons.IH [of "Suc pos" ?s1] merge_spec_at_end [of "live_log ?s1" es] by simp
    then show ?thesis using False l by auto
  qed
qed simp

text \<open>What the specification promises, independently of arrays.\<close>

lemma length_merge_spec:
  "pos \<le> length L \<Longrightarrow> length (merge_spec pos es L) \<le> max (length L) (pos + length es)"
proof (induction es arbitrary: pos)
  case (Cons e es)
  then show ?case using Cons.IH [of "Suc pos"] by auto
qed simp

lemma merge_spec_prefix:
  "pos \<le> length L \<Longrightarrow> take pos (merge_spec pos es L) = take pos L"
proof (induction es arbitrary: pos)
  case (Cons e es)
  show ?case
  proof (cases "pos < length L \<and> same_entry (L ! pos) e")
    case True
    with Cons.IH [of "Suc pos"] have "take (Suc pos) (merge_spec (Suc pos) es L) = take (Suc pos) L"
      by simp
    then have "take pos (merge_spec (Suc pos) es L) = take pos L"
      by (metis min_def lessI less_imp_le take_take)
    with True show ?thesis by simp
  next
    case False
    with Cons.prems show ?thesis by auto
  qed
qed simp

lemma merge_spec_contains:
  "pos \<le> length L \<Longrightarrow> i < length es \<Longrightarrow>
     pos + i < length (merge_spec pos es L) \<and> same_entry (merge_spec pos es L ! (pos + i)) (es ! i)"
proof (induction es arbitrary: pos i)
  case (Cons e es)
  show ?case
  proof (cases "pos < length L \<and> same_entry (L ! pos) e")
    case True
    show ?thesis
    proof (cases i)
      case 0
      have "take (Suc pos) (merge_spec (Suc pos) es L) = take (Suc pos) L"
        using True by (intro merge_spec_prefix) simp
      then have "pos < length (merge_spec (Suc pos) es L) \<and> merge_spec (Suc pos) es L ! pos = L ! pos"
        using True by (intro take_Suc_eqD) simp_all
      then show ?thesis using 0 True by simp
    next
      case (Suc j)
      then show ?thesis using Cons.IH [of "Suc pos" j] Cons.prems True by simp
    qed
  next
    case False
    then show ?thesis using Cons.prems by (auto simp: nth_append same_entry_def min_def)
  qed
qed simp

lemma merge_spec_agree:
  assumes "pos + length es \<le> length L" "\<And>i. i < length es \<Longrightarrow> same_entry (L ! (pos + i)) (es ! i)"
  shows "merge_spec pos es L = L"
  using assms
proof (induction es arbitrary: pos)
  case (Cons e es)
  from Cons.prems(2) [of 0] have "same_entry (L ! pos) e" by simp
  moreover have "same_entry (L ! (Suc pos + i)) (es ! i)" if "i < length es" for i
    using Cons.prems(2) [of "Suc i"] that by simp
  ultimately show ?case using Cons.IH [of "Suc pos"] Cons.prems(1) by simp
qed simp

text \<open>Merging the same entries again changes nothing.\<close>

lemma merge_spec_idem:
  assumes "pos \<le> length L"
  shows "merge_spec pos es (merge_spec pos es L) = merge_spec pos es L"
proof (cases "es = []")
  case False
  then have "length es - 1 < length es" by simp
  with merge_spec_contains [OF assms this] False
  have "pos + length es \<le> length (merge_spec pos es L)" by linarith
  then show ?thesis using merge_spec_contains [OF assms] by (intro merge_spec_agree) auto
qed simp

text \<open>Entries with consecutive indices, the list form of \<open>log_wf\<close>.\<close>

definition consec :: "int \<Rightarrow> raft_log list \<Rightarrow> bool" where
  "consec b L \<longleftrightarrow> (\<forall>i < length L. rl_Index (L ! i) = b + 1 + int i)"

lemma log_wf_consec:
  "log_wf s \<longleftrightarrow> nextLogIdx s \<le> logArrayCapacity \<and> - 1 \<le> base_index s \<and> consec (base_index s) (live_log s)"
  by (simp add: log_wf_def consec_def)

lemma consec_append:
  "consec b (xs @ ys) \<longleftrightarrow> consec b xs \<and> consec (b + int (length xs)) ys"
proof -
  have "consec b (xs @ ys) \<longleftrightarrow> (\<forall>i < length xs. rl_Index (xs ! i) = b + 1 + int i) \<and>
      (\<forall>i. length xs \<le> i \<and> i < length xs + length ys \<longrightarrow> rl_Index (ys ! (i - length xs)) = b + 1 + int i)"
    by (auto simp: consec_def nth_append not_less)
  also have "(\<forall>i. length xs \<le> i \<and> i < length xs + length ys \<longrightarrow> rl_Index (ys ! (i - length xs)) = b + 1 + int i)
      \<longleftrightarrow> consec (b + int (length xs)) ys"
    unfolding consec_def
    by (rule iffI; clarsimp; metis (no_types, opaque_lifting) add.commute add_diff_cancel_left' le_add1
          le_add_diff_inverse nat_add_left_cancel_less of_nat_add add.assoc)
  finally show ?thesis by (simp add: consec_def)
qed

lemma consec_take: "consec b L \<Longrightarrow> consec b (take n L)"
  by (simp add: consec_def)

lemma consec_Cons: "consec b (e # es) \<longleftrightarrow> rl_Index e = b + 1 \<and> consec (b + 1) es"
  using consec_append [of b "[e]" es] by (simp add: consec_def)

lemma merge_spec_consec:
  "consec b L \<Longrightarrow> pos \<le> length L \<Longrightarrow> consec (b + int pos) es \<Longrightarrow> consec b (merge_spec pos es L)"
proof (induction es arbitrary: pos)
  case (Cons e es)
  have "consec (b + int (Suc pos)) es" using Cons.prems(3) by (simp add: consec_Cons algebra_simps)
  then show ?case using Cons.IH [of "Suc pos"] Cons.prems by (simp add: consec_append consec_take)
qed simp

lemma merge_spec_terms:
  "sorted (bt # map rl_Term L @ [ct]) \<Longrightarrow> pos \<le> length L \<Longrightarrow>
   sorted ((bt # map rl_Term L) ! pos # map rl_Term es @ [ct]) \<Longrightarrow>
   sorted (bt # map rl_Term (merge_spec pos es L) @ [ct])"
proof (induction es arbitrary: pos)
  case (Cons e es)
  show ?case
  proof (cases "pos < length L \<and> same_entry (L ! pos) e")
    case True
    with Cons.IH [of "Suc pos"] Cons.prems show ?thesis by (simp add: same_entry_def)
  next
    case False
    let ?p = "bt # map rl_Term L"
    have s: "sorted ?p" using Cons.prems(1) by (simp add: sorted_append)
    have "x \<le> ?p ! pos" if "x \<in> set (take (Suc pos) ?p)" for x
      using that s Cons.prems(2) by (intro sorted_take_le) auto
    then have "sorted (take (Suc pos) ?p @ map rl_Term (e # es) @ [ct])"
      using sorted_appendI2 [OF sorted_wrt_take [OF s] _ Cons.prems(3)] by blast
    then show ?thesis using False by (auto simp: take_map)
  qed
qed simp

end
