(* ===== verification/Raft_Replication.thy ===== *)
theory Raft_Replication
  imports Raft_Log
begin

text \<open>
  What the operations of Raft_Log guarantee: the AppendEntries handler keeps the node
  invariant and leaves the merge of the two logs, the messages a leader builds are
  well-formed, a replication round makes the logs agree, and the commit rule and the
  application step do what they say.
\<close>

section \<open>The AppendEntries handler\<close>

lemma mergeEntry_frame [simp]:
  "lastSnapshot (mergeEntry sha pos e s) = lastSnapshot s"
  "currentTerm (mergeEntry sha pos e s) = currentTerm s"
  "votedFor (mergeEntry sha pos e s) = votedFor s"
  "role (mergeEntry sha pos e s) = role s"
  "electionVotes (mergeEntry sha pos e s) = electionVotes s"
  "commitIndex (mergeEntry sha pos e s) = commitIndex s"
  "lastApplied (mergeEntry sha pos e s) = lastApplied s"
  "currentLeader (mergeEntry sha pos e s) = currentLeader s"
  "configQueue (mergeEntry sha pos e s) = configQueue s"
  "pendingConfigs (mergeEntry sha pos e s) = pendingConfigs s"
  by (simp_all add: mergeEntry_def Let_def)

lemma mergeEntries_frame [simp]:
  "lastSnapshot (mergeEntries sha pos es s) = lastSnapshot s"
  "currentTerm (mergeEntries sha pos es s) = currentTerm s"
  "votedFor (mergeEntries sha pos es s) = votedFor s"
  "role (mergeEntries sha pos es s) = role s"
  "electionVotes (mergeEntries sha pos es s) = electionVotes s"
  "commitIndex (mergeEntries sha pos es s) = commitIndex s"
  "lastApplied (mergeEntries sha pos es s) = lastApplied s"
  "currentLeader (mergeEntries sha pos es s) = currentLeader s"
  "configQueue (mergeEntries sha pos es s) = configQueue s"
  "pendingConfigs (mergeEntries sha pos es s) = pendingConfigs s"
  by (induction es arbitrary: pos s) simp_all

lemma maps_wf_putEntry: "maps_wf s \<Longrightarrow> maps_wf (putEntry sha pos e s)"
  by (simp add: putEntry_def Let_def maps_wf_def applyConfigurationLocked_def gm.invar_put gm.invar_del)

lemma maps_wf_mergeEntries: "maps_wf s \<Longrightarrow> maps_wf (mergeEntries sha pos es s)"
proof (induction es arbitrary: pos s)
  case (Cons e es)
  have "maps_wf (s\<lparr>serverConfig := copyConfig (oldServerConfig s)\<rparr>)"
    using Cons.prems by (simp add: maps_wf_def)
  then have "maps_wf (mergeEntry sha pos e s)"
    using Cons.prems by (simp add: mergeEntry_def Let_def maps_wf_putEntry)
  with Cons.IH show ?case by simp
qed simp

lemma base_mergeEntries [simp]:
  "base_index (mergeEntries sha pos es s) = base_index s"
  "base_term (mergeEntries sha pos es s) = base_term s"
  by (simp_all add: base_defs)

lemma mergeEntries_inv:
  assumes inv: "node_inv s" and pos: "pos \<le> nextLogIdx s" and cap: "pos + length es \<le> logArrayCapacity"
    and consec: "consec (base_index s + int pos) es"
    and terms: "sorted ((base_term s # map rl_Term (live_log s)) ! pos # map rl_Term es @ [currentTerm s])"
  shows "node_inv (mergeEntries sha pos es s)"
proof -
  let ?t = "mergeEntries sha pos es s"
  note live = live_log_mergeEntries [OF pos, of sha es]
  have "nextLogIdx ?t = length (merge_spec pos es (live_log s))" unfolding live [symmetric] by simp
  also have "\<dots> \<le> max (nextLogIdx s) (pos + length es)"
    using length_merge_spec [of pos "live_log s" es] pos by simp
  finally have "nextLogIdx ?t \<le> logArrayCapacity"
    using inv cap unfolding node_inv_def log_wf_def by linarith
  moreover have "consec (base_index s) (live_log ?t)"
    unfolding live using inv pos consec by (simp add: node_inv_def log_wf_consec merge_spec_consec)
  moreover have "terms_wf ?t"
    unfolding terms_wf_def live using merge_spec_terms [of "base_term s" "live_log s" "currentTerm s" pos es]
      inv pos terms by (simp add: node_inv_def terms_wf_def)
  ultimately show ?thesis
    using inv by (simp add: node_inv_def log_wf_consec apply_wf_def queue_wf_def maps_wf_mergeEntries)
qed

text \<open>
  A message from a leader: consecutive entries right after \<open>PrevLogIndex\<close>, terms that do
  not go down or exceed the leader's, and a commit index the leader itself has reached;
  indices below \<open>2^53\<close>, where the float64 minimum is exact.
\<close>

definition aea_wf :: "append_entries_args \<Rightarrow> bool" where
  "aea_wf aea \<longleftrightarrow> - 1 \<le> ae_PrevLogIndex aea \<and> consec (ae_PrevLogIndex aea) (ae_Entries aea) \<and>
     sorted (ae_PrevLogTerm aea # map rl_Term (ae_Entries aea) @ [ae_Term aea]) \<and>
     - 1 \<le> ae_LeaderCommit aea \<and>
     ae_LeaderCommit aea \<le> ae_PrevLogIndex aea + int (length (ae_Entries aea)) \<and>
     ae_PrevLogIndex aea + int (length (ae_Entries aea)) < 2 ^ 53"

text \<open>The message does not reach back into the receiver's snapshot.\<close>

definition aea_fits :: "node_state \<Rightarrow> append_entries_args \<Rightarrow> bool" where
  "aea_fits s aea \<longleftrightarrow> base_index s \<le> ae_PrevLogIndex aea \<and>
     (ae_PrevLogIndex aea = base_index s \<longrightarrow> ae_PrevLogTerm aea = base_term s)"

lemma stepDownTo_frame [simp]:
  "logs (stepDownTo aea s) = logs s" "nextLogIdx (stepDownTo aea s) = nextLogIdx s"
  "live_log (stepDownTo aea s) = live_log s" "lastSnapshot (stepDownTo aea s) = lastSnapshot s"
  "base_index (stepDownTo aea s) = base_index s" "base_term (stepDownTo aea s) = base_term s"
  "last_index (stepDownTo aea s) = last_index s"
  "commitIndex (stepDownTo aea s) = commitIndex s" "lastApplied (stepDownTo aea s) = lastApplied s"
  "serverConfig (stepDownTo aea s) = serverConfig s"
  "role (stepDownTo aea s) = Follower"
  by (cases "role s"; simp add: stepDownTo_def Let_def live_log_def base_defs last_index_def)+

lemma stepDownTo_term [simp]:
  "\<not> ae_Term aea < currentTerm s \<Longrightarrow> currentTerm (stepDownTo aea s) = ae_Term aea"
  by (auto simp: stepDownTo_def Let_def)

lemma stepDownTo_inv: "node_inv s \<Longrightarrow> node_inv (stepDownTo aea s)"
  by (simp add: stepDownTo_def Let_def node_inv_updateCurrentTerm)

lemma checkPrevLog_wf:
  assumes "log_wf s" "aea_fits s aea" "- 1 \<le> ae_PrevLogIndex aea" "checkPrevLog aea s = Some i"
  shows "i = ae_PrevLogIndex aea - base_index s - 1" "- 1 \<le> i" "i < int (nextLogIdx s)"
    and "(base_term s # map rl_Term (live_log s)) ! nat (i + 1) = ae_PrevLogTerm aea"
proof -
  have b: "- 1 \<le> base_index s" using assms(1) by (simp add: log_wf_def)
  have "i = ae_PrevLogIndex aea - base_index s - 1 \<and> - 1 \<le> i \<and> i < int (nextLogIdx s) \<and>
    (base_term s # map rl_Term (live_log s)) ! nat (i + 1) = ae_PrevLogTerm aea"
  proof (cases "base_index s < ae_PrevLogIndex aea")
    case True
    then show ?thesis using assms(4) b
      by (auto simp: checkPrevLog_def findArrayIdx_wf [OF assms(1)] last_index_def base_index_def
            nth_Cons' nat_succ_pred split: option.splits if_splits)
  next
    case False
    then have e: "ae_PrevLogIndex aea = base_index s" "ae_PrevLogTerm aea = base_term s"
      using assms(2) by (auto simp: aea_fits_def)
    then show ?thesis using assms(4) b
      by (auto simp: checkPrevLog_def findArrayIdx_wf [OF assms(1)] split: option.splits if_splits)
  qed
  then show "i = ae_PrevLogIndex aea - base_index s - 1" "- 1 \<le> i" "i < int (nextLogIdx s)"
    and "(base_term s # map rl_Term (live_log s)) ! nat (i + 1) = ae_PrevLogTerm aea" by blast+
qed

text \<open>The four ways through the handler.\<close>

lemma handleAppendEntries_cases:
  obtains (stale) "ae_Term aea < currentTerm s"
      "handleAppendEntries sha g me aea s = (\<lparr>aer_ID = me, aer_Term = currentTerm s,
         aer_Success = False, aer_LastIndex = fst (getLastLogIdxTerm s)\<rparr>, s)"
  | (mismatch) "\<not> ae_Term aea < currentTerm s" "checkPrevLog aea (stepDownTo aea s) = None"
      "handleAppendEntries sha g me aea s = (\<lparr>aer_ID = me, aer_Term = ae_Term aea,
         aer_Success = False, aer_LastIndex = fst (getLastLogIdxTerm s)\<rparr>, stepDownTo aea s)"
  | (full) i b s' where "\<not> ae_Term aea < currentTerm s"
      "checkPrevLog aea (stepDownTo aea s) = Some i"
      "nat (i + 1) + length (ae_Entries aea) \<ge> logArrayCapacity"
      "takeSnapshot g ((stepDownTo aea s)\<lparr>currentLeader := ae_LeaderID aea\<rparr>) = (b, s')"
      "handleAppendEntries sha g me aea s = (\<lparr>aer_ID = me, aer_Term = ae_Term aea,
         aer_Success = False, aer_LastIndex = fst (getLastLogIdxTerm s)\<rparr>, s')"
  | (merged) i where "\<not> ae_Term aea < currentTerm s"
      "checkPrevLog aea (stepDownTo aea s) = Some i"
      "nat (i + 1) + length (ae_Entries aea) < logArrayCapacity"
      "handleAppendEntries sha g me aea s = (\<lparr>aer_ID = me, aer_Term = ae_Term aea,
         aer_Success = True, aer_LastIndex = fst (getLastLogIdxTerm s)\<rparr>,
         advanceCommit aea (mergeEntries sha (nat (i + 1)) (ae_Entries aea)
           ((stepDownTo aea s)\<lparr>currentLeader := ae_LeaderID aea\<rparr>)))"
proof (cases "ae_Term aea < currentTerm s")
  case True
  then show thesis using stale by (simp add: handleAppendEntries_def Let_def)
next
  case cur: False
  show thesis
  proof (cases "checkPrevLog aea (stepDownTo aea s)")
    case None
    then show thesis using mismatch cur by (simp add: handleAppendEntries_def Let_def)
  next
    case (Some i)
    let ?s3 = "(stepDownTo aea s)\<lparr>currentLeader := ae_LeaderID aea\<rparr>"
    obtain b s' where t: "takeSnapshot g ?s3 = (b, s')" by fastforce
    have ct: "currentTerm s' = ae_Term aea" using takeSnapshot_frame(1) [OF t] cur by simp
    have adv: "currentTerm (advanceCommit aea x) = currentTerm x" for x
      by (simp add: advanceCommit_def)
    show thesis
    proof (cases "nat (i + 1) + length (ae_Entries aea) \<ge> logArrayCapacity")
      case True
      then show thesis using full [OF cur Some True t] cur Some t ct
        by (simp add: handleAppendEntries_def Let_def)
    next
      case False
      then show thesis using merged [OF cur Some] cur Some adv
        by (simp add: handleAppendEntries_def Let_def)
    qed
  qed
qed

lemma advanceCommit_frame [simp]:
  "logs (advanceCommit aea s) = logs s" "nextLogIdx (advanceCommit aea s) = nextLogIdx s"
  "live_log (advanceCommit aea s) = live_log s"
  "lastSnapshot (advanceCommit aea s) = lastSnapshot s"
  "currentTerm (advanceCommit aea s) = currentTerm s" "votedFor (advanceCommit aea s) = votedFor s"
  "role (advanceCommit aea s) = role s" "electionVotes (advanceCommit aea s) = electionVotes s"
  "lastApplied (advanceCommit aea s) = lastApplied s"
  "currentLeader (advanceCommit aea s) = currentLeader s"
  "serverConfig (advanceCommit aea s) = serverConfig s"
  by (simp_all add: advanceCommit_def live_log_def)

lemma last_consec: "consec b es \<Longrightarrow> es \<noteq> [] \<Longrightarrow> rl_Index (last es) = b + int (length es)"
  by (cases es rule: rev_cases) (simp_all add: consec_append consec_Cons)

text \<open>For a leader's message the float64 detour computes the leader's commit index.\<close>

lemma advanceCommit_wf:
  assumes "aea_wf aea"
  shows "advanceCommit aea s = s\<lparr>commitIndex := max (commitIndex s) (ae_LeaderCommit aea)\<rparr>"
proof (cases "ae_LeaderCommit aea > commitIndex s \<and> ae_Entries aea \<noteq> []")
  case True
  then have l: "rl_Index (last (ae_Entries aea)) = ae_PrevLogIndex aea + int (length (ae_Entries aea))"
    using assms by (simp add: aea_wf_def last_consec)
  have "\<bar>ae_LeaderCommit aea\<bar> < 2 ^ 53" "\<bar>rl_Index (last (ae_Entries aea))\<bar> < 2 ^ 53"
    using assms l unfolding aea_wf_def by (simp_all add: abs_less_iff)
  then have "int_of_float64 (min (float64_of_int (ae_LeaderCommit aea))
      (float64_of_int (rl_Index (last (ae_Entries aea))))) = ae_LeaderCommit aea"
    using assms l by (subst float64_min_exact) (simp_all add: aea_wf_def)
  then show ?thesis using True by (simp add: advanceCommit_def max_def)
next
  case False
  then show ?thesis by (auto simp: advanceCommit_def max_def)
qed

lemma node_inv_commit: "node_inv s \<Longrightarrow> commitIndex s \<le> c \<Longrightarrow> node_inv (s\<lparr>commitIndex := c\<rparr>)"
  by (simp add: inv_defs)

lemma handleAppendEntries_inv:
  assumes inv: "node_inv s" and wf: "aea_wf aea" and fits: "aea_fits s aea"
  shows "node_inv (snd (handleAppendEntries sha g me aea s))"
proof (cases rule: handleAppendEntries_cases [where aea = aea and s = s and sha = sha and g = g and me = me])
  case stale
  with inv show ?thesis by simp
next
  case mismatch
  with inv show ?thesis by (simp add: stepDownTo_inv)
next
  case (full i b s')
  then show ?thesis using takeSnapshot_inv [OF _ full(4)] inv by (simp add: stepDownTo_inv)
next
  case (merged i)
  let ?s3 = "(stepDownTo aea s)\<lparr>currentLeader := ae_LeaderID aea\<rparr>"
  have i3: "node_inv ?s3" using inv by (simp add: stepDownTo_inv)
  have b3: "base_index ?s3 = base_index s" "base_term ?s3 = base_term s" "live_log ?s3 = live_log s"
    by (simp_all add: base_defs live_log_def)
  note p = checkPrevLog_wf [of "stepDownTo aea s" aea i]
  have pre: "log_wf (stepDownTo aea s)" "aea_fits (stepDownTo aea s) aea" "- 1 \<le> ae_PrevLogIndex aea"
    using inv fits wf stepDownTo_inv [of s aea] by (simp_all add: node_inv_def aea_fits_def aea_wf_def)
  have "node_inv (mergeEntries sha (nat (i + 1)) (ae_Entries aea) ?s3)"
  proof (rule mergeEntries_inv [OF i3])
    show "nat (i + 1) \<le> nextLogIdx ?s3" using p(3) [OF pre merged(2)] by simp
    show "nat (i + 1) + length (ae_Entries aea) \<le> logArrayCapacity" using merged(3) by simp
    show "consec (base_index ?s3 + int (nat (i + 1))) (ae_Entries aea)"
      using p(1,2) [OF pre merged(2)] wf b3 by (simp add: aea_wf_def)
    show "sorted ((base_term ?s3 # map rl_Term (live_log ?s3)) ! nat (i + 1) #
        map rl_Term (ae_Entries aea) @ [currentTerm ?s3])"
      using p(4) [OF pre merged(2)] wf merged(1) b3 by (simp add: aea_wf_def)
  qed
  then show ?thesis using merged(4) by (simp add: advanceCommit_wf [OF wf] node_inv_commit)
qed

text \<open>
  After an accepted message the follower's log is the merge of its old log with the
  entries, at the position that follows \<open>PrevLogIndex\<close>.
\<close>

lemma handleAppendEntries_accepted:
  assumes inv: "node_inv s" and wf: "aea_wf aea" and fits: "aea_fits s aea"
    and h: "handleAppendEntries sha g me aea s = (r, s')" and ok: "aer_Success r"
  shows "live_log s' = merge_spec (nat (ae_PrevLogIndex aea - base_index s)) (ae_Entries aea) (live_log s)"
    and "nat (ae_PrevLogIndex aea - base_index s) \<le> nextLogIdx s"
    and "base_index s' = base_index s" "role s' = Follower" "currentTerm s' = ae_Term aea"
    and "commitIndex s' = max (commitIndex s) (ae_LeaderCommit aea)"
    and "currentLeader s' = ae_LeaderID aea"
    and "(base_term s # map rl_Term (live_log s)) ! nat (ae_PrevLogIndex aea - base_index s) = ae_PrevLogTerm aea"
proof -
  let ?s3 = "(stepDownTo aea s)\<lparr>currentLeader := ae_LeaderID aea\<rparr>"
  let ?pos = "nat (ae_PrevLogIndex aea - base_index s)"
  obtain i where i: "\<not> ae_Term aea < currentTerm s" "checkPrevLog aea (stepDownTo aea s) = Some i"
    and s': "s' = advanceCommit aea (mergeEntries sha (nat (i + 1)) (ae_Entries aea) ?s3)"
    using h ok
    by (cases rule: handleAppendEntries_cases [where aea = aea and s = s and sha = sha and g = g and me = me])
      auto
  have pre: "log_wf (stepDownTo aea s)" "aea_fits (stepDownTo aea s) aea" "- 1 \<le> ae_PrevLogIndex aea"
    using inv fits wf stepDownTo_inv [of s aea] by (simp_all add: node_inv_def aea_fits_def aea_wf_def)
  note p = checkPrevLog_wf [OF pre i(2)]
  have pos: "nat (i + 1) = ?pos" "?pos \<le> nextLogIdx s" using p(1-3) by auto
  have l3: "live_log ?s3 = live_log s" by (simp add: live_log_def)
  show "live_log s' = merge_spec ?pos (ae_Entries aea) (live_log s)"
    using live_log_mergeEntries [of ?pos ?s3 sha "ae_Entries aea"] pos l3 by (simp add: s')
  show "?pos \<le> nextLogIdx s" by (rule pos)
  show "base_index s' = base_index s" "role s' = Follower" "currentTerm s' = ae_Term aea"
    "currentLeader s' = ae_LeaderID aea"
    using i(1) by (simp_all add: s' base_index_def)
  show "commitIndex s' = max (commitIndex s) (ae_LeaderCommit aea)"
    by (simp add: s' advanceCommit_wf [OF wf])
  show "(base_term s # map rl_Term (live_log s)) ! ?pos = ae_PrevLogTerm aea"
    using p(4) pos by simp
qed

section \<open>What the leader sends\<close>

lemma prevLogOf_wf:
  assumes "log_wf s" "base_index s < n" "n \<le> last_index s"
  shows "prevLogOf s (n - base_index s - 1) =
    (n - 1, (base_term s # map rl_Term (live_log s)) ! nat (n - 1 - base_index s))"
proof (cases "n = base_index s + 1")
  case True
  then show ?thesis by (auto simp: prevLogOf_def base_defs split: option.splits)
next
  case False
  define k where "k = nat (n - base_index s - 2)"
  have k: "n = base_index s + 2 + int k" "Suc k < nextLogIdx s"
    using False assms by (auto simp: k_def last_index_def)
  have e: "n - base_index s - 1 = int (Suc k)" "nat (n - 1 - base_index s) = Suc k"
    using k by simp_all
  show ?thesis unfolding e
    using k assms(1) by (simp add: prevLogOf_def Let_def log_wf_def)
qed

lemma getAppendEntriesArgs_cases:
  assumes "log_wf s" and n_def: "n = mget 0 (nextIndex s) sid"
  obtains (snapshot) "n \<le> base_index s" "getAppendEntriesArgs sid s = (None, s)"
  | (entries) k where "base_index s < n" "n \<le> last_index s" "k = nat (n - 1 - base_index s)" "k < nextLogIdx s"
      "getAppendEntriesArgs sid s = (Some \<lparr>ae_Term = currentTerm s, ae_LeaderID = currentLeader s,
         ae_PrevLogIndex = n - 1, ae_PrevLogTerm = (base_term s # map rl_Term (live_log s)) ! k,
         ae_Entries = drop k (live_log s), ae_LeaderCommit = commitIndex s\<rparr>,
         s\<lparr>lastSentLogIndex := mput sid (last_index s) (lastSentLogIndex s)\<rparr>)"
  | (heartbeat) "last_index s < n"
      "getAppendEntriesArgs sid s = (Some \<lparr>ae_Term = currentTerm s, ae_LeaderID = currentLeader s,
         ae_PrevLogIndex = last_index s,
         ae_PrevLogTerm = (base_term s # map rl_Term (live_log s)) ! nextLogIdx s,
         ae_Entries = [], ae_LeaderCommit = commitIndex s\<rparr>,
         s\<lparr>lastSentLogIndex := mput sid (wrap64 (n - 1)) (lastSentLogIndex s)\<rparr>)"
proof -
  note f = findArrayIdx_wf [OF assms(1), of n] and l = getLastLogIdxTerm_wf [OF assms(1)]
  consider "n \<le> base_index s" | "base_index s < n" "n \<le> last_index s" | "last_index s < n" by linarith
  then show thesis
  proof cases
    case 1
    then have "n \<le> last_index s" by (simp add: last_index_def)
    with 1 show thesis using snapshot f l
      by (simp add: getAppendEntriesArgs_def n_def [symmetric] Let_def)
  next
    case 2
    define k where "k = nat (n - 1 - base_index s)"
    have k: "n - base_index s - 1 = int k" "k < nextLogIdx s"
      using 2 by (auto simp: k_def last_index_def)
    have d: "map (logs s) [k..<nextLogIdx s] = drop k (live_log s)"
      by (simp add: live_log_def drop_map)
    have "rl_Index (last (drop k (live_log s))) = last_index s"
      using k assms(1) by (simp add: last_drop last_conv_nth live_log_def log_wf_def last_index_def of_nat_diff)
    then show thesis
      using entries [OF 2 k_def k(2)] f l 2 prevLogOf_wf [OF assms(1) 2] k d
      by (simp add: getAppendEntriesArgs_def n_def [symmetric] Let_def k_def [symmetric])
  next
    case 3
    then have "\<not> n \<le> last_index s" by simp
    moreover have "prevLogOf s (- 1) =
        (last_index s, (base_term s # map rl_Term (live_log s)) ! nextLogIdx s)"
      by (cases "nextLogIdx s") (simp_all add: prevLogOf_def l)
    ultimately show thesis using heartbeat [OF 3] f l 3
      by (simp add: getAppendEntriesArgs_def n_def [symmetric] Let_def)
  qed
qed

lemma terms_wf_nth_prefix:
  assumes "terms_wf s" "k \<le> nextLogIdx s"
  shows "sorted ((base_term s # map rl_Term (live_log s)) ! k #
    map rl_Term (drop k (live_log s)) @ [currentTerm s])"
proof -
  let ?p = "base_term s # map rl_Term (live_log s) @ [currentTerm s]"
  have "drop k ?p = ?p ! k # drop (Suc k) ?p"
    using assms(2) by (intro Cons_nth_drop_Suc [symmetric]) simp
  moreover have "?p ! k = (base_term s # map rl_Term (live_log s)) ! k"
    using assms(2) by (cases k) (simp_all add: nth_append)
  moreover have "drop (Suc k) ?p = map rl_Term (drop k (live_log s)) @ [currentTerm s]"
    using assms(2) by (simp add: drop_map)
  moreover have "sorted (drop k ?p)"
    using assms(1) unfolding terms_wf_def by (rule sorted_wrt_drop)
  ultimately show ?thesis by simp
qed

lemma consec_drop: "consec b L \<Longrightarrow> k \<le> length L \<Longrightarrow> consec (b + int k) (drop k L)"
  by (auto simp: consec_def)

lemma getAppendEntriesArgs_wf:
  assumes inv: "node_inv s" and c: "commitIndex s \<le> last_index s" "last_index s < 2 ^ 53"
    and g: "getAppendEntriesArgs sid s = (Some aea, s')"
  shows "aea_wf aea"
proof -
  have wf: "log_wf s" "consec (base_index s) (live_log s)" "terms_wf s" "- 1 \<le> base_index s"
    "- 1 \<le> commitIndex s"
    using inv by (auto simp: node_inv_def log_wf_consec apply_wf_def)
  show ?thesis
  proof (cases rule: getAppendEntriesArgs_cases [OF wf(1) refl, of sid])
    case 1
    with g show ?thesis by simp
  next
    case (2 k)
    have "consec (base_index s + int k) (drop k (live_log s))"
      using wf(2) 2(4) by (intro consec_drop) simp_all
    with 2 g c wf terms_wf_nth_prefix [OF wf(3), of k] show ?thesis
      by (auto simp: aea_wf_def last_index_def)
  next
    case 3
    with g c wf terms_wf_nth_prefix [OF wf(3), of "nextLogIdx s"] show ?thesis
      by (auto simp: aea_wf_def last_index_def consec_def)
  qed
qed

section \<open>Agreement after a replication round\<close>

text \<open>The entry a node holds for an index, if it still has it in the array.\<close>

definition entry_at :: "node_state \<Rightarrow> int \<Rightarrow> raft_log option" where
  "entry_at s idx =
     (if base_index s < idx \<and> idx \<le> last_index s then Some (logs s (nat (idx - base_index s - 1)))
      else None)"

text \<open>Raft's Log Matching for two nodes: equal terms at an index mean equal logs up to it.\<close>

definition log_matching :: "node_state \<Rightarrow> node_state \<Rightarrow> bool" where
  "log_matching a b \<longleftrightarrow> (\<forall>idx x y. entry_at a idx = Some x \<and> entry_at b idx = Some y \<and>
     rl_Term x = rl_Term y \<longrightarrow>
       (\<forall>j x' y'. j \<le> idx \<and> entry_at a j = Some x' \<and> entry_at b j = Some y' \<longrightarrow> x' = y'))"

definition logs_agree :: "node_state \<Rightarrow> node_state \<Rightarrow> bool" where
  "logs_agree a b \<longleftrightarrow> (\<forall>j x y. entry_at a j = Some x \<and> entry_at b j = Some y \<longrightarrow> x = y)"

lemma log_matchingD:
  "log_matching a b \<Longrightarrow> entry_at a i = Some x \<Longrightarrow> entry_at b i = Some y \<Longrightarrow> rl_Term x = rl_Term y \<Longrightarrow>
     j \<le> i \<Longrightarrow> entry_at a j = Some x' \<Longrightarrow> entry_at b j = Some y' \<Longrightarrow> x' = y'"
  unfolding log_matching_def by blast

lemma logs_agree_matching: "logs_agree a b \<Longrightarrow> log_matching a b"
  by (auto simp: logs_agree_def log_matching_def)

lemma entry_at_nth:
  "entry_at s idx = Some x \<longleftrightarrow>
     (\<exists>i < length (live_log s). idx = base_index s + 1 + int i \<and> x = live_log s ! i)"
proof
  assume "entry_at s idx = Some x"
  then have "base_index s < idx" "idx \<le> last_index s" "x = logs s (nat (idx - base_index s - 1))"
    by (auto simp: entry_at_def split: if_splits)
  then show "\<exists>i < length (live_log s). idx = base_index s + 1 + int i \<and> x = live_log s ! i"
    by (intro exI [of _ "nat (idx - base_index s - 1)"]) (auto simp: last_index_def)
qed (auto simp: entry_at_def last_index_def)

lemma merge_spec_nth:
  "pos \<le> length L \<Longrightarrow> i < length es \<Longrightarrow>
     merge_spec pos es L ! (pos + i) = es ! i \<or>
     (pos + i < length L \<and> merge_spec pos es L ! (pos + i) = L ! (pos + i) \<and> same_entry (L ! (pos + i)) (es ! i))"
proof (induction es arbitrary: pos i)
  case (Cons e es)
  show ?case
  proof (cases "pos < length L \<and> same_entry (L ! pos) e")
    case True
    show ?thesis
    proof (cases i)
      case 0
      have "take (Suc pos) (merge_spec (Suc pos) es L) = take (Suc pos) L"
        using True by (intro merge_spec_prefix) simp
      then have "merge_spec (Suc pos) es L ! pos = L ! pos"
        using True take_Suc_eqD by blast
      then show ?thesis using 0 True by simp
    next
      case (Suc j)
      then show ?thesis using Cons.IH [of "Suc pos" j] Cons.prems True by simp
    qed
  next
    case False
    then show ?thesis using Cons.prems by (auto simp: nth_append min_def)
  qed
qed simp

lemma getAppendEntriesArgs_position:
  assumes wf: "log_wf l" and g: "getAppendEntriesArgs sid l = (Some aea, l')"
  obtains k where "k \<le> nextLogIdx l" "ae_PrevLogIndex aea = base_index l + int k"
    "ae_PrevLogTerm aea = (base_term l # map rl_Term (live_log l)) ! k"
    "ae_Entries aea = drop k (live_log l)"
  using wf
proof (cases rule: getAppendEntriesArgs_cases [OF wf refl, of sid])
  case 1
  with g show thesis by simp
next
  case (2 k)
  with g show thesis by (intro that [of k]) auto
next
  case 3
  with g show thesis by (intro that [of "nextLogIdx l"]) (auto simp: last_index_def)
qed

lemma entry_at_pred:
  "0 < k \<Longrightarrow> k \<le> nextLogIdx s \<Longrightarrow> entry_at s (base_index s + int k) = Some (live_log s ! (k - 1))"
  by (auto simp: entry_at_nth intro!: exI [of _ "k - 1"])

text \<open>Below \<open>PrevLogIndex\<close>, whose terms were compared, Log Matching gives equality.\<close>

lemma agree_below_prev:
  assumes m: "log_matching l f" and p: "base_index l + int k = base_index f + int pos"
    and le: "k \<le> nextLogIdx l" "pos \<le> nextLogIdx f"
    and t: "(base_term l # map rl_Term (live_log l)) ! k = (base_term f # map rl_Term (live_log f)) ! pos"
    and x: "entry_at l j = Some x" and y: "entry_at f j = Some y" and j: "j \<le> base_index l + int k"
  shows "x = y"
proof -
  have pos: "0 < k" "0 < pos" using x y j p by (auto simp: entry_at_nth)
  have "entry_at l (base_index l + int k) = Some (live_log l ! (k - 1))"
    "entry_at f (base_index l + int k) = Some (live_log f ! (pos - 1))"
    using entry_at_pred [OF pos(1) le(1)] entry_at_pred [OF pos(2) le(2)] p by simp_all
  moreover have "rl_Term (live_log l ! (k - 1)) = rl_Term (live_log f ! (pos - 1))"
    using t pos le by (simp add: nth_Cons')
  ultimately show ?thesis using m x y j unfolding log_matching_def by blast
qed

text \<open>Above it, the merge holds the leader's entry or one with the same index and term.\<close>

lemma agree_above_prev:
  assumes m: "log_matching l f" and p: "base_index l + int k = base_index f + int pos"
    and le: "k \<le> a" "a < nextLogIdx l" "pos \<le> nextLogIdx f"
  shows "merge_spec pos (drop k (live_log l)) (live_log f) ! (pos + (a - k)) = live_log l ! a"
proof -
  let ?es = "drop k (live_log l)" and ?F = "live_log f"
  have a: "a - k < length ?es" "?es ! (a - k) = live_log l ! a" using le by simp_all
  have "?F ! (pos + (a - k)) = live_log l ! a"
    if o: "pos + (a - k) < length ?F" "same_entry (?F ! (pos + (a - k))) (?es ! (a - k))"
  proof -
    let ?j = "base_index l + 1 + int a"
    have "?j = base_index f + 1 + int (pos + (a - k))" using p le by simp
    then have f: "entry_at f ?j = Some (?F ! (pos + (a - k)))" using o by (auto simp only: entry_at_nth)
    have l: "entry_at l ?j = Some (live_log l ! a)"
      unfolding entry_at_nth using le by (intro exI [of _ a]) simp
    show ?thesis
      using log_matchingD [OF m l f _ order_refl l f] o(2) a(2) by (simp add: same_entry_def)
  qed
  with merge_spec_nth [of pos ?F "a - k" ?es] a le show ?thesis by auto
qed

lemma replication_agrees:
  assumes l: "node_inv l" and f: "node_inv f" and m: "log_matching l f"
    and g: "getAppendEntriesArgs sid l = (Some aea, l')"
    and wf: "aea_wf aea" and fits: "aea_fits f aea"
    and h: "handleAppendEntries sha gs me aea f = (r, f')" and ok: "aer_Success r"
  shows "logs_agree l f'" and "last_index l \<le> last_index f'"
proof -
  let ?L = "live_log l" and ?F = "live_log f" and ?b = "base_index f"
  have cl: "consec (base_index l) ?L" and cf: "consec ?b ?F"
    using l f by (simp_all add: node_inv_def log_wf_consec)
  obtain k where k: "k \<le> nextLogIdx l" "ae_PrevLogIndex aea = base_index l + int k"
    "ae_PrevLogTerm aea = (base_term l # map rl_Term ?L) ! k" "ae_Entries aea = drop k ?L"
    using getAppendEntriesArgs_position [OF _ g] l by (auto simp: node_inv_def)
  define pos where "pos = nat (ae_PrevLogIndex aea - ?b)"
  have pos: "base_index l + int k = ?b + int pos" using fits k(2) by (simp add: pos_def aea_fits_def)
  note acc = handleAppendEntries_accepted [OF f wf fits h ok, folded pos_def]
  have pF: "pos \<le> length ?F" using acc(2) by simp
  have live: "live_log f' = merge_spec pos (drop k ?L) ?F" using acc(1) k(4) by simp
  have len: "pos + (nextLogIdx l - k) \<le> nextLogIdx f'"
  proof (cases "k < nextLogIdx l")
    case True
    then have "pos + (length (drop k ?L) - 1) < length (live_log f')"
      unfolding live by (intro merge_spec_contains [THEN conjunct1] pF) simp
    then show ?thesis using True by simp
  next
    case False
    have "length (take pos (live_log f')) = length (take pos ?F)"
      unfolding live by (simp add: merge_spec_prefix [OF pF])
    then show ?thesis using False pF by simp
  qed
  then show "last_index l \<le> last_index f'"
    using pos k(1) acc(3) by (simp add: last_index_def of_nat_diff)
  show "logs_agree l f'" unfolding logs_agree_def
  proof (intro allI impI, elim conjE)
    fix j x y assume x: "entry_at l j = Some x" and y: "entry_at f' j = Some y"
    obtain a where a: "a < length ?L" "j = base_index l + 1 + int a" "x = ?L ! a"
      using x by (auto simp: entry_at_nth)
    obtain b where b: "b < length (live_log f')" "j = ?b + 1 + int b" "y = live_log f' ! b"
      using y acc(3) by (auto simp: entry_at_nth)
    show "x = y"
    proof (cases "k \<le> a")
      case True
      then have "b = pos + (a - k)" using a b pos by auto
      then show ?thesis using agree_above_prev [OF m pos True] a b pF live by simp
    next
      case False
      then have bp: "b < pos" using a b pos by simp
      then have "y = ?F ! b"
        using b(3) merge_spec_prefix [OF pF, of "drop k ?L"] live by (metis nth_take)
      then have "entry_at f j = Some y" using b bp pF by (auto simp: entry_at_nth)
      then show ?thesis
        using agree_below_prev [OF m pos k(1) acc(2) _ x] k(3) acc(8) a(2) False by simp
    qed
  qed
qed

section \<open>Replies, commits, applications\<close>

lemma getAppendEntriesArgs_inv:
  "node_inv s \<Longrightarrow> node_inv (snd (getAppendEntriesArgs sid s))"
  using node_inv_m_ok [of s]
  by (auto simp: getAppendEntriesArgs_def Let_def gm.invar_put split: prod.splits)

lemma handleAppendEntriesResponse_inv:
  assumes "node_inv s"
  shows "node_inv (snd (handleAppendEntriesResponse me aer s))"
  using assms node_inv_m_ok [OF assms]
  by (simp add: handleAppendEntriesResponse_def Let_def gm.invar_put node_inv_updateCurrentTerm)

lemma replicatedCount_card:
  "m_ok (matchIndex s) \<Longrightarrow>
     replicatedCount s idx = card {sid. mhas (matchIndex s) sid \<and> idx \<le> mget 0 (matchIndex s) sid}"
  by (simp add: replicatedCount_def gm.count_keys mhas_def)

text \<open>The entry the loop may commit: a majority holds it and it is of the current term.\<close>

definition committable :: "node_state \<Rightarrow> raft_log \<Rightarrow> bool" where
  "committable s e \<longleftrightarrow> replicatedCount s (rl_Index e) > mlen (serverConfig s) div 2 \<and>
     rl_Term e = currentTerm s"

lemma checkCommits_loop_cases:
  obtains (commit) i where "i < n" "commitIndex s < rl_Index (logs s i)" "committable s (logs s i)"
      "checkCommits_loop n s = s\<lparr>commitIndex := rl_Index (logs s i)\<rparr>"
      "\<forall>j. i < j \<and> j < n \<longrightarrow> \<not> committable s (logs s j)"
  | (none) "checkCommits_loop n s = s"
      "(\<forall>j < n. \<not> committable s (logs s j)) \<or>
       (\<exists>k < n. rl_Index (logs s k) \<le> commitIndex s \<and> (\<forall>j. k < j \<and> j < n \<longrightarrow> \<not> committable s (logs s j)))"
proof (induction n arbitrary: thesis)
  case 0
  then show ?case by simp
next
  case (Suc n)
  consider (stop) "rl_Index (logs s n) \<le> commitIndex s"
    | (found) "\<not> rl_Index (logs s n) \<le> commitIndex s" "committable s (logs s n)"
    | (next_) "\<not> rl_Index (logs s n) \<le> commitIndex s" "\<not> committable s (logs s n)" by blast
  then show ?case
  proof cases
    case stop
    then show ?thesis by (intro Suc.prems(2)) auto
  next
    case found
    then show ?thesis by (intro Suc.prems(1) [of n]) (auto simp: committable_def)
  next
    case next_
    then have eq: "checkCommits_loop (Suc n) s = checkCommits_loop n s" by (auto simp: committable_def)
    show ?thesis
    proof (rule Suc.IH)
      fix i assume "i < n" "commitIndex s < rl_Index (logs s i)" "committable s (logs s i)"
        "checkCommits_loop n s = s\<lparr>commitIndex := rl_Index (logs s i)\<rparr>"
        "\<forall>j. i < j \<and> j < n \<longrightarrow> \<not> committable s (logs s j)"
      then show thesis using next_(2) eq by (intro Suc.prems(1) [of i]) (auto simp: less_Suc_eq)
    next
      assume "checkCommits_loop n s = s" "(\<forall>j < n. \<not> committable s (logs s j)) \<or>
       (\<exists>k < n. rl_Index (logs s k) \<le> commitIndex s \<and> (\<forall>j. k < j \<and> j < n \<longrightarrow> \<not> committable s (logs s j)))"
      then show thesis using next_(2) eq by (intro Suc.prems(2)) (auto simp: less_Suc_eq)
    qed
  qed
qed

text \<open>
  With consecutive indices: the commit index afterwards is the larger of the old one and
  the highest committable index.
\<close>

lemma checkCommits_spec:
  assumes "log_wf s"
  shows "commitIndex s \<le> commitIndex (checkCommits s)"
    and "commitIndex (checkCommits s) \<noteq> commitIndex s \<Longrightarrow>
           \<exists>i < nextLogIdx s. commitIndex (checkCommits s) = rl_Index (logs s i) \<and> committable s (logs s i)"
    and "\<forall>j < nextLogIdx s. committable s (logs s j) \<longrightarrow> rl_Index (logs s j) \<le> commitIndex (checkCommits s)"
    and "checkCommits s = s\<lparr>commitIndex := commitIndex (checkCommits s)\<rparr>"
proof -
  let ?c = "commitIndex (checkCommits s)"
  have idx: "rl_Index (logs s j) \<le> rl_Index (logs s i)" if "j \<le> i" "i < nextLogIdx s" for i j
    using assms that by (simp add: log_wf_def)
  have "commitIndex s \<le> ?c \<and>
      (?c \<noteq> commitIndex s \<longrightarrow> (\<exists>i < nextLogIdx s. ?c = rl_Index (logs s i) \<and> committable s (logs s i))) \<and>
      (\<forall>j < nextLogIdx s. committable s (logs s j) \<longrightarrow> rl_Index (logs s j) \<le> ?c) \<and>
      checkCommits s = s\<lparr>commitIndex := ?c\<rparr>"
  proof (cases rule: checkCommits_loop_cases [of "nextLogIdx s" s])
    case (commit i)
    then have c: "checkCommits s = s\<lparr>commitIndex := rl_Index (logs s i)\<rparr>" by (simp add: checkCommits_def)
    have "rl_Index (logs s j) \<le> rl_Index (logs s i)" if "j < nextLogIdx s" "committable s (logs s j)" for j
      using commit(1,5) that idx [of j i] by (cases "j \<le> i") auto
    then show ?thesis using commit c by auto
  next
    case none
    then have c: "checkCommits s = s" by (simp add: checkCommits_def)
    have "rl_Index (logs s j) \<le> commitIndex s" if "j < nextLogIdx s" "committable s (logs s j)" for j
      using none(2) that idx by (metis linorder_le_less_linear order_trans)
    then show ?thesis using c by simp
  qed
  then show "commitIndex s \<le> ?c"
    and "?c \<noteq> commitIndex s \<Longrightarrow> \<exists>i < nextLogIdx s. ?c = rl_Index (logs s i) \<and> committable s (logs s i)"
    and "\<forall>j < nextLogIdx s. committable s (logs s j) \<longrightarrow> rl_Index (logs s j) \<le> ?c"
    and "checkCommits s = s\<lparr>commitIndex := ?c\<rparr>" by blast+
qed

lemma checkCommits_inv: "node_inv s \<Longrightarrow> node_inv (checkCommits s)"
  by (metis checkCommits_spec(1,4) node_inv_commit node_inv_def)

text \<open>The three outcomes of \<open>updateLastApplied\<close>: nothing committed, committed but not held, next.\<close>

lemma updateLastApplied_cases:
  assumes "node_inv s" "lastApplied s < max_int64"
  obtains (idle) "commitIndex s \<le> lastApplied s" "updateLastApplied s = (- 1, s)"
  | (missing) "lastApplied s < commitIndex s" "last_index s \<le> lastApplied s" "updateLastApplied s = (- 1, s)"
  | (step) k where "lastApplied s < commitIndex s" "k < nextLogIdx s" "lastApplied s + 1 = base_index s + 1 + int k"
      "updateLastApplied s = (int k, s\<lparr>lastApplied := lastApplied s + 1\<rparr>)"
proof -
  have wf: "log_wf s" "base_index s \<le> lastApplied s" "- 1 \<le> lastApplied s"
    using assms(1) by (auto simp: node_inv_def apply_wf_def log_wf_def)
  have w: "wrap64 (lastApplied s + 1) = lastApplied s + 1" using wf(3) assms(2) by (rule wrap64_succ)
  consider "commitIndex s \<le> lastApplied s" | "lastApplied s < commitIndex s" "last_index s \<le> lastApplied s"
    | "lastApplied s < commitIndex s" "lastApplied s < last_index s" by linarith
  then show thesis
  proof cases
    case 1
    then show thesis using idle by (simp add: updateLastApplied_def)
  next
    case 2
    then show thesis using missing by (simp add: updateLastApplied_def w findArrayIdx_wf [OF wf(1)])
  next
    case 3
    then show thesis using step [of "nat (lastApplied s - base_index s)"] wf(2)
      by (simp add: updateLastApplied_def w findArrayIdx_wf [OF wf(1)] last_index_def)
  qed
qed

lemma updateLastApplied_inv:
  assumes "node_inv s" "lastApplied s < max_int64"
  shows "node_inv (snd (updateLastApplied s))"
  using assms
proof (cases rule: updateLastApplied_cases)
  case (step k)
  then show ?thesis using assms(1) by (simp add: inv_defs)
qed (simp_all add: assms)

section \<open>Purging a message\<close>

text \<open>\<open>purgeEntriesFromSnapshot\<close> drops exactly the leading entries the snapshot covers and
  moves \<open>PrevLogIndex\<close> and \<open>PrevLogTerm\<close> to the last one dropped, so a well-formed message
  stays well-formed and, unless it was shorter than the snapshot, fits afterwards.\<close>

lemma purge_keeps_message_well_formed:
  assumes "aea_wf aea" "lastSnapshot s = Some sn"
  shows "aea_wf (purgeEntriesFromSnapshot s aea) \<and>
    ae_Entries (purgeEntriesFromSnapshot s aea) =
      dropWhile (\<lambda>e. rl_Index e \<le> snap_LastIncludedIndex sn) (ae_Entries aea) \<and>
    (snap_LastIncludedIndex sn \<le> ae_PrevLogIndex aea + int (length (ae_Entries aea)) \<longrightarrow>
       snap_LastIncludedIndex sn \<le> ae_PrevLogIndex (purgeEntriesFromSnapshot s aea))"
proof -
  let ?b = "snap_LastIncludedIndex sn" and ?es = "ae_Entries aea" and ?p = "purgeEntriesFromSnapshot s aea"
  define k where "k = purge_loop ?b ?es"
  have k: "k = length (takeWhile (\<lambda>e. rl_Index e \<le> ?b) ?es)" "k \<le> length ?es"
    by (simp_all add: k_def purge_loop_takeWhile length_takeWhile_le)
  have dw: "drop k ?es = dropWhile (\<lambda>e. rl_Index e \<le> ?b) ?es"
    by (simp add: k(1) dropWhile_eq_drop)
  have idx: "rl_Index (?es ! i) = ae_PrevLogIndex aea + 1 + int i" if "i < length ?es" for i
    using assms(1) that by (simp add: aea_wf_def consec_def)
  have reach: "?b \<le> ae_PrevLogIndex aea + int k" if "?b \<le> ae_PrevLogIndex aea + int (length ?es)"
  proof (cases "k < length ?es")
    case True
    then have "\<not> rl_Index (?es ! k) \<le> ?b" unfolding k(1) by (rule nth_length_takeWhile)
    then show ?thesis using idx [OF True] by simp
  qed (use k(2) that in simp)
  show ?thesis
  proof (cases "k = 0")
    case True
    then have "?p = aea" using assms(2) by (simp add: purgeEntriesFromSnapshot_def Let_def k_def)
    then show ?thesis using assms(1) dw True reach by simp
  next
    case False
    have p: "?p = aea\<lparr>ae_PrevLogIndex := rl_Index (?es ! (k - 1)), ae_PrevLogTerm := rl_Term (?es ! (k - 1)),
        ae_Entries := drop k ?es\<rparr>"
      using False assms(2) by (simp add: purgeEntriesFromSnapshot_def Let_def k_def)
    have last: "rl_Index (?es ! (k - 1)) = ae_PrevLogIndex aea + int k"
      using idx [of "k - 1"] False k(2) by (simp add: of_nat_diff)
    have c: "consec (ae_PrevLogIndex aea + int k) (drop k ?es)"
      using assms(1) k(2) by (intro consec_drop) (simp_all add: aea_wf_def)
    let ?ts = "ae_PrevLogTerm aea # map rl_Term ?es @ [ae_Term aea]"
    have "drop k ?ts = rl_Term (?es ! (k - 1)) # map rl_Term (drop k ?es) @ [ae_Term aea]"
      using False k(2) Cons_nth_drop_Suc [of "k - 1" ?es, symmetric] by (cases k) (simp_all add: drop_map)
    moreover have "sorted (drop k ?ts)" using assms(1) by (intro sorted_wrt_drop) (simp add: aea_wf_def)
    ultimately have st: "sorted (rl_Term (?es ! (k - 1)) # map rl_Term (drop k ?es) @ [ae_Term aea])" by simp
    have "aea_wf ?p" using assms(1) k(2) c st last by (simp add: p aea_wf_def of_nat_diff)
    then show ?thesis using dw reach last by (simp add: p)
  qed
qed

section \<open>Looking up a log index\<close>

text \<open>Looking up a log index in the array: the scan from the end finds index \<open>i\<close> exactly when
  the node holds it, at distance \<open>i\<close> minus the snapshot's index minus one, and reports
  \<open>(false, -1)\<close> otherwise.\<close>

lemma lookup_by_log_index:
  assumes "log_wf s"
  shows "findArrayIdxByLogIndex s li =
      (case entry_at s li of Some e \<Rightarrow> (True, li - base_index s - 1) | None \<Rightarrow> (False, - 1)) \<and>
    (\<forall>e. entry_at s li = Some e \<longrightarrow> rl_Index e = li \<and> e \<in> set (live_log s))"
proof -
  have "rl_Index e = li \<and> e \<in> set (live_log s)" if e: "entry_at s li = Some e" for e
  proof -
    obtain i where "i < length (live_log s)" "li = base_index s + 1 + int i" "e = live_log s ! i"
      using e by (auto simp: entry_at_nth)
    moreover from this have "e \<in> set (live_log s)" using nth_mem by blast
    ultimately show ?thesis using assms by (simp add: log_wf_def)
  qed
  then show ?thesis using findArrayIdx_wf [OF assms, of li] by (simp add: entry_at_def)
qed

end
