(* ===== verification/Raft_Election.thy ===== *)
theory Raft_Election
  imports Raft_Log
begin

text \<open>
  Leader election (the \<open>nodeState\<close> methods of src/raft/election.go): starting an
  election, building RequestVote, granting or refusing a vote, counting replies, and
  taking over as leader.

  How up to date a log is, the pair the handler compares, is the linear order
  \<open>log_pos\<close>; a vote goes only to a candidate at least as high in it.
\<close>

section \<open>Operations\<close>

definition startElection :: "server_id \<Rightarrow> node_state \<Rightarrow> node_state" where
  "startElection sid s = s\<lparr>currentTerm := wrap64 (currentTerm s + 1), role := Candidate,
     votedFor := sid, electionVotes := 1\<rparr>"

definition prepareRequestVoteRPC :: "server_id \<Rightarrow> node_state \<Rightarrow> request_vote_args" where
  "prepareRequestVoteRPC sid s =
     (let (lastIdx, lastTerm) = getLastLogIdxTerm s
      in \<lparr>rv_Term = currentTerm s, rv_CandidateID = sid,
          rv_LastLogIndex = lastIdx, rv_LastLogTerm = lastTerm\<rparr>)"

definition handleRequestToVote ::
  "server_id \<Rightarrow> request_vote_args \<Rightarrow> node_state \<Rightarrow> request_vote_response \<times> node_state" where
  "handleRequestToVote sid rva s =
     (let (lastIdx, lastTerm) = getLastLogIdxTerm s
      in if currentTerm s > rv_Term rva then
           (\<lparr>rvr_ID = sid, rvr_Term = currentTerm s, rvr_VoteGranted = False\<rparr>, s)
         else
           let s1 = (if currentTerm s < rv_Term rva then updateCurrentTerm (rv_Term rva) s else s);
               canVote = (votedFor s1 = '''' \<or> votedFor s1 = rv_CandidateID rva);
               logOK = (rv_LastLogTerm rva > lastTerm \<or>
                        (rv_LastLogTerm rva = lastTerm \<and> rv_LastLogIndex rva \<ge> lastIdx))
           in if canVote \<and> logOK then
                let s2 = (stopElectionTimeout s1)\<lparr>role := Follower,
                           votedFor := rv_CandidateID rva, currentLeader := rv_CandidateID rva\<rparr>
                in (\<lparr>rvr_ID = sid, rvr_Term = currentTerm s2, rvr_VoteGranted = True\<rparr>, s2)
              else (\<lparr>rvr_ID = sid, rvr_Term = currentTerm s1, rvr_VoteGranted = False\<rparr>, s1))"

definition updateElection :: "request_vote_response \<Rightarrow> node_state \<Rightarrow> bool \<times> node_state" where
  "updateElection resp s =
     (if rvr_Term resp > currentTerm s then
        (False, (updateCurrentTerm (rvr_Term resp)
                   ((stopElectionTimeout s)\<lparr>electionVotes := 0\<rparr>))\<lparr>role := Follower\<rparr>)
      else if rvr_Term resp = currentTerm s \<and> rvr_VoteGranted resp then
        let s1 = s\<lparr>electionVotes := wrap64 (electionVotes s + 1)\<rparr>
        in (electionVotes s1 > int (mlen (serverConfig s1) div 2), s1)
      else (False, s))"

definition winElection :: "(bytes \<Rightarrow> bytes) \<Rightarrow> server_id \<Rightarrow> node_state \<Rightarrow> node_state" where
  "winElection sha sid s =
     (let lastIdx = fst (getLastLogIdxTerm s);
          s1 = s\<lparr>electionVotes := 0, role := Leader, currentLeader := sid\<rparr>;
          s2 = s1\<lparr>nextIndex := map (\<lambda>(k, _). (k, wrap64 (lastIdx + 1))) (nextIndex s1)\<rparr>;
          s3 = s2\<lparr>matchIndex := mput sid (- 1) (matchIndex s2),
                  lastSentLogIndex := mput sid (- 1) (lastSentLogIndex s2)\<rparr>
      in addNoopLogLocked sha sid s3)"

section \<open>How up to date a log is\<close>

text \<open>Last term first, then last index: the comparison \<open>logOK\<close> of the handler as an order.\<close>

datatype log_pos = LogPos (pos_term: int) (pos_index: int)

instantiation log_pos :: linorder
begin

definition less_eq_log_pos :: "log_pos \<Rightarrow> log_pos \<Rightarrow> bool" where
  "p \<le> q \<longleftrightarrow> pos_term p < pos_term q \<or> (pos_term p = pos_term q \<and> pos_index p \<le> pos_index q)"

definition less_log_pos :: "log_pos \<Rightarrow> log_pos \<Rightarrow> bool" where
  "p < q \<longleftrightarrow> pos_term p < pos_term q \<or> (pos_term p = pos_term q \<and> pos_index p < pos_index q)"

instance
  by standard (auto simp: less_eq_log_pos_def less_log_pos_def intro: log_pos.expand)

end

definition node_pos :: "node_state \<Rightarrow> log_pos" where
  "node_pos s = (let (i, t) = getLastLogIdxTerm s in LogPos t i)"

definition candidate_pos :: "request_vote_args \<Rightarrow> log_pos" where
  "candidate_pos rva = LogPos (rv_LastLogTerm rva) (rv_LastLogIndex rva)"

lemma candidate_pos_prepare: "candidate_pos (prepareRequestVoteRPC sid s) = node_pos s"
  by (simp add: candidate_pos_def prepareRequestVoteRPC_def node_pos_def Let_def split: prod.splits)

section \<open>Voting\<close>

text \<open>The three ways through the vote handler.\<close>

lemma handleRequestToVote_cases:
  obtains (stale) "rv_Term rva < currentTerm s"
      "handleRequestToVote me rva s =
         (\<lparr>rvr_ID = me, rvr_Term = currentTerm s, rvr_VoteGranted = False\<rparr>, s)"
  | (grant) s1 where "currentTerm s \<le> rv_Term rva" "node_pos s \<le> candidate_pos rva"
      "s1 = (if currentTerm s < rv_Term rva then updateCurrentTerm (rv_Term rva) s else s)"
      "currentTerm s < rv_Term rva \<or> votedFor s = '''' \<or> votedFor s = rv_CandidateID rva"
      "handleRequestToVote me rva s =
         (\<lparr>rvr_ID = me, rvr_Term = rv_Term rva, rvr_VoteGranted = True\<rparr>,
          (stopElectionTimeout s1)\<lparr>role := Follower, votedFor := rv_CandidateID rva,
             currentLeader := rv_CandidateID rva\<rparr>)"
  | (refuse) s1 where "currentTerm s \<le> rv_Term rva"
      "s1 = (if currentTerm s < rv_Term rva then updateCurrentTerm (rv_Term rva) s else s)"
      "\<not> node_pos s \<le> candidate_pos rva \<or>
         (rv_Term rva = currentTerm s \<and> votedFor s \<noteq> '''' \<and> votedFor s \<noteq> rv_CandidateID rva)"
      "handleRequestToVote me rva s =
         (\<lparr>rvr_ID = me, rvr_Term = rv_Term rva, rvr_VoteGranted = False\<rparr>, s1)"
proof -
  obtain li lt where l: "getLastLogIdxTerm s = (li, lt)" by fastforce
  define s1 where "s1 = (if currentTerm s < rv_Term rva then updateCurrentTerm (rv_Term rva) s else s)"
  have pos: "node_pos s \<le> candidate_pos rva \<longleftrightarrow> rv_LastLogTerm rva > lt \<or>
      (rv_LastLogTerm rva = lt \<and> rv_LastLogIndex rva \<ge> li)"
    by (auto simp: node_pos_def candidate_pos_def less_eq_log_pos_def l)
  show thesis
  proof (cases "rv_Term rva < currentTerm s")
    case True
    then show thesis using stale by (simp add: handleRequestToVote_def l)
  next
    case False
    have t1: "currentTerm s1 = rv_Term rva" using False by (auto simp: s1_def)
    have v1: "votedFor s1 = '''' \<or> votedFor s1 = rv_CandidateID rva \<longleftrightarrow>
        currentTerm s < rv_Term rva \<or> votedFor s = '''' \<or> votedFor s = rv_CandidateID rva"
      by (auto simp: s1_def)
    have h: "handleRequestToVote me rva s =
       (if (votedFor s1 = '''' \<or> votedFor s1 = rv_CandidateID rva) \<and> node_pos s \<le> candidate_pos rva
        then (\<lparr>rvr_ID = me, rvr_Term = rv_Term rva, rvr_VoteGranted = True\<rparr>,
          (stopElectionTimeout s1)\<lparr>role := Follower, votedFor := rv_CandidateID rva,
             currentLeader := rv_CandidateID rva\<rparr>)
        else (\<lparr>rvr_ID = me, rvr_Term = rv_Term rva, rvr_VoteGranted = False\<rparr>, s1))"
      using False t1 by (simp add: handleRequestToVote_def l pos s1_def [symmetric] Let_def)
    show thesis
    proof (cases "(votedFor s1 = '''' \<or> votedFor s1 = rv_CandidateID rva) \<and> node_pos s \<le> candidate_pos rva")
      case True
      then show thesis using grant [OF _ _ s1_def] False h v1 by auto
    next
      case no: False
      have "\<not> node_pos s \<le> candidate_pos rva \<or>
         (rv_Term rva = currentTerm s \<and> votedFor s \<noteq> '''' \<and> votedFor s \<noteq> rv_CandidateID rva)"
        using no v1 False by auto
      then show thesis using refuse [OF _ s1_def] False no h by simp
    qed
  qed
qed

lemma handleRequestToVote_inv:
  assumes "node_inv s"
  shows "node_inv (snd (handleRequestToVote me rva s))"
  using assms
  by (cases rule: handleRequestToVote_cases [of rva s me]) (auto simp: node_inv_updateCurrentTerm)

lemma startElection_inv:
  assumes "node_inv s" "- 1 \<le> currentTerm s" "currentTerm s < max_int64"
  shows "node_inv (startElection i s)"
  using assms node_inv_raise_term [of s "currentTerm s + 1"]
  by (simp add: startElection_def wrap64_succ)

lemma updateElection_inv: "node_inv s \<Longrightarrow> node_inv (snd (updateElection r s))"
  by (simp add: updateElection_def Let_def node_inv_updateCurrentTerm)

lemma m_ok_map_values: "m_ok m \<Longrightarrow> m_ok (map (\<lambda>(k, _). (k, v)) m)"
proof -
  have "map fst (map (\<lambda>(k, _). (k, v)) m) = map fst m" by (induction m) auto
  then show "m_ok m \<Longrightarrow> m_ok (map (\<lambda>(k, _). (k, v)) m)" unfolding m_ok_def by (simp only:)
qed

lemma addNoopLogLocked_frame [simp]:
  "currentTerm (addNoopLogLocked sha i s) = currentTerm s"
  "votedFor (addNoopLogLocked sha i s) = votedFor s"
  "role (addNoopLogLocked sha i s) = role s"
  "electionVotes (addNoopLogLocked sha i s) = electionVotes s"
  "serverConfig (addNoopLogLocked sha i s) = serverConfig s"
  "currentLeader (addNoopLogLocked sha i s) = currentLeader s"
  by (simp_all add: addNoopLogLocked_def Let_def)

lemma winElection_frame [simp]:
  "currentTerm (winElection sha i s) = currentTerm s" "votedFor (winElection sha i s) = votedFor s"
  "role (winElection sha i s) = Leader" "electionVotes (winElection sha i s) = 0"
  "serverConfig (winElection sha i s) = serverConfig s" "currentLeader (winElection sha i s) = i"
  by (simp_all add: winElection_def Let_def)

lemma winElection_inv:
  assumes inv: "node_inv s" and max: "last_index s < max_int64"
  shows "node_inv (winElection sha i s)"
proof -
  have "node_inv (s\<lparr>electionVotes := e, role := r, currentLeader := c, nextIndex := ni,
      matchIndex := mi, lastSentLogIndex := ls\<rparr>)" if "m_ok ni" "m_ok mi" "m_ok ls" for e r c ni mi ls
    using inv that by (simp add: inv_defs)
  moreover have "last_index (s\<lparr>electionVotes := e, role := r, currentLeader := c, nextIndex := ni,
      matchIndex := mi, lastSentLogIndex := ls\<rparr>) = last_index s" for e r c ni mi ls
    by (simp add: last_index_def base_index_def)
  ultimately show ?thesis
    using max node_inv_m_ok [OF inv]
    by (simp add: winElection_def Let_def addNoopLogLocked_inv m_ok_map_values gm.invar_put)
qed

text \<open>With room in the array the new leader's log grows by the no-op, and every peer restarts there.\<close>

lemma winElection_append:
  assumes "nextLogIdx s < logArrayCapacity"
  shows "live_log (winElection sha me s) = live_log s @ [noopLogEntry s]"
    and "p \<noteq> me \<Longrightarrow> mhas (nextIndex s) p \<Longrightarrow>
      mget 0 (nextIndex (winElection sha me s)) p = wrap64 (fst (getLastLogIdxTerm s) + 1)"
proof -
  define v where "v = wrap64 (fst (getLastLogIdxTerm s) + 1)"
  define t where "t = s\<lparr>electionVotes := 0, role := Leader, currentLeader := me,
    nextIndex := map (\<lambda>(k, _). (k, v)) (nextIndex s), matchIndex := mput me (- 1) (matchIndex s),
    lastSentLogIndex := mput me (- 1) (lastSentLogIndex s)\<rparr>"
  have n: "noopLogEntry t = noopLogEntry s"
    by (simp add: t_def noopLogEntry_def getLastLogIdxTerm_def cong: option.case_cong)
  have room: "\<not> logArrayCapacity \<le> nextLogIdx t" using assms by (simp add: t_def)
  have win: "winElection sha me s = trackLeader me (rl_Index (noopLogEntry s)) (storeEntry sha (noopLogEntry s) t)"
    unfolding winElection_def addNoopLogLocked_def Let_def
    using room n by (simp add: v_def [symmetric]) (simp add: t_def)
  show "live_log (winElection sha me s) = live_log s @ [noopLogEntry s]"
    by (simp add: win) (simp add: t_def live_log_def)
  have "map_of (map (\<lambda>(k, _). (k, v)) m) p = map_option (\<lambda>_. v) (map_of m p)" for m :: "(server_id, int) gomap"
    by (induction m) auto
  then show "mget 0 (nextIndex (winElection sha me s)) p = wrap64 (fst (getLastLogIdxTerm s) + 1)"
    if "p \<noteq> me" "mhas (nextIndex s) p"
    using that by (auto simp: win t_def trackLeader_def mget_def mhas_def mput_def update_conv v_def)
qed

section \<open>A second request of the same term\<close>

text \<open>Within a term a vote is never given away twice: a second request of the same term
  by another candidate is refused and changes neither vote nor term.\<close>

lemma no_second_vote:
  assumes "rv_Term rva = currentTerm s" "votedFor s \<noteq> ''''" "votedFor s \<noteq> rv_CandidateID rva"
  shows "handleRequestToVote me rva s =
    (\<lparr>rvr_ID = me, rvr_Term = currentTerm s, rvr_VoteGranted = False\<rparr>, s)"
  using assms by (cases rule: handleRequestToVote_cases [of rva s me]) auto

end
