(* ===== verification/Raft_Storage.thy ===== *)
theory Raft_Storage
  imports Raft_Types
begin

text \<open>
  Persistence (src/storage/storage.go and memory_storage.go): the \<open>Storage\<close> interface as
  a record of methods over a store \<open>'st\<close>, and \<open>MemoryStorage\<close>, which copies what it
  saves and what it loads.

  The contract of the interface's documentation is the locale \<open>stable_storage\<close>; it is
  interpreted on the methods of \<open>MemoryStorage\<close>.
\<close>

section \<open>The interface\<close>

record 'st storage_ops =
  SaveState :: "persistent_state \<Rightarrow> 'st \<Rightarrow> error option \<times> 'st"
  LoadState :: "'st \<Rightarrow> error + persistent_state"
  SaveSnapshot :: "snapshot \<Rightarrow> 'st \<Rightarrow> error option \<times> 'st"
  LoadSnapshot :: "'st \<Rightarrow> error + snapshot option"

section \<open>MemoryStorage\<close>

record memory_storage =
  ms_state :: "persistent_state option"
  ms_snapshot :: "snapshot option"

definition NewMemoryStorage :: memory_storage where
  "NewMemoryStorage = \<lparr>ms_state = None, ms_snapshot = None\<rparr>"

text \<open>
  \<open>make\<close> and \<open>copy\<close> of a slice, as the source copies the log and the snapshot data: a
  fresh slice of zero values, overwritten element by element.
\<close>

fun copy_slice :: "'a list \<Rightarrow> 'a list \<Rightarrow> 'a list" where
  "copy_slice (d # ds) (x # xs) = x # copy_slice ds xs"
| "copy_slice ds [] = ds"
| "copy_slice [] xs = []"

definition copy_logs :: "raft_log list \<Rightarrow> raft_log list" where
  "copy_logs ls = copy_slice (replicate (length ls) zero_raft_log) ls"

definition copy_bytes :: "bytes \<Rightarrow> bytes" where
  "copy_bytes bs = copy_slice (replicate (length bs) 0) bs"

definition copy_map :: "('k, 'v) gomap \<Rightarrow> ('k, 'v) gomap" where
  "copy_map m = fold (\<lambda>(k, v) dst. mput k v dst) m []"

definition mem_SaveState :: "persistent_state \<Rightarrow> memory_storage \<Rightarrow> error option \<times> memory_storage" where
  "mem_SaveState st m = (None, m\<lparr>ms_state := Some (st\<lparr>ps_Logs := copy_logs (ps_Logs st)\<rparr>)\<rparr>)"

definition mem_LoadState :: "memory_storage \<Rightarrow> error + persistent_state" where
  "mem_LoadState m =
     (case ms_state m of
        None \<Rightarrow> Inr zero_persistent_state
      | Some st \<Rightarrow> Inr (st\<lparr>ps_Logs := copy_logs (ps_Logs st)\<rparr>))"

definition mem_SaveSnapshot :: "snapshot \<Rightarrow> memory_storage \<Rightarrow> error option \<times> memory_storage" where
  "mem_SaveSnapshot sn m = (None, m\<lparr>ms_snapshot := Some (sn\<lparr>
     snap_Data := copy_bytes (snap_Data sn),
     snap_ServerConfig := copy_map (snap_ServerConfig sn)\<rparr>)\<rparr>)"

definition mem_LoadSnapshot :: "memory_storage \<Rightarrow> error + snapshot option" where
  "mem_LoadSnapshot m =
     (case ms_snapshot m of
        None \<Rightarrow> Inr None
      | Some sn \<Rightarrow> Inr (Some (sn\<lparr>snap_Data := copy_bytes (snap_Data sn),
                                  snap_ServerConfig := copy_map (snap_ServerConfig sn)\<rparr>)))"

definition memory_storage_ops :: "memory_storage storage_ops" where
  "memory_storage_ops = \<lparr>SaveState = mem_SaveState, LoadState = mem_LoadState,
     SaveSnapshot = mem_SaveSnapshot, LoadSnapshot = mem_LoadSnapshot\<rparr>"

section \<open>The contract\<close>

text \<open>
  A store is usable when it satisfies \<open>ok\<close>. Saving succeeds, loading returns the last
  state and the last snapshot saved, an unwritten store returns the empty state and no
  snapshot, and saving one does not disturb the other. Snapshots are compared when their
  configuration is a proper map (distinct keys).
\<close>

locale stable_storage =
  fixes ops :: "'st storage_ops" and fresh :: 'st and ok :: "'st \<Rightarrow> bool"
  assumes ok_fresh: "ok fresh"
    and load_state_fresh: "LoadState ops fresh = Inr zero_persistent_state"
    and load_snapshot_fresh: "LoadSnapshot ops fresh = Inr None"
    and save_state: "ok st \<Longrightarrow> SaveState ops ps st = (e, st') \<Longrightarrow>
          e = None \<and> ok st' \<and> LoadState ops st' = Inr ps \<and> LoadSnapshot ops st' = LoadSnapshot ops st"
    and save_snapshot: "ok st \<Longrightarrow> m_ok (snap_ServerConfig sn) \<Longrightarrow> SaveSnapshot ops sn st = (e, st') \<Longrightarrow>
          e = None \<and> ok st' \<and> LoadSnapshot ops st' = Inr (Some sn) \<and> LoadState ops st' = LoadState ops st"
begin

text \<open>A crash can lose only what was saved after the last save: the last save wins.\<close>

lemma last_state_wins:
  assumes "ok st" "SaveState ops ps st = (e, st1)" "SaveState ops ps' st1 = (e', st2)"
  shows "LoadState ops st2 = Inr ps'"
  using save_state [OF assms(1,2)] save_state [OF _ assms(3)] by simp

lemma state_then_snapshot:
  assumes "ok st" "m_ok (snap_ServerConfig sn)" "SaveState ops ps st = (e, st1)"
    "SaveSnapshot ops sn st1 = (e', st2)"
  shows "LoadState ops st2 = Inr ps" "LoadSnapshot ops st2 = Inr (Some sn)" "ok st2" "e = None" "e' = None"
  using save_state [OF assms(1,3)] save_snapshot [OF _ assms(2,4)] by simp_all

end

section \<open>MemoryStorage satisfies the contract\<close>

lemma copy_slice_full: "length ds = length xs \<Longrightarrow> copy_slice ds xs = xs"
  by (induction ds xs rule: copy_slice.induct) auto

lemma copies [simp]: "copy_logs ls = ls" "copy_bytes bs = bs"
  by (simp_all add: copy_logs_def copy_bytes_def copy_slice_full)

lemma copy_map_id: "m_ok m \<Longrightarrow> copy_map m = m"
  by (simp add: copy_map_def fold_mput_fresh m_ok_def)

text \<open>The snapshot a store holds has a proper configuration map.\<close>

definition mem_ok :: "memory_storage \<Rightarrow> bool" where
  "mem_ok m \<longleftrightarrow> (case ms_snapshot m of None \<Rightarrow> True | Some sn \<Rightarrow> m_ok (snap_ServerConfig sn))"

interpretation mem: stable_storage memory_storage_ops NewMemoryStorage mem_ok
  by standard
    (auto simp: memory_storage_ops_def NewMemoryStorage_def mem_ok_def mem_SaveState_def
       mem_LoadState_def mem_SaveSnapshot_def mem_LoadSnapshot_def copy_map_id)

end
