(* ===== verification/Raft_Metrics.thy ===== *)
theory Raft_Metrics
  imports Raft_Types "HOL-Library.Signed_Division" "HOL-Library.Multiset"
begin

text \<open>
  Performance counters (src/raft/metrics.go). Atomics are read and written by one
  goroutine at a time in this model, so a compare-and-swap loop ends in its first
  iteration; counters are \<open>int64\<close> and wrap. The clock and the value of the float64
  expression in \<open>Percentile\<close> are arguments.

  The insertion sort on the slice is shown equal to the library's \<open>sort\<close>.
\<close>

record metrics =
  applyCount :: int
  applyTotalNs :: int
  applyMinNs :: int
  applyMaxNs :: int
  electionCount :: int
  lastElectionNs :: int
  leaderChanges :: int
  leaderSince :: int
  committedEntries :: int
  histData :: "int list"

definition hist_cap :: nat where
  "hist_cap = 8192"

text \<open>\<open>int64(time.Hour)\<close>, the sentinel for "no sample yet".\<close>

definition hour_ns :: int where
  "hour_ns = 3600000000000"

definition newMetrics :: metrics where
  "newMetrics = \<lparr>applyCount = 0, applyTotalNs = 0, applyMinNs = hour_ns, applyMaxNs = 0,
     electionCount = 0, lastElectionNs = 0, leaderChanges = 0, leaderSince = 0,
     committedEntries = 0, histData = []\<rparr>"

definition recordApply :: "int \<Rightarrow> metrics \<Rightarrow> metrics" where
  "recordApply ns m =
     (let m1 = m\<lparr>applyCount := wrap64 (applyCount m + 1),
                 applyTotalNs := wrap64 (applyTotalNs m + ns)\<rparr>;
          m2 = (if ns \<ge> applyMinNs m1 then m1 else m1\<lparr>applyMinNs := ns\<rparr>);
          m3 = (if ns \<le> applyMaxNs m2 then m2 else m2\<lparr>applyMaxNs := ns\<rparr>)
      in if length (histData m3) < hist_cap then m3\<lparr>histData := histData m3 @ [ns]\<rparr> else m3)"

definition recordElection :: "int \<Rightarrow> metrics \<Rightarrow> metrics" where
  "recordElection d m = m\<lparr>electionCount := wrap64 (electionCount m + 1), lastElectionNs := d,
     leaderChanges := wrap64 (leaderChanges m + 1)\<rparr>"

definition recordLeaderStart :: "int \<Rightarrow> metrics \<Rightarrow> metrics" where
  "recordLeaderStart now m = m\<lparr>leaderSince := now\<rparr>"

definition recordLeaderStop :: "metrics \<Rightarrow> metrics" where
  "recordLeaderStop m = m\<lparr>leaderSince := 0\<rparr>"

definition recordCommit :: "metrics \<Rightarrow> metrics" where
  "recordCommit m = m\<lparr>committedEntries := wrap64 (committedEntries m + 1)\<rparr>"

definition ApplyAvg :: "metrics \<Rightarrow> int" where
  "ApplyAvg m = (if applyCount m = 0 then 0 else applyTotalNs m sdiv applyCount m)"

definition ApplyMin :: "metrics \<Rightarrow> int" where
  "ApplyMin m = (if applyMinNs m = hour_ns then 0 else applyMinNs m)"

section \<open>Insertion sort\<close>

text \<open>
  The inner loop: \<open>j\<close> of the source is one less than the argument here, so that the
  source's \<open>j = -1\<close> is \<open>0\<close>.
\<close>

fun sort_inner :: "nat \<Rightarrow> int \<Rightarrow> int list \<Rightarrow> int list" where
  "sort_inner 0 key d = d[0 := key]"
| "sort_inner (Suc j) key d =
     (if d ! j > key then sort_inner j key (d[Suc j := d ! j]) else d[Suc j := key])"

fun sort_outer :: "nat \<Rightarrow> nat \<Rightarrow> int list \<Rightarrow> int list" where
  "sort_outer i 0 d = d"
| "sort_outer i (Suc k) d = sort_outer (Suc i) k (sort_inner i (d ! i) d)"

definition sortDurations :: "int list \<Rightarrow> int list" where
  "sortDurations d = sort_outer 1 (length d - 1) d"

text \<open>\<open>fidx\<close> is the value of \<open>int(p / 100.0 * float64(n))\<close>.\<close>

definition Percentile :: "int \<Rightarrow> metrics \<Rightarrow> go_panic + int" where
  "Percentile fidx m =
     (let n = length (histData m)
      in if n = 0 then Inr 0
         else let sorted = sortDurations (histData m);
                  idx = (if fidx \<ge> int n then int n - 1 else fidx)
              in if idx < 0 then Inl IndexOutOfRange else Inr (sorted ! nat idx))"

section \<open>The sort is correct\<close>

text \<open>
  The inner loop sorts \<open>key\<close> into the sorted prefix \<open>xs\<close>: the hole at position \<open>j\<close> moves
  left past the larger elements.
\<close>

lemma sort_inner_correct:
  assumes "j \<le> length xs" "sorted xs" "\<forall>x \<in> set (drop j xs). key < x"
  shows "\<exists>ys. sort_inner j key (take j xs @ y # drop j xs @ zs) = ys @ zs \<and> sorted ys \<and>
           mset ys = add_mset key (mset xs)"
  using assms
proof (induction j arbitrary: y)
  case 0
  then show ?case by (intro exI [of _ "key # xs"]) (auto simp: less_imp_le)
next
  case (Suc j)
  have j: "j < length xs" using Suc.prems(1) by simp
  have t: "take (Suc j) xs = take j xs @ [xs ! j]" and d: "drop j xs = xs ! j # drop (Suc j) xs"
    using j by (simp_all add: take_Suc_conv_app_nth Cons_nth_drop_Suc)
  let ?d = "take (Suc j) xs @ y # drop (Suc j) xs @ zs"
  have dj: "?d ! j = xs ! j" using j by (simp add: nth_append)
  show ?case
  proof (cases "xs ! j > key")
    case True
    have "?d[Suc j := xs ! j] = take j xs @ xs ! j # drop j xs @ zs"
      using j t d by (simp add: list_update_append)
    moreover have "\<forall>x \<in> set (drop j xs). key < x" using Suc.prems(3) True d by simp
    ultimately show ?thesis using Suc.IH [of "xs ! j"] Suc.prems(1,2) True dj by simp
  next
    case False
    let ?ys = "take (Suc j) xs @ key # drop (Suc j) xs"
    have "sorted (take (Suc j) xs @ drop (Suc j) xs)" using Suc.prems(2) by simp
    moreover have "x \<le> key" if "x \<in> set (take (Suc j) xs)" for x
      using False sorted_take_le [OF Suc.prems(2) j that] by simp
    ultimately have "sorted ?ys"
      using Suc.prems(3) by (fastforce simp only: sorted_append sorted_simps set_simps)
    moreover have "mset ?ys = add_mset key (mset xs)"
      using mset_append [of "take (Suc j) xs" "drop (Suc j) xs"] by simp
    moreover have "?d[Suc j := key] = ?ys @ zs"
      using j by (simp add: list_update_append)
    ultimately show ?thesis using False dj by auto
  qed
qed

lemma sort_outer_correct:
  assumes "sorted xs" "k = length zs"
  shows "sorted (sort_outer (length xs) k (xs @ zs)) \<and> mset (sort_outer (length xs) k (xs @ zs)) = mset (xs @ zs)"
  using assms
proof (induction k arbitrary: xs zs)
  case (Suc k)
  then obtain z zs' where z: "zs = z # zs'" "k = length zs'" by (cases zs) auto
  obtain ys where ys: "sort_inner (length xs) z (xs @ z # zs') = ys @ zs'" "sorted ys"
    "mset ys = add_mset z (mset xs)"
    using sort_inner_correct [of "length xs" xs z z zs'] Suc.prems(1) by auto
  have "length ys = Suc (length xs)" using arg_cong [OF ys(3), of size] by simp
  then show ?case using Suc.IH [OF ys(2) z(2)] ys z by simp
qed simp

lemma sortDurations_sort: "sortDurations d = sort d"
proof (cases d)
  case (Cons x xs)
  then have "sorted (sortDurations d) \<and> mset (sortDurations d) = mset d"
    using sort_outer_correct [of "[x]" "length xs" xs] by (simp add: sortDurations_def)
  then show ?thesis by (metis properties_for_sort)
qed (simp add: sortDurations_def)

section \<open>The counters\<close>

lemma recordApply_fields [simp]:
  "applyCount (recordApply x m) = wrap64 (applyCount m + 1)"
  "applyMinNs (recordApply x m) = min x (applyMinNs m)"
  "applyMaxNs (recordApply x m) = max x (applyMaxNs m)"
  "histData (recordApply x m) = (if length (histData m) < hist_cap then histData m @ [x] else histData m)"
  by (simp_all add: recordApply_def Let_def)

lemma recordApply_fold:
  assumes "int (length xs) < max_int64"
  shows "applyCount (fold recordApply xs newMetrics) = int (length xs) \<and>
    applyMinNs (fold recordApply xs newMetrics) = Min (insert hour_ns (set xs)) \<and>
    applyMaxNs (fold recordApply xs newMetrics) = Max (insert 0 (set xs)) \<and>
    histData (fold recordApply xs newMetrics) = take hist_cap xs"
  using assms
proof (induction xs rule: rev_induct)
  case (snoc x xs)
  let ?m = "fold recordApply xs newMetrics"
  have ins: "insert h (set (xs @ [x])) = insert x (insert h (set xs))" for h by auto
  have IH: "applyCount ?m = int (length xs)" "applyMinNs ?m = Min (insert hour_ns (set xs))"
    "applyMaxNs ?m = Max (insert 0 (set xs))" "histData ?m = take hist_cap xs"
    using snoc by simp_all
  have "wrap64 (int (length xs) + 1) = int (length xs) + 1" using snoc.prems by (intro wrap64_succ) simp_all
  then show ?case unfolding ins
    by (simp add: IH Min_insert [of "insert hour_ns (set xs)"] Max_insert [of "insert 0 (set xs)"] del: Min_insert Max_insert)
qed (simp add: newMetrics_def)

section \<open>The counters summarise the samples\<close>

text \<open>The latency counters summarise the recorded samples: after any sequence of samples
  between 0 and one hour, the count, the minimum and maximum, and the first 8192 samples
  are what they should be.\<close>

lemma metrics_summarise_samples:
  assumes "ds \<noteq> []" "\<forall>x \<in> set ds. 0 \<le> x \<and> x < hour_ns" "int (length ds) < max_int64"
  shows "applyCount (fold recordApply ds newMetrics) = int (length ds) \<and>
    ApplyMin (fold recordApply ds newMetrics) = Min (set ds) \<and>
    applyMaxNs (fold recordApply ds newMetrics) = Max (set ds) \<and>
    histData (fold recordApply ds newMetrics) = take hist_cap ds"
proof -
  note f = recordApply_fold [OF assms(3)]
  have "Min (set ds) \<in> set ds" using assms(1) by simp
  then have lt: "Min (set ds) < hour_ns" using assms(2) by blast
  have mn: "Min (insert hour_ns (set ds)) = Min (set ds)" "Min (set ds) \<noteq> hour_ns"
    using lt Min_insert [of "set ds" hour_ns] assms(1) by simp_all
  have "Max (set ds) \<in> set ds" using assms(1) by simp
  then have "Max (insert 0 (set ds)) = Max (set ds)" using assms(1,2) by (auto simp: max_def)
  then show ?thesis using f mn by (simp add: ApplyMin_def)
qed

end
