(* ===== verification/Raft_Node.thy ===== *)
theory Raft_Node
  imports Raft_Replication Raft_Election Raft_Storage Raft_Metrics
begin

text \<open>
  The node (src/raft/node.go and the \<open>RaftNode\<close> methods of log.go, election.go,
  snapshot.go and config_change.go): construction and start-up, persistence, one
  iteration of the run loop in each role, and one iteration of each of the other
  goroutines. An iteration takes the event its \<open>select\<close> received and returns the new
  node and what it sent: RPCs to peers, replies to RPCs, answers to clients.

  The pluggable components are the records of \<open>deps\<close>: the state machine's methods, the
  storage's methods, and SHA-256. A reply channel is a number. The goroutine that
  \<open>handleApplyRequests\<close> starts for a command only forwards the signal of its error
  channel to the client, so \<open>n_pendingCommands\<close> holds the client's channel directly.
\<close>

section \<open>Data\<close>

record ('sm, 'st) deps =
  dep_sm :: "'sm state_machine"
  dep_st :: "'st storage_ops"
  dep_sha :: "bytes \<Rightarrow> bytes"

text \<open>What an iteration reads from its surroundings: random numbers and the clock.\<close>

record node_env =
  env_rand :: "int \<Rightarrow> int"
  env_now :: int

record ('sm, 'st) raft_node =
  n_cfg :: raft_config
  n_sm :: 'sm
  n_storage :: 'st
  n_state :: node_state
  n_connected :: bool
  n_stopped :: bool
  n_pendingCommands :: "(int, nat) gomap"
  n_pendingConfigApplied :: "(int, nat) gomap"
  n_waiting :: "config_entry list"
  n_lastPersistedSnapIdx :: int
  n_metrics :: metrics
  n_electionStarted :: int

datatype node_output =
    SendRequestVote server_id request_vote_args
  | SendAppendEntries server_id append_entries_args
  | SendInstallSnapshot server_id install_snapshot_args
  | ReplyRequestVote request_vote_response
  | ReplyAppendEntries append_entries_response
  | ReplyInstallSnapshot install_snapshot_response
  | ReplyApply nat apply_response
  | ReplyConfig nat add_remove_server_response
  | ConnectPeer server_id

type_synonym ('sm, 'st) node_result = "go_panic + ('sm, 'st) raft_node \<times> node_output list"

text \<open>Run one piece after another, collecting outputs; a panic ends the iteration.\<close>

definition andThen ::
  "('sm, 'st) node_result \<Rightarrow> (('sm, 'st) raft_node \<Rightarrow> ('sm, 'st) node_result) \<Rightarrow> ('sm, 'st) node_result" where
  "andThen r f = (case r of
      Inl p \<Rightarrow> Inl p
    | Inr (n, out) \<Rightarrow> (case f n of Inl p \<Rightarrow> Inl p | Inr (n', out') \<Rightarrow> Inr (n', out @ out')))"

definition onState :: "(node_state \<Rightarrow> node_state) \<Rightarrow> ('sm, 'st) raft_node \<Rightarrow> ('sm, 'st) raft_node" where
  "onState f n = n\<lparr>n_state := f (n_state n)\<rparr>"

abbreviation n_id :: "('sm, 'st) raft_node \<Rightarrow> server_id" where
  "n_id n \<equiv> cfg_ID (n_cfg n)"

section \<open>Construction\<close>

definition fillDefaults :: "raft_config \<Rightarrow> raft_config" where
  "fillDefaults cfg =
     (let c1 = (if cfg_HeartbeatMs cfg = 0 then cfg\<lparr>cfg_HeartbeatMs := 20\<rparr> else cfg);
          c2 = (if cfg_ElectionMinMs c1 = 0 then c1\<lparr>cfg_ElectionMinMs := 150\<rparr> else c1)
      in if cfg_ElectionMaxMs c2 = 0 then c2\<lparr>cfg_ElectionMaxMs := 300\<rparr> else c2)"

text \<open>\<open>None\<close> for an interface argument is Go's \<open>nil\<close>; the transport is only tested for it.\<close>

definition New ::
  "raft_config \<Rightarrow> 'sm option \<Rightarrow> bool \<Rightarrow> 'st option \<Rightarrow> error + ('sm, 'st) raft_node" where
  "New cfg0 sm transportPresent st =
     (let cfg = fillDefaults cfg0
      in case sm of
           None \<Rightarrow> Inl ''raft.New: StateMachine must not be nil''
         | Some smv \<Rightarrow>
             if \<not> transportPresent then Inl ''raft.New: Transport must not be nil''
             else case st of
               None \<Rightarrow> Inl ''raft.New: Storage must not be nil''
             | Some stv \<Rightarrow> Inr \<lparr>n_cfg = cfg, n_sm = smv, n_storage = stv,
                 n_state = newNodeState (cfg_ID cfg) (cfg_Peers cfg)
                             (cfg_ElectionMinMs cfg) (cfg_ElectionMaxMs cfg),
                 n_connected = False, n_stopped = False,
                 n_pendingCommands = [], n_pendingConfigApplied = [], n_waiting = [],
                 n_lastPersistedSnapIdx = 0, n_metrics = newMetrics, n_electionStarted = 0\<rparr>)"

section \<open>Start and stop\<close>

text \<open>The loop that copies the saved log into the array, up to its capacity.\<close>

fun restoreLogs :: "nat \<Rightarrow> raft_log list \<Rightarrow> node_state \<Rightarrow> node_state" where
  "restoreLogs i [] s = s"
| "restoreLogs i (rl # rls) s =
     (if i \<ge> logArrayCapacity then s
      else restoreLogs (Suc i) rls (s\<lparr>logs := (logs s)(i := rl), nextLogIdx := i + 1\<rparr>))"

definition restoreState :: "persistent_state \<Rightarrow> node_state \<Rightarrow> node_state" where
  "restoreState ps s =
     (if ps_CurrentTerm ps > 0
      then restoreLogs 0 (ps_Logs ps) (s\<lparr>currentTerm := ps_CurrentTerm ps, votedFor := ps_VotedFor ps\<rparr>)
      else s)"

definition restoreSnapshot :: "snapshot option \<Rightarrow> node_state \<Rightarrow> node_state" where
  "restoreSnapshot sn s =
     (case sn of
        None \<Rightarrow> s
      | Some snap \<Rightarrow> s\<lparr>lastSnapshot := Some snap, commitIndex := snap_LastIncludedIndex snap,
                       lastApplied := snap_LastIncludedIndex snap\<rparr>)"

text \<open>\<open>listenError\<close> is what the transport's \<open>Listen\<close> returned.\<close>

definition Start ::
  "('sm, 'st) deps \<Rightarrow> error option \<Rightarrow> ('sm, 'st) raft_node \<Rightarrow> error + ('sm, 'st) raft_node" where
  "Start d listenError n =
     (case LoadState (dep_st d) (n_storage n) of
        Inl e \<Rightarrow> Inl (''Start: load state: '' @ e)
      | Inr ps \<Rightarrow>
          let n1 = onState (restoreState ps) n
          in case LoadSnapshot (dep_st d) (n_storage n1) of
               Inl e \<Rightarrow> Inl (''Start: load snapshot: '' @ e)
             | Inr sn \<Rightarrow>
                 let n2 = onState (restoreSnapshot sn) n1;
                     (rerr, n3) = (case sn of
                         None \<Rightarrow> (None, n2)
                       | Some snap \<Rightarrow>
                           let (e, sm') = sm_Restore (dep_sm d) (snap_Data snap) (n_sm n2)
                           in (e, n2\<lparr>n_sm := sm'\<rparr>))
                 in case rerr of
                      Some e \<Rightarrow> Inl (''Start: restore snapshot: '' @ e)
                    | None \<Rightarrow>
                        case listenError of
                          Some e \<Rightarrow> Inl (''Start: listen: '' @ e)
                        | None \<Rightarrow> Inr (if cfg_Peers (n_cfg n3) = [] then n3\<lparr>n_connected := True\<rparr> else n3))"

definition Stop :: "('sm, 'st) raft_node \<Rightarrow> ('sm, 'st) raft_node" where
  "Stop n = (if n_stopped n then n else n\<lparr>n_stopped := True\<rparr>)"

section \<open>Persistence\<close>

definition persistState :: "('sm, 'st) deps \<Rightarrow> ('sm, 'st) raft_node \<Rightarrow> ('sm, 'st) raft_node" where
  "persistState d n =
     (let ps = getPersistentState (n_state n);
          (_, st1) = SaveState (dep_st d) ps (n_storage n);
          n1 = n\<lparr>n_storage := st1\<rparr>
      in case lastSnapshot (n_state n1) of
           None \<Rightarrow> n1
         | Some snap \<Rightarrow>
             if snap_LastIncludedIndex snap > n_lastPersistedSnapIdx n1 then
               let (e, st2) = SaveSnapshot (dep_st d) snap (n_storage n1);
                   n2 = n1\<lparr>n_storage := st2\<rparr>
               in case e of
                    None \<Rightarrow> n2\<lparr>n_lastPersistedSnapIdx := snap_LastIncludedIndex snap\<rparr>
                  | Some _ \<Rightarrow> n2
             else n1)"

section \<open>Snapshots\<close>

text \<open>
  The answer of \<open>snapshotLoop\<close> to a snapshot request: the application's bytes, or \<open>nil\<close>
  when the application failed.
\<close>

definition snapshotData :: "('sm, 'st) deps \<Rightarrow> ('sm, 'st) raft_node \<Rightarrow> bytes" where
  "snapshotData d n = (case sm_Snapshot (dep_sm d) (n_sm n) of Inl _ \<Rightarrow> [] | Inr b \<Rightarrow> b)"

text \<open>The other case of \<open>snapshotLoop\<close>: restore the application from an installed snapshot.\<close>

definition snapshotLoop_install :: "('sm, 'st) deps \<Rightarrow> ('sm, 'st) raft_node \<Rightarrow> ('sm, 'st) raft_node" where
  "snapshotLoop_install d n =
     (case snapshotInstallChan (n_state n) of
        [] \<Rightarrow> n
      | b # rest \<Rightarrow>
          let (_, sm') = sm_Restore (dep_sm d) b (n_sm n)
          in onState (\<lambda>s. s\<lparr>snapshotInstallChan := rest\<rparr>) (n\<lparr>n_sm := sm'\<rparr>))"

definition sendInstallSnapshotRPC :: "server_id \<Rightarrow> ('sm, 'st) raft_node \<Rightarrow> ('sm, 'st) node_result" where
  "sendInstallSnapshotRPC target n =
     (if lastSnapshot (n_state n) = None then Inr (n, [])
      else case prepareInstallSnapshotRPC (n_id n) (n_state n) of
        Inl p \<Rightarrow> Inl p
      | Inr args \<Rightarrow> Inr (n, [SendInstallSnapshot target args]))"

section \<open>Replication and election messages\<close>

definition sendAppendEntriesTo :: "server_id \<Rightarrow> ('sm, 'st) raft_node \<Rightarrow> ('sm, 'st) node_result" where
  "sendAppendEntriesTo peer n =
     (let (args, s') = getAppendEntriesArgs peer (n_state n);
          n' = n\<lparr>n_state := s'\<rparr>
      in case args of
           None \<Rightarrow> sendInstallSnapshotRPC peer n'
         | Some a \<Rightarrow> Inr (n', [SendAppendEntries peer a]))"

fun sendAll :: "server_id list \<Rightarrow> ('sm, 'st) raft_node \<Rightarrow> ('sm, 'st) node_result" where
  "sendAll [] n = Inr (n, [])"
| "sendAll (p # ps) n = andThen (sendAppendEntriesTo p n) (sendAll ps)"

definition sendAppendEntriesRPCs :: "('sm, 'st) raft_node \<Rightarrow> ('sm, 'st) node_result" where
  "sendAppendEntriesRPCs n =
     andThen (sendAll (cfg_Peers (n_cfg n)) n)
       (\<lambda>n'. sendAll (getUnvotingServerIDs (n_state n')) n')"

definition sendRequestVoteRPCs :: "request_vote_args \<Rightarrow> ('sm, 'st) raft_node \<Rightarrow> ('sm, 'st) node_result" where
  "sendRequestVoteRPCs args n = Inr (n, map (\<lambda>p. SendRequestVote p args) (cfg_Peers (n_cfg n)))"

section \<open>Applying committed entries\<close>

text \<open>\<open>waitForConfigApplied\<close>: the goroutine waiting on \<open>ch\<close> answers its client.\<close>

definition waitForConfigApplied :: "nat \<Rightarrow> ('sm, 'st) raft_node \<Rightarrow> ('sm, 'st) raft_node \<times> node_output list" where
  "waitForConfigApplied ch n =
     (n\<lparr>n_waiting := filter (\<lambda>e. ce_chanApplied e \<noteq> ch) (n_waiting n)\<rparr>,
      map (\<lambda>e. ReplyConfig (ce_resultCh e)
                 \<lparr>arr_Success = True, arr_LeaderID = currentLeader (n_state n)\<rparr>)
        (filter (\<lambda>e. ce_chanApplied e = ch) (n_waiting n)))"

definition applyToStateMachine ::
  "('sm, 'st) deps \<Rightarrow> raft_log \<Rightarrow> ('sm, 'st) raft_node \<Rightarrow> ('sm, 'st) raft_node" where
  "applyToStateMachine d entry n =
     (if rl_Type entry = LogCommand then
        let (_, sm') = sm_Apply (dep_sm d) (rl_Data entry) (n_sm n);
            n1 = n\<lparr>n_sm := sm'\<rparr>
        in if rl_ClientID entry \<noteq> '''' \<and> rl_SeqNum entry > 0
           then onState (setClientLastSeq (rl_ClientID entry) (rl_SeqNum entry)) n1 else n1
      else n)"

definition signalPendingCommand :: "raft_log \<Rightarrow> ('sm, 'st) raft_node \<Rightarrow> ('sm, 'st) raft_node \<times> node_output list" where
  "signalPendingCommand entry n =
     (case map_of (n_pendingCommands n) (rl_Index entry) of
        Some ch \<Rightarrow> (n\<lparr>n_pendingCommands := mdel (rl_Index entry) (n_pendingCommands n)\<rparr>,
                    [ReplyApply ch \<lparr>ar_Success = True, ar_LeaderID = n_id n\<rparr>])
      | None \<Rightarrow> (n, []))"

definition signalPendingConfig :: "raft_log \<Rightarrow> ('sm, 'st) raft_node \<Rightarrow> ('sm, 'st) raft_node \<times> node_output list" where
  "signalPendingConfig entry n =
     (if rl_Type entry = LogConfiguration then
        let n1 = onState unlockNextConfiguration n
        in case map_of (n_pendingConfigApplied n1) (rl_Index entry) of
             Some ch \<Rightarrow> waitForConfigApplied ch
                (n1\<lparr>n_pendingConfigApplied := mdel (rl_Index entry) (n_pendingConfigApplied n1)\<rparr>)
           | None \<Rightarrow> (n1, [])
      else (n, []))"

definition applyLog ::
  "('sm, 'st) deps \<Rightarrow> raft_log \<Rightarrow> ('sm, 'st) raft_node \<Rightarrow> ('sm, 'st) raft_node \<times> node_output list" where
  "applyLog d entry n =
     (let n1 = n\<lparr>n_metrics := recordCommit (n_metrics n)\<rparr>;
          n2 = applyToStateMachine d entry n1
      in if role (n_state n2) = Leader then
           let (n3, o3) = signalPendingCommand entry n2;
               (n4, o4) = signalPendingConfig entry n3
           in (n4, o3 @ o4)
         else (n2, []))"

text \<open>
  The loop of \<open>checkLogsToApply\<close> with fuel; \<open>checkLogsToApply_exits\<close> shows that one more
  than the number of committed and not yet applied indices is enough to reach the
  loop's own exit.
\<close>

fun checkLogs_loop ::
  "nat \<Rightarrow> ('sm, 'st) deps \<Rightarrow> ('sm, 'st) raft_node \<Rightarrow> ('sm, 'st) raft_node \<times> node_output list" where
  "checkLogs_loop 0 d n = (n, [])"
| "checkLogs_loop (Suc fuel) d n =
     (let (arrIdx, s') = updateLastApplied (n_state n)
      in if arrIdx < 0 then (n\<lparr>n_state := s'\<rparr>, [])
         else let (n2, o2) = applyLog d (getLog (nat arrIdx) s') (n\<lparr>n_state := s'\<rparr>);
                  (n3, o3) = checkLogs_loop fuel d n2
              in (n3, o2 @ o3))"

definition checkLogsToApply ::
  "('sm, 'st) deps \<Rightarrow> ('sm, 'st) raft_node \<Rightarrow> ('sm, 'st) raft_node \<times> node_output list" where
  "checkLogsToApply d n =
     checkLogs_loop (Suc (nat (commitIndex (n_state n) - lastApplied (n_state n)))) d n"

section \<open>Membership\<close>

text \<open>Register the started change under its log index and let a goroutine wait for it.\<close>

definition trackConfig :: "config_entry \<Rightarrow> ('sm, 'st) raft_node \<Rightarrow> ('sm, 'st) raft_node" where
  "trackConfig entry n =
     (let logIdx = lastConfigLogIndex (n_state n)
      in n\<lparr>n_pendingConfigApplied := mput logIdx (ce_chanApplied entry) (n_pendingConfigApplied n),
           n_waiting := n_waiting n @ [entry]\<rparr>)"

definition startedConfig ::
  "go_panic + (bool \<times> config_entry) \<times> node_state \<Rightarrow> ('sm, 'st) raft_node \<Rightarrow> ('sm, 'st) node_result" where
  "startedConfig r n =
     (case r of
        Inl p \<Rightarrow> Inl p
      | Inr ((started, entry), s') \<Rightarrow>
          let n' = n\<lparr>n_state := s'\<rparr> in Inr (if started then trackConfig entry n' else n', []))"

definition checkConfigurationsToStart ::
  "('sm, 'st) deps \<Rightarrow> ('sm, 'st) raft_node \<Rightarrow> ('sm, 'st) node_result" where
  "checkConfigurationsToStart d n =
     startedConfig (handleNextConfigurationChange (dep_sha d) (n_state n)) n"

definition promoteUnvotingServer ::
  "('sm, 'st) deps \<Rightarrow> server_id \<Rightarrow> ('sm, 'st) raft_node \<Rightarrow> ('sm, 'st) node_result" where
  "promoteUnvotingServer d sid n =
     (let ((entry, found), s') = removeUnvotingServer sid (n_state n);
          n' = n\<lparr>n_state := s'\<rparr>
      in if \<not> found then Inr (n', [])
         else startedConfig (handleConfigurationRPC (dep_sha d) entry (n_state n')) n')"

definition handleConfigurationMessage ::
  "('sm, 'st) deps \<Rightarrow> config_entry \<Rightarrow> ('sm, 'st) raft_node \<Rightarrow> ('sm, 'st) node_result" where
  "handleConfigurationMessage d req n =
     (if role (n_state n) \<noteq> Leader then
        Inr (n, [ReplyConfig (ce_resultCh req)
                   \<lparr>arr_Success = False, arr_LeaderID = currentLeader (n_state n)\<rparr>])
      else if cc_Add (ce_msg req) then
        andThen (Inr (n, [ConnectPeer (cc_Server (ce_msg req))]))
          (\<lambda>n. sendAppendEntriesRPCs
                 (onState (addUnvotingServer req)
                   (onState (addNewServer (cc_Server (ce_msg req))) n)))
      else startedConfig (handleConfigurationRPC (dep_sha d) req (n_state n)) n)"

section \<open>Client commands\<close>

definition handleApplyRequest ::
  "('sm, 'st) deps \<Rightarrow> apply_args \<Rightarrow> nat \<Rightarrow> ('sm, 'st) raft_node \<Rightarrow> ('sm, 'st) node_result" where
  "handleApplyRequest d args resultCh n =
     (if role (n_state n) \<noteq> Leader then
        Inr (n, [ReplyApply resultCh \<lparr>ar_Success = False, ar_LeaderID = currentLeader (n_state n)\<rparr>])
      else if aa_SeqNum args > 0 \<and> aa_SeqNum args \<le> getClientLastSeq (aa_ClientID args) (n_state n) then
        Inr (n, [ReplyApply resultCh \<lparr>ar_Success = True, ar_LeaderID = n_id n\<rparr>])
      else
        let (logIdx, s') = addCommandLog (dep_sha d) (snapshotData d n) (n_id n)
                             (aa_ClientID args) (aa_SeqNum args) (aa_Command args) (n_state n);
            n1 = n\<lparr>n_state := s'\<rparr>
        in if logIdx < 0 then
             Inr (n1, [ReplyApply resultCh \<lparr>ar_Success = False, ar_LeaderID = n_id n\<rparr>])
           else
             let n2 = persistState d n1;
                 n3 = n2\<lparr>n_pendingCommands := mput logIdx resultCh (n_pendingCommands n2)\<rparr>
             in sendAppendEntriesRPCs n3)"

section \<open>Replies from peers\<close>

definition handleAppendEntriesReply ::
  "('sm, 'st) deps \<Rightarrow> append_entries_response \<Rightarrow> ('sm, 'st) raft_node \<Rightarrow> ('sm, 'st) node_result" where
  "handleAppendEntriesReply d resp n =
     (if role (n_state n) \<noteq> Leader then Inr (n, [])
      else
        let ((matchIdx, needSnapshot), s') = handleAppendEntriesResponse (n_id n) resp (n_state n)
        in andThen (if needSnapshot then sendInstallSnapshotRPC (aer_ID resp) (n\<lparr>n_state := s'\<rparr>)
                    else Inr (n\<lparr>n_state := s'\<rparr>, []))
             (\<lambda>n2. if matchIdx \<ge> 0 \<and> matchIdx \<ge> commitIndex (n_state n2)
                   then promoteUnvotingServer d (aer_ID resp) n2 else Inr (n2, [])))"

definition handleInstallSnapshotReply ::
  "('sm, 'st) deps \<Rightarrow> install_snapshot_response \<Rightarrow> ('sm, 'st) raft_node \<Rightarrow> ('sm, 'st) node_result" where
  "handleInstallSnapshotReply d resp n =
     (if role (n_state n) \<noteq> Leader then Inr (n, [])
      else
        let (matchIdx, s') = handleInstallSnapshotResponse (n_id n) resp (n_state n);
            n1 = n\<lparr>n_state := s'\<rparr>
        in if matchIdx \<ge> 0 \<and> matchIdx \<ge> commitIndex (n_state n1)
           then promoteUnvotingServer d (isr_ID resp) n1 else Inr (n1, []))"

section \<open>The run loop\<close>

text \<open>
  What the \<open>select\<close> of an iteration received. A role that does not listen to an event
  (a follower to the heartbeat timer, a leader to the election timer) ignores it.
\<close>

datatype run_event =
    AEArgs append_entries_args
  | RVArgs request_vote_args
  | ISArgs install_snapshot_args
  | Connected
  | TimerTick
  | VoteResponse request_vote_response
  | HeartbeatTick
  | StopSignal

text \<open>The three RPC cases, which the three roles share: handle, persist, then reply.\<close>

definition serveAppendEntries ::
  "('sm, 'st) deps \<Rightarrow> append_entries_args \<Rightarrow> ('sm, 'st) raft_node \<Rightarrow> ('sm, 'st) node_result" where
  "serveAppendEntries d args n =
     (let (resp, s') = handleAppendEntries (dep_sha d) (snapshotData d n) (n_id n) args (n_state n)
      in Inr (persistState d (n\<lparr>n_state := s'\<rparr>), [ReplyAppendEntries resp]))"

definition serveRequestVote ::
  "('sm, 'st) deps \<Rightarrow> request_vote_args \<Rightarrow> ('sm, 'st) raft_node \<Rightarrow> ('sm, 'st) node_result" where
  "serveRequestVote d args n =
     (let (resp, s') = handleRequestToVote (n_id n) args (n_state n)
      in Inr (persistState d (n\<lparr>n_state := s'\<rparr>), [ReplyRequestVote resp]))"

definition serveInstallSnapshot ::
  "('sm, 'st) deps \<Rightarrow> install_snapshot_args \<Rightarrow> ('sm, 'st) raft_node \<Rightarrow> ('sm, 'st) node_result" where
  "serveInstallSnapshot d args n =
     (let (resp, s') = handleInstallSnapshotRequest (n_id n) args (n_state n)
      in Inr (persistState d (n\<lparr>n_state := s'\<rparr>), [ReplyInstallSnapshot resp]))"

text \<open>Receiving from \<open>timer.C\<close> takes the tick out of its channel.\<close>

definition consumeTick :: "node_state \<Rightarrow> node_state" where
  "consumeTick s = s\<lparr>electionTimer :=
     map_option (\<lambda>t. t\<lparr>tm_Active := False, tm_Tick := False\<rparr>) (electionTimer s)\<rparr>"

definition becomeLeader ::
  "('sm, 'st) deps \<Rightarrow> node_env \<Rightarrow> ('sm, 'st) raft_node \<Rightarrow> ('sm, 'st) raft_node" where
  "becomeLeader d env n =
     (let n1 = onState (winElection (dep_sha d) (n_id n)) n;
          n2 = n1\<lparr>n_metrics := recordElection (env_now env - n_electionStarted n1) (n_metrics n1)\<rparr>;
          n3 = n2\<lparr>n_metrics := recordLeaderStart (env_now env) (n_metrics n2)\<rparr>
      in persistState d n3)"

definition beginElection ::
  "('sm, 'st) deps \<Rightarrow> node_env \<Rightarrow> ('sm, 'st) raft_node \<Rightarrow> ('sm, 'st) raft_node" where
  "beginElection d env n =
     persistState d (onState (startElection (n_id n)) (n\<lparr>n_electionStarted := env_now env\<rparr>))"

definition handleFollower ::
  "('sm, 'st) deps \<Rightarrow> node_env \<Rightarrow> run_event \<Rightarrow> ('sm, 'st) raft_node \<Rightarrow> ('sm, 'st) node_result" where
  "handleFollower d env ev n0 =
     (case checkElectionTimeout (env_rand env) (n_state n0) of
        Inl p \<Rightarrow> Inl p
      | Inr s0 \<Rightarrow>
          let n = n0\<lparr>n_state := s0\<rparr>
          in case ev of
               AEArgs args \<Rightarrow> serveAppendEntries d args (onState stopElectionTimeout n)
             | RVArgs args \<Rightarrow> serveRequestVote d args (onState stopElectionTimeout n)
             | ISArgs args \<Rightarrow> serveInstallSnapshot d args n
             | Connected \<Rightarrow> Inr (n\<lparr>n_connected := True\<rparr>, [])
             | TimerTick \<Rightarrow>
                 let n1 = onState (stopElectionTimeout \<circ> consumeTick) n
                 in if \<not> n_connected n1 then Inr (n1, [])
                    else let n2 = beginElection d env n1
                         in if cfg_Peers (n_cfg n2) = [] then Inr (becomeLeader d env n2, [])
                            else sendRequestVoteRPCs (prepareRequestVoteRPC (n_id n2) (n_state n2)) n2
             | VoteResponse _ \<Rightarrow> Inr (n, [])
             | HeartbeatTick \<Rightarrow> Inr (n, [])
             | StopSignal \<Rightarrow> Inr (n, []))"

definition handleCandidate ::
  "('sm, 'st) deps \<Rightarrow> node_env \<Rightarrow> run_event \<Rightarrow> ('sm, 'st) raft_node \<Rightarrow> ('sm, 'st) node_result" where
  "handleCandidate d env ev n0 =
     (case checkElectionTimeout (env_rand env) (n_state n0) of
        Inl p \<Rightarrow> Inl p
      | Inr s0 \<Rightarrow>
          let n = n0\<lparr>n_state := s0\<rparr>
          in case ev of
               AEArgs args \<Rightarrow> serveAppendEntries d args n
             | RVArgs args \<Rightarrow> serveRequestVote d args n
             | ISArgs args \<Rightarrow> serveInstallSnapshot d args n
             | VoteResponse resp \<Rightarrow>
                 let (won, s') = updateElection resp (n_state n);
                     n1 = n\<lparr>n_state := s'\<rparr>
                 in if won then sendAppendEntriesRPCs (becomeLeader d env n1) else Inr (n1, [])
             | TimerTick \<Rightarrow>
                 let n2 = beginElection d env (onState (stopElectionTimeout \<circ> consumeTick) n)
                 in sendRequestVoteRPCs (prepareRequestVoteRPC (n_id n2) (n_state n2)) n2
             | Connected \<Rightarrow> Inr (n\<lparr>n_connected := True\<rparr>, [])
             | HeartbeatTick \<Rightarrow> Inr (n, [])
             | StopSignal \<Rightarrow> Inr (n, []))"

definition handleLeader ::
  "('sm, 'st) deps \<Rightarrow> run_event \<Rightarrow> ('sm, 'st) raft_node \<Rightarrow> ('sm, 'st) node_result" where
  "handleLeader d ev n =
     (let commits = (\<lambda>r. andThen r (\<lambda>n'. Inr (onState checkCommits n', [])))
      in case ev of
           AEArgs args \<Rightarrow> commits (serveAppendEntries d args n)
         | RVArgs args \<Rightarrow> commits (serveRequestVote d args n)
         | VoteResponse _ \<Rightarrow> commits (Inr (n, []))
         | ISArgs args \<Rightarrow> commits (serveInstallSnapshot d args n)
         | Connected \<Rightarrow> commits (Inr (n\<lparr>n_connected := True\<rparr>, []))
         | HeartbeatTick \<Rightarrow> commits (sendAppendEntriesRPCs n)
         | TimerTick \<Rightarrow> Inr (n, [])
         | StopSignal \<Rightarrow> Inr (n, []))"

text \<open>One iteration of \<open>run\<close>; \<open>ev\<close> is what the role's \<open>select\<close> received.\<close>

definition run_iteration ::
  "('sm, 'st) deps \<Rightarrow> node_env \<Rightarrow> run_event \<Rightarrow> ('sm, 'st) raft_node \<Rightarrow> ('sm, 'st) node_result" where
  "run_iteration d env ev n =
     (if n_stopped n then Inr (n, [])
      else
        andThen (andThen (Inr (checkLogsToApply d n)) (checkConfigurationsToStart d))
          (\<lambda>n2. case role (n_state n2) of
                  Follower \<Rightarrow> handleFollower d env ev n2
                | Candidate \<Rightarrow> handleCandidate d env ev n2
                | Leader \<Rightarrow> handleLeader d ev n2))"

end
