(* ===== verification/Raft_Runtime.thy ===== *)
theory Raft_Runtime
  imports Raft_Node
begin

text \<open>
  What one iteration of a goroutine guarantees: no iteration panics, the node invariant
  survives, term and vote are on stable storage before a reply leaves the node, a
  restart recovers them, and committed entries reach the state machine in log order,
  each once.
\<close>

section \<open>Frames\<close>

lemma onState_simps [simp]:
  "n_state (onState f n) = f (n_state n)" "n_cfg (onState f n) = n_cfg n" "n_sm (onState f n) = n_sm n"
  "n_storage (onState f n) = n_storage n" "n_connected (onState f n) = n_connected n"
  "n_metrics (onState f n) = n_metrics n" "n_pendingCommands (onState f n) = n_pendingCommands n"
  "n_stopped (onState f n) = n_stopped n" "n_waiting (onState f n) = n_waiting n"
  "n_pendingConfigApplied (onState f n) = n_pendingConfigApplied n"
  "n_lastPersistedSnapIdx (onState f n) = n_lastPersistedSnapIdx n"
  by (simp_all add: onState_def)

lemma persistState_frame [simp]:
  "n_state (persistState d n) = n_state n" "n_cfg (persistState d n) = n_cfg n"
  "n_sm (persistState d n) = n_sm n" "n_connected (persistState d n) = n_connected n"
  "n_stopped (persistState d n) = n_stopped n" "n_metrics (persistState d n) = n_metrics n"
  "n_pendingCommands (persistState d n) = n_pendingCommands n"
  "n_pendingConfigApplied (persistState d n) = n_pendingConfigApplied n"
  by (simp_all add: persistState_def Let_def split: option.splits prod.splits)

lemma andThen_Inr [simp]:
  "andThen (Inr (n, out)) f = (case f n of Inl p \<Rightarrow> Inl p | Inr (n', out') \<Rightarrow> Inr (n', out @ out'))"
  by (simp add: andThen_def)

text \<open>A property of the node that both parts keep is kept by their composition.\<close>

definition keeps :: "(('sm, 'st) raft_node \<Rightarrow> bool) \<Rightarrow> ('sm, 'st) node_result \<Rightarrow> bool" where
  "keeps P r \<longleftrightarrow> (case r of Inl _ \<Rightarrow> False | Inr (n, _) \<Rightarrow> P n)"

lemma keeps_Inr [simp]: "keeps P (Inr (n, out)) = P n"
  by (simp add: keeps_def)

lemma keeps_andThen:
  "keeps P r \<Longrightarrow> (\<And>n. P n \<Longrightarrow> keeps Q (f n)) \<Longrightarrow> keeps Q (andThen r f)"
  by (fastforce simp: keeps_def andThen_def split: sum.splits prod.splits)

lemma keeps_mono: "keeps P r \<Longrightarrow> (\<And>n. P n \<Longrightarrow> Q n) \<Longrightarrow> keeps Q r"
  by (auto simp: keeps_def split: sum.splits prod.splits)

lemma keepsD: "keeps P r \<Longrightarrow> r = Inr (n, out) \<Longrightarrow> P n"
  by simp

lemma keeps_no_panic: "keeps P r \<Longrightarrow> r \<noteq> Inl p"
  by (auto simp: keeps_def)

section \<open>Sending\<close>

text \<open>What sending changes of a node: only \<open>lastSentLogIndex\<close>.\<close>

definition same_but_sent :: "node_state \<Rightarrow> node_state \<Rightarrow> bool" where
  "same_but_sent s s' \<longleftrightarrow> (\<exists>m. s' = s\<lparr>lastSentLogIndex := m\<rparr> \<and> (m_ok (lastSentLogIndex s) \<longrightarrow> m_ok m))"

lemma same_but_sent_refl [simp]: "same_but_sent s s"
  unfolding same_but_sent_def by (rule exI [of _ "lastSentLogIndex s"]) simp

lemma same_but_sent_trans: "same_but_sent a b \<Longrightarrow> same_but_sent b c \<Longrightarrow> same_but_sent a c"
  by (auto simp: same_but_sent_def)

lemma same_but_sent_inv: "same_but_sent s s' \<Longrightarrow> node_inv s \<Longrightarrow> node_inv s'"
  using node_inv_m_ok(3) by (auto simp: same_but_sent_def)

lemma getAppendEntriesArgs_snd:
  obtains "snd (getAppendEntriesArgs p s) = s"
  | k v where "snd (getAppendEntriesArgs p s) = s\<lparr>lastSentLogIndex := mput k v (lastSentLogIndex s)\<rparr>"
proof -
  obtain li lt where l: "getLastLogIdxTerm s = (li, lt)" by fastforce
  obtain fd ai where f: "findArrayIdxByLogIndex s (mget 0 (nextIndex s) p) = (fd, ai)" by fastforce
  obtain pI pT where q: "prevLogOf s ai = (pI, pT)" by fastforce
  note r = getAppendEntriesArgs_def Let_def l f q
  show thesis
  proof (cases "\<not> fd \<and> mget 0 (nextIndex s) p \<le> li")
    case True
    then show thesis by (intro that(1)) (simp add: r)
  next
    case False
    let ?es = "if ai \<ge> 0 \<and> ai < int (nextLogIdx s) then map (logs s) [nat ai..<nextLogIdx s] else []"
    let ?v = "if length ?es > 0 then rl_Index (last ?es) else wrap64 (mget 0 (nextIndex s) p - 1)"
    have "snd (getAppendEntriesArgs p s) = s\<lparr>lastSentLogIndex := mput p ?v (lastSentLogIndex s)\<rparr>"
      using False unfolding r by (simp only: if_not_P [OF False] prod.case) (simp add: q)
    then show thesis by (rule that(2))
  qed
qed

lemma getAppendEntriesArgs_sent: "same_but_sent s (snd (getAppendEntriesArgs p s))"
proof (cases rule: getAppendEntriesArgs_snd [of p s])
  case (2 k v)
  show ?thesis unfolding 2 same_but_sent_def
    by (rule exI [of _ "mput k v (lastSentLogIndex s)"]) (simp add: gm.invar_put)
qed simp

definition sent_from :: "('sm, 'st) raft_node \<Rightarrow> ('sm, 'st) raft_node \<Rightarrow> bool" where
  "sent_from n n' \<longleftrightarrow> (\<exists>s'. n' = n\<lparr>n_state := s'\<rparr> \<and> same_but_sent (n_state n) s')"

lemma sent_from_refl [simp]: "sent_from n n"
  unfolding sent_from_def by (rule exI [of _ "n_state n"]) simp

lemma sent_from_trans:
  assumes "sent_from a b" "sent_from b c" shows "sent_from a c"
proof -
  obtain s where s: "b = a\<lparr>n_state := s\<rparr>" "same_but_sent (n_state a) s"
    using assms(1) unfolding sent_from_def by blast
  obtain t where t: "c = b\<lparr>n_state := t\<rparr>" "same_but_sent (n_state b) t"
    using assms(2) unfolding sent_from_def by blast
  have "same_but_sent (n_state a) t" using same_but_sent_trans s(2) t(2) by (simp add: s(1))
  then show ?thesis unfolding sent_from_def by (intro exI [of _ t]) (simp add: s(1) t(1))
qed

lemma sendInstallSnapshotRPC_sent: "keeps (sent_from n) (sendInstallSnapshotRPC p n)"
  by (auto simp: sendInstallSnapshotRPC_def prepareInstallSnapshotRPC_def)

lemma sendAppendEntriesTo_sent: "keeps (sent_from n) (sendAppendEntriesTo p n)"
proof -
  obtain a s' where g: "getAppendEntriesArgs p (n_state n) = (a, s')" by fastforce
  then have "same_but_sent (n_state n) s'" using getAppendEntriesArgs_sent [of "n_state n" p] by simp
  then have "sent_from n (n\<lparr>n_state := s'\<rparr>)" by (auto simp: sent_from_def)
  then have "keeps (sent_from n) (sendInstallSnapshotRPC p (n\<lparr>n_state := s'\<rparr>))"
    by (rule keeps_mono [OF sendInstallSnapshotRPC_sent sent_from_trans])
  then show ?thesis using \<open>sent_from n _\<close> by (cases a) (simp_all add: sendAppendEntriesTo_def g)
qed

lemma sendAll_sent: "keeps (sent_from n) (sendAll ps n)"
proof (induction ps arbitrary: n)
  case (Cons p ps)
  have "keeps (sent_from n) (sendAll ps m)" if "sent_from n m" for m
    by (rule keeps_mono [OF Cons.IH sent_from_trans [OF that]])
  then show ?case unfolding sendAll.simps by (rule keeps_andThen [OF sendAppendEntriesTo_sent])
qed simp

lemma sendAppendEntriesRPCs_sent: "keeps (sent_from n) (sendAppendEntriesRPCs n)"
  unfolding sendAppendEntriesRPCs_def
  by (rule keeps_andThen [OF sendAll_sent]) (blast intro: keeps_mono [OF sendAll_sent] sent_from_trans)

section \<open>Applying committed entries\<close>

text \<open>The entries that are committed, held, and not yet applied, in log order.\<close>

definition due :: "node_state \<Rightarrow> raft_log list" where
  "due s = drop (nat (lastApplied s - base_index s)) (take (nat (commitIndex s - base_index s)) (live_log s))"

text \<open>What applying entries in order does to the application and to the client table.\<close>

definition sm_step :: "('sm, 'st) deps \<Rightarrow> raft_log \<Rightarrow> 'sm \<Rightarrow> 'sm" where
  "sm_step d e sm = (if rl_Type e = LogCommand then snd (sm_Apply (dep_sm d) (rl_Data e) sm) else sm)"

definition seq_step :: "raft_log \<Rightarrow> (server_id, int) gomap \<Rightarrow> (server_id, int) gomap" where
  "seq_step e m =
     (if rl_Type e = LogCommand \<and> rl_ClientID e \<noteq> '''' \<and> rl_SeqNum e > 0
      then mput (rl_ClientID e) (rl_SeqNum e) m else m)"

lemma m_ok_seq_step: "m_ok m \<Longrightarrow> m_ok (seq_step e m)"
  by (simp add: seq_step_def gm.invar_put)

text \<open>Applying one entry changes only the client table and the membership lock of the state.\<close>

definition applied_from :: "raft_log \<Rightarrow> node_state \<Rightarrow> node_state \<Rightarrow> bool" where
  "applied_from e s s' \<longleftrightarrow>
     (\<exists>b. s' = s\<lparr>clientLastSeq := seq_step e (clientLastSeq s), inConfigChange := b\<rparr>)"

lemma applied_from_frame:
  assumes "applied_from e s s'"
  shows "live_log s' = live_log s" "base_index s' = base_index s" "commitIndex s' = commitIndex s"
    "lastApplied s' = lastApplied s" "role s' = role s" "currentTerm s' = currentTerm s"
    "votedFor s' = votedFor s" "last_index s' = last_index s" "electionMinMs s' = electionMinMs s"
    "electionMaxMs s' = electionMaxMs s" "lastSnapshot s' = lastSnapshot s"
    "serverConfig s' = serverConfig s" "electionVotes s' = electionVotes s"
    "clientLastSeq s' = seq_step e (clientLastSeq s)"
  using assms by (auto simp: applied_from_def live_log_def base_index_def last_index_def)

lemma applied_from_inv: "applied_from e s s' \<Longrightarrow> node_inv s \<Longrightarrow> node_inv s'"
  using m_ok_seq_step [OF node_inv_m_ok(7)] by (auto simp: applied_from_def)

lemma applyToStateMachine_effect:
  "n_sm (applyToStateMachine d e n) = sm_step d e (n_sm n)"
  "n_state (applyToStateMachine d e n) = (n_state n)\<lparr>clientLastSeq := seq_step e (clientLastSeq (n_state n))\<rparr>"
  "n_cfg (applyToStateMachine d e n) = n_cfg n" "n_storage (applyToStateMachine d e n) = n_storage n"
  "n_pendingCommands (applyToStateMachine d e n) = n_pendingCommands n"
  "n_stopped (applyToStateMachine d e n) = n_stopped n"
  by (simp_all add: applyToStateMachine_def sm_step_def seq_step_def setClientLastSeq_def Let_def split: prod.splits)

lemma signalPendingCommand_frame [simp]:
  "n_sm (fst (signalPendingCommand e n)) = n_sm n" "n_state (fst (signalPendingCommand e n)) = n_state n"
  "n_cfg (fst (signalPendingCommand e n)) = n_cfg n" "n_storage (fst (signalPendingCommand e n)) = n_storage n"
  "n_stopped (fst (signalPendingCommand e n)) = n_stopped n"
  by (simp_all add: signalPendingCommand_def split: option.splits)

lemma signalPendingConfig_frame [simp]:
  "n_sm (fst (signalPendingConfig e n)) = n_sm n"
  "n_state (fst (signalPendingConfig e n)) = n_state n \<or>
   n_state (fst (signalPendingConfig e n)) = (n_state n)\<lparr>inConfigChange := False\<rparr>"
  "n_cfg (fst (signalPendingConfig e n)) = n_cfg n" "n_storage (fst (signalPendingConfig e n)) = n_storage n"
  "n_pendingCommands (fst (signalPendingConfig e n)) = n_pendingCommands n"
  "n_stopped (fst (signalPendingConfig e n)) = n_stopped n"
  by (simp_all add: signalPendingConfig_def waitForConfigApplied_def unlockNextConfiguration_def
        Let_def split: option.splits)

lemma applyLog_effect:
  assumes a: "applyLog d e n = (n', out)"
  shows "applied_from e (n_state n) (n_state n')" "n_sm n' = sm_step d e (n_sm n)"
    "n_cfg n' = n_cfg n" "n_storage n' = n_storage n" "n_stopped n' = n_stopped n"
proof -
  let ?n2 = "applyToStateMachine d e (n\<lparr>n_metrics := recordCommit (n_metrics n)\<rparr>)"
  let ?n3 = "fst (signalPendingCommand e ?n2)"
  have n': "n' = ?n2 \<or> n' = fst (signalPendingConfig e ?n3)"
    using a by (auto simp: applyLog_def Let_def split: if_splits prod.splits)
  have s2: "n_state ?n2 = (n_state n)\<lparr>clientLastSeq := seq_step e (clientLastSeq (n_state n))\<rparr>"
    by (simp add: applyToStateMachine_effect)
  have "n_state n' = n_state ?n2 \<or> n_state n' = (n_state ?n2)\<lparr>inConfigChange := False\<rparr>"
    using n' signalPendingConfig_frame(2) [of e ?n3] by auto
  then show "applied_from e (n_state n) (n_state n')"
  proof
    assume "n_state n' = n_state ?n2"
    then show ?thesis unfolding applied_from_def s2
      by (intro exI [of _ "inConfigChange (n_state n)"]) simp
  next
    assume "n_state n' = (n_state ?n2)\<lparr>inConfigChange := False\<rparr>"
    then show ?thesis unfolding applied_from_def s2 by (intro exI [of _ False]) simp
  qed
  show "n_sm n' = sm_step d e (n_sm n)" "n_cfg n' = n_cfg n" "n_storage n' = n_storage n"
    "n_stopped n' = n_stopped n"
    using n' by (auto simp: applyToStateMachine_effect)
qed

text \<open>Who is answered: the client whose pending command is this entry, on a leader only.\<close>

lemma applyLog_replies:
  assumes a: "applyLog d e n = (n', out)"
  shows "ReplyApply ch r \<in> set out \<longleftrightarrow> role (n_state n) = Leader \<and>
      map_of (n_pendingCommands n) (rl_Index e) = Some ch \<and> r = \<lparr>ar_Success = True, ar_LeaderID = n_id n\<rparr>"
    and "role (n_state n) = Leader \<Longrightarrow> n_pendingCommands n' = mdel (rl_Index e) (n_pendingCommands n)"
    and "role (n_state n) \<noteq> Leader \<Longrightarrow> n_pendingCommands n' = n_pendingCommands n"
proof -
  let ?n2 = "applyToStateMachine d e (n\<lparr>n_metrics := recordCommit (n_metrics n)\<rparr>)"
  let ?r3 = "signalPendingCommand e ?n2"
  have r2: "role (n_state ?n2) = role (n_state n)" by (simp add: applyToStateMachine_effect)
  have lead: "n' = fst (signalPendingConfig e (fst ?r3))" "out = snd ?r3 @ snd (signalPendingConfig e (fst ?r3))"
    if "role (n_state n) = Leader"
    using a that r2 by (auto simp: applyLog_def Let_def split: prod.splits)
  have none: "n' = ?n2" "out = []" if "role (n_state n) \<noteq> Leader"
    using a that r2 by (auto simp: applyLog_def Let_def split: prod.splits)
  have cfg: "ReplyApply ch r \<notin> set (snd (signalPendingConfig e m))" for m :: "('a, 'b) raft_node"
    by (auto simp: signalPendingConfig_def waitForConfigApplied_def Let_def split: option.splits)
  have "mdel k m = m" if "map_of m k = None" for k and m :: "(int, nat) gomap"
    using that by (auto simp: mdel_def map_of_eq_None_iff intro!: filter_True)
  then have pend: "n_pendingCommands (fst ?r3) = mdel (rl_Index e) (n_pendingCommands n)"
    by (simp add: signalPendingCommand_def applyToStateMachine_effect split: option.splits)
  have out3: "ReplyApply ch r \<in> set (snd ?r3) \<longleftrightarrow> map_of (n_pendingCommands n) (rl_Index e) = Some ch \<and>
      r = \<lparr>ar_Success = True, ar_LeaderID = n_id n\<rparr>"
    by (auto simp: signalPendingCommand_def applyToStateMachine_effect split: option.splits)
  show "ReplyApply ch r \<in> set out \<longleftrightarrow> role (n_state n) = Leader \<and>
      map_of (n_pendingCommands n) (rl_Index e) = Some ch \<and> r = \<lparr>ar_Success = True, ar_LeaderID = n_id n\<rparr>"
    using lead(2) none(2) cfg out3 by (cases "role (n_state n) = Leader") auto
  show "role (n_state n) = Leader \<Longrightarrow> n_pendingCommands n' = mdel (rl_Index e) (n_pendingCommands n)"
    using lead(1) pend by simp
  show "role (n_state n) \<noteq> Leader \<Longrightarrow> n_pendingCommands n' = n_pendingCommands n"
    using none(1) by (simp add: applyToStateMachine_effect)
qed

lemma updateLastApplied_due:
  assumes inv: "node_inv s" and max: "commitIndex s \<le> max_int64"
  obtains (stop) "due s = []" "updateLastApplied s = (- 1, s)"
  | (step) k where "k < nextLogIdx s" "rl_Index (logs s k) = lastApplied s + 1"
      "updateLastApplied s = (int k, s\<lparr>lastApplied := lastApplied s + 1\<rparr>)"
      "due s = logs s k # due (s\<lparr>lastApplied := lastApplied s + 1\<rparr>)"
      "node_inv (s\<lparr>lastApplied := lastApplied s + 1\<rparr>)" "lastApplied s < commitIndex s"
proof -
  have wf: "log_wf s" "base_index s \<le> lastApplied s" "lastApplied s \<le> commitIndex s"
    using inv by (auto simp: node_inv_def apply_wf_def)
  show thesis
  proof (cases "lastApplied s < max_int64")
    case False
    then have "commitIndex s \<le> lastApplied s" using max by simp
    then show thesis using stop by (simp add: updateLastApplied_def due_def)
  next
    case True
    show thesis using inv True
    proof (cases rule: updateLastApplied_cases)
      case idle
      then show thesis using stop by (simp add: due_def)
    next
      case missing
      then show thesis using stop by (simp add: due_def last_index_def)
    next
      case (step k)
      let ?t = "s\<lparr>lastApplied := lastApplied s + 1\<rparr>" and ?L = "take (nat (commitIndex s - base_index s)) (live_log s)"
      have k: "nat (lastApplied s - base_index s) = k" "nat (lastApplied s + 1 - base_index s) = Suc k"
        "k < nat (commitIndex s - base_index s)"
        using step(1,3) by auto
      have "due s = ?L ! k # drop (Suc k) ?L"
        unfolding due_def k(1) using k(3) step(2) by (intro Cons_nth_drop_Suc [symmetric]) simp
      then have "due s = logs s k # due ?t"
        using k step(2) by (simp add: due_def base_index_def live_log_def)
      moreover have "rl_Index (logs s k) = lastApplied s + 1" using step(2,3) wf(1) by (simp add: log_wf_def)
      moreover have "node_inv ?t" using inv step(1) by (simp add: inv_defs)
      ultimately show thesis using that(2) step by blast
    qed
  qed
qed

text \<open>One round of the loop: it stops with nothing due, or applies the first due entry.\<close>

lemma checkLogs_cases:
  assumes inv: "node_inv (n_state n)" and max: "commitIndex (n_state n) \<le> max_int64"
  obtains (stop) "due (n_state n) = []" "\<And>fuel. checkLogs_loop (Suc fuel) d n = (n, [])"
  | (step) e s' n2 o2 where "due (n_state n) = e # due (n_state n2)"
      "s' = (n_state n)\<lparr>lastApplied := lastApplied (n_state n) + 1\<rparr>"
      "applyLog d e (n\<lparr>n_state := s'\<rparr>) = (n2, o2)" "node_inv (n_state n2)"
      "commitIndex (n_state n2) \<le> max_int64" "role (n_state n2) = role (n_state n)" "n_cfg n2 = n_cfg n"
      "\<And>fuel. checkLogs_loop (Suc fuel) d n =
         (let (n3, o3) = checkLogs_loop fuel d n2 in (n3, o2 @ o3))"
  using inv max
proof (cases rule: updateLastApplied_due)
  case stop
  then show thesis using that(1) by simp
next
  case (step k)
  let ?s' = "(n_state n)\<lparr>lastApplied := lastApplied (n_state n) + 1\<rparr>"
  obtain n2 o2 where a: "applyLog d (logs (n_state n) k) (n\<lparr>n_state := ?s'\<rparr>) = (n2, o2)" by fastforce
  note ef = applied_from_frame [OF applyLog_effect(1) [OF a]]
  have d2: "due (n_state n2) = due ?s'" using ef by (simp add: due_def)
  show thesis
  proof (rule that(2) [OF _ refl a])
    show "due (n_state n) = logs (n_state n) k # due (n_state n2)" using step(4) d2 by simp
    show "node_inv (n_state n2)" using applied_from_inv [OF applyLog_effect(1) [OF a]] step(5) by simp
    show "commitIndex (n_state n2) \<le> max_int64" "role (n_state n2) = role (n_state n)" "n_cfg n2 = n_cfg n"
      using ef max applyLog_effect(3) [OF a] by simp_all
    show "checkLogs_loop (Suc fuel) d n =
        (let (n3, o3) = checkLogs_loop fuel d n2 in (n3, o2 @ o3))" for fuel
      using step(3) a by (simp add: getLog_def)
  qed
qed

definition applied_all :: "('sm, 'st) deps \<Rightarrow> raft_log list \<Rightarrow> ('sm, 'st) raft_node \<Rightarrow> ('sm, 'st) raft_node \<Rightarrow> bool" where
  "applied_all d es n n' \<longleftrightarrow>
     n_sm n' = fold (sm_step d) es (n_sm n) \<and>
     clientLastSeq (n_state n') = fold seq_step es (clientLastSeq (n_state n)) \<and>
     lastApplied (n_state n') = lastApplied (n_state n) + int (length es) \<and>
     commitIndex (n_state n') = commitIndex (n_state n) \<and> live_log (n_state n') = live_log (n_state n) \<and>
     lastSnapshot (n_state n') = lastSnapshot (n_state n) \<and>
     currentTerm (n_state n') = currentTerm (n_state n) \<and> votedFor (n_state n') = votedFor (n_state n) \<and>
     role (n_state n') = role (n_state n) \<and> electionMinMs (n_state n') = electionMinMs (n_state n) \<and>
     electionMaxMs (n_state n') = electionMaxMs (n_state n) \<and> node_inv (n_state n') \<and>
     n_cfg n' = n_cfg n \<and> n_storage n' = n_storage n \<and> n_stopped n' = n_stopped n"

lemma applied_all_Cons:
  assumes u: "s' = (n_state n)\<lparr>lastApplied := lastApplied (n_state n) + 1\<rparr>"
    and a: "applyLog d e (n\<lparr>n_state := s'\<rparr>) = (n2, o2)" and rest: "applied_all d es n2 n'"
  shows "applied_all d (e # es) n n'"
  using rest applyLog_effect [OF a] applied_from_frame [OF applyLog_effect(1) [OF a]]
  by (auto simp: applied_all_def u live_log_def)

text \<open>
  With fuel for the due entries the loop applies exactly those, and the fuel of
  \<open>checkLogsToApply\<close> is enough.
\<close>

lemma checkLogs_loop_applies:
  assumes "node_inv (n_state n)" "commitIndex (n_state n) \<le> max_int64" "length (due (n_state n)) < fuel"
  shows "applied_all d (due (n_state n)) n (fst (checkLogs_loop fuel d n)) \<and>
         due (n_state (fst (checkLogs_loop fuel d n))) = []"
  using assms
proof (induction fuel arbitrary: n)
  case (Suc fuel)
  from Suc.prems(1,2) show ?case
  proof (cases rule: checkLogs_cases [where d = d])
    case stop
    then show ?thesis using Suc.prems(1) by (simp add: applied_all_def del: checkLogs_loop.simps)
  next
    case (step e s' n2 o2)
    have "length (due (n_state n2)) < fuel" using Suc.prems(3) step(1) by simp
    note IH = Suc.IH [OF step(4,5) this]
    have "fst (checkLogs_loop (Suc fuel) d n) = fst (checkLogs_loop fuel d n2)"
      by (simp add: step(8) split: prod.splits del: checkLogs_loop.simps)
    then show ?thesis using applied_all_Cons [OF step(2,3)] IH step(1) by simp
  qed
qed simp

lemma length_due:
  assumes "node_inv s"
  shows "length (due s) \<le> nat (commitIndex s - lastApplied s)"
    and "length (due s) = nat (min (commitIndex s) (last_index s) - lastApplied s)"
proof -
  have "base_index s \<le> lastApplied s" "lastApplied s \<le> commitIndex s" using assms by (auto simp: node_inv_def apply_wf_def)
  then show "length (due s) \<le> nat (commitIndex s - lastApplied s)"
    and "length (due s) = nat (min (commitIndex s) (last_index s) - lastApplied s)"
    by (auto simp: due_def last_index_def min_def)
qed

lemma checkLogsToApply_applies:
  assumes "node_inv (n_state n)" "commitIndex (n_state n) \<le> max_int64"
  shows "applied_all d (due (n_state n)) n (fst (checkLogsToApply d n))"
    and "due (n_state (fst (checkLogsToApply d n))) = []"
  using checkLogs_loop_applies [OF assms] length_due(1) [OF assms(1)]
  by (simp_all add: checkLogsToApply_def le_imp_less_Suc del: checkLogs_loop.simps)

lemma checkLogs_loop_fuel:
  assumes "node_inv (n_state n)" "commitIndex (n_state n) \<le> max_int64" "length (due (n_state n)) < fuel"
  shows "checkLogs_loop (fuel + extra) d n = checkLogs_loop fuel d n"
  using assms
proof (induction fuel arbitrary: n)
  case (Suc fuel)
  from Suc.prems(1,2) show ?case
  proof (cases rule: checkLogs_cases [where d = d])
    case stop
    then show ?thesis by (simp del: checkLogs_loop.simps)
  next
    case (step e s' n2 o2)
    have "length (due (n_state n2)) < fuel" using Suc.prems(3) step(1) by simp
    then show ?thesis using Suc.IH [OF step(4,5)] by (simp add: step(8) del: checkLogs_loop.simps)
  qed
qed simp

lemma checkLogsToApply_exits:
  assumes "node_inv (n_state n)" "commitIndex (n_state n) \<le> max_int64" "length (due (n_state n)) < fuel"
  shows "checkLogs_loop fuel d n = checkLogsToApply d n"
proof -
  let ?f = "Suc (nat (commitIndex (n_state n) - lastApplied (n_state n)))"
  let ?m = "Suc (length (due (n_state n)))"
  have "?m \<le> ?f" using length_due(1) [OF assms(1)] by simp
  then have "checkLogs_loop ?f d n = checkLogs_loop ?m d n"
    using checkLogs_loop_fuel [OF assms(1,2), of ?m "?f - ?m"] by (simp del: checkLogs_loop.simps)
  moreover have "checkLogs_loop fuel d n = checkLogs_loop ?m d n"
    using checkLogs_loop_fuel [OF assms(1,2), of ?m "fuel - ?m"] assms(3) by (simp del: checkLogs_loop.simps)
  ultimately show ?thesis unfolding checkLogsToApply_def by simp
qed

text \<open>
  A leader answers the clients whose pending commands are among the due entries, and no
  one else; other roles answer no one.
\<close>

lemma checkLogs_loop_replies:
  assumes "node_inv (n_state n)" "commitIndex (n_state n) \<le> max_int64" "length (due (n_state n)) < fuel"
    "distinct (map rl_Index (due (n_state n)))"
  shows "ReplyApply ch r \<in> set (snd (checkLogs_loop fuel d n)) \<longleftrightarrow> role (n_state n) = Leader \<and>
    r = \<lparr>ar_Success = True, ar_LeaderID = n_id n\<rparr> \<and>
    (\<exists>e \<in> set (due (n_state n)). map_of (n_pendingCommands n) (rl_Index e) = Some ch)"
  using assms
proof (induction fuel arbitrary: n)
  case (Suc fuel)
  from Suc.prems(1,2) show ?case
  proof (cases rule: checkLogs_cases [where d = d])
    case stop
    then show ?thesis by (simp del: checkLogs_loop.simps)
  next
    case (step e s' n2 o2)
    obtain n3 o3 where l: "checkLogs_loop fuel d n2 = (n3, o3)" by fastforce
    have n: "role (n_state (n\<lparr>n_state := s'\<rparr>)) = role (n_state n)" by (simp add: step(2))
    have IH: "ReplyApply ch r \<in> set o3 \<longleftrightarrow> role (n_state n) = Leader \<and>
        r = \<lparr>ar_Success = True, ar_LeaderID = n_id n\<rparr> \<and>
        (\<exists>e \<in> set (due (n_state n2)). map_of (n_pendingCommands n2) (rl_Index e) = Some ch)"
      using Suc.IH [OF step(4,5)] Suc.prems(3,4) step l by simp
    have other: "map_of (n_pendingCommands n2) (rl_Index f) = map_of (n_pendingCommands n) (rl_Index f)"
      if "role (n_state n) = Leader" "f \<in> set (due (n_state n2))" for f
    proof -
      have "rl_Index f \<noteq> rl_Index e" using Suc.prems(4) step(1) that(2) by (metis distinct.simps(2) image_eqI list.map(2) list.set_map)
      then show ?thesis using applyLog_replies(2) [OF step(3)] that(1) n by (simp add: mdel_def delete_conv)
    qed
    have "snd (checkLogs_loop (Suc fuel) d n) = o2 @ o3" by (simp add: step(8) l del: checkLogs_loop.simps)
    then show ?thesis using IH other applyLog_replies(1) [OF step(3), of ch r] step(1) n by auto
  qed
qed simp

lemma due_nth:
  assumes "node_inv s" "i < length (due s)"
  shows "rl_Index (due s ! i) = lastApplied s + 1 + int i" "due s ! i \<in> set (live_log s)"
proof -
  let ?k = "nat (lastApplied s - base_index s) + i"
  have wf: "log_wf s" "base_index s \<le> lastApplied s" using assms(1) by (auto simp: node_inv_def apply_wf_def)
  have k: "?k < nextLogIdx s" using assms(2) by (auto simp: due_def)
  have "i + nat (lastApplied s - base_index s) < nat (commitIndex s - base_index s)"
    using assms(2) by (auto simp: due_def)
  then have "due s ! i = live_log s ! ?k" using k by (simp add: due_def nth_drop ac_simps)
  note k = k this
  then show "rl_Index (due s ! i) = lastApplied s + 1 + int i" using wf by (simp add: log_wf_def)
  show "due s ! i \<in> set (live_log s)" using k nth_mem [of ?k "live_log s"] by simp
qed

lemma due_distinct: "node_inv s \<Longrightarrow> distinct (map rl_Index (due s))"
  by (simp add: distinct_conv_nth due_nth)

end
