(* ===== verification/Raft_Iteration.thy ===== *)
theory Raft_Iteration
  imports Raft_Runtime
begin

text \<open>
  Every iteration of the run loop of src/raft/node.go returns: it does not panic, keeps
  the node invariant, never lowers the term and never changes the timer bounds. The
  handlers of log.go, election.go, snapshot.go and config_change.go are covered one by
  one, then composed the way \<open>run\<close> composes them.
\<close>

section \<open>What every handler keeps\<close>

abbreviation timing :: "node_state \<Rightarrow> int \<times> int" where
  "timing s \<equiv> (electionMinMs s, electionMaxMs s)"

definition advances :: "node_state \<Rightarrow> node_state \<Rightarrow> bool" where
  "advances s s' \<longleftrightarrow> node_inv s' \<and> currentTerm s \<le> currentTerm s' \<and> timing s' = timing s"

lemma advances_refl [simp]: "advances s s = node_inv s"
  by (simp add: advances_def)

lemma advances_trans: "advances a b \<Longrightarrow> advances b c \<Longrightarrow> advances a c"
  by (auto simp: advances_def)

lemma advancesI: "node_inv s' \<Longrightarrow> currentTerm s \<le> currentTerm s' \<Longrightarrow> timing s' = timing s \<Longrightarrow> advances s s'"
  by (simp add: advances_def)

lemma advances_inv: "advances s s' \<Longrightarrow> node_inv s'"
  by (simp add: advances_def)

lemma timing_frame [simp]:
  "electionMinMs (stopElectionTimeout s) = electionMinMs s"
  "electionMaxMs (stopElectionTimeout s) = electionMaxMs s"
  "electionMinMs (updateCurrentTerm t s) = electionMinMs s"
  "electionMaxMs (updateCurrentTerm t s) = electionMaxMs s"
  "electionMinMs (storeEntry sha e s) = electionMinMs s" "electionMaxMs (storeEntry sha e s) = electionMaxMs s"
  "electionMinMs (trackLeader i j s) = electionMinMs s" "electionMaxMs (trackLeader i j s) = electionMaxMs s"
  "electionMinMs (applyConfigurationLocked k c s) = electionMinMs s"
  "electionMaxMs (applyConfigurationLocked k c s) = electionMaxMs s"
  by (simp_all add: stopElectionTimeout_def timer_stop_def updateCurrentTerm_def storeEntry_def
        trackLeader_def applyConfigurationLocked_def Let_def split: option.splits)

lemma timing_takeSnapshot:
  assumes "takeSnapshot g s = (b, s')"
  shows "electionMinMs s' = electionMinMs s" "electionMaxMs s' = electionMaxMs s"
  using assms by (auto simp: takeSnapshot_def copyLogsToBeginning_result Let_def split: prod.splits if_splits)

lemma timing_mergeEntry [simp]:
  "electionMinMs (mergeEntry sha pos e s) = electionMinMs s"
  "electionMaxMs (mergeEntry sha pos e s) = electionMaxMs s"
  by (simp_all add: mergeEntry_def putEntry_def Let_def)

lemma timing_mergeEntries [simp]:
  "electionMinMs (mergeEntries sha pos es s) = electionMinMs s"
  "electionMaxMs (mergeEntries sha pos es s) = electionMaxMs s"
  by (induction es arbitrary: pos s) simp_all

lemma handleAppendEntries_advances:
  assumes "node_inv s" "aea_wf aea" "aea_fits s aea"
  shows "advances s (snd (handleAppendEntries sha g me aea s))"
proof (rule advancesI [OF handleAppendEntries_inv [OF assms]])
  have sd: "timing (stepDownTo aea s) = timing s" by (simp add: stepDownTo_def Let_def)
  have adv: "timing (advanceCommit aea x) = timing x" for x by (simp add: advanceCommit_def)
  show "currentTerm s \<le> currentTerm (snd (handleAppendEntries sha g me aea s))"
    "timing (snd (handleAppendEntries sha g me aea s)) = timing s"
    by (cases rule: handleAppendEntries_cases [where aea = aea and s = s and sha = sha and g = g and me = me];
        use sd adv in \<open>auto simp: takeSnapshot_frame timing_takeSnapshot\<close>)+
qed

lemma handleRequestToVote_advances:
  "node_inv s \<Longrightarrow> advances s (snd (handleRequestToVote me rva s))"
  by (rule advancesI [OF handleRequestToVote_inv], assumption)
    (cases rule: handleRequestToVote_cases [of rva s me]; simp; fail)+

lemma handleInstallSnapshotRequest_advances:
  assumes "node_inv s" "isa_wf isa"
  shows "advances s (snd (handleInstallSnapshotRequest me isa s))"
proof -
  obtain r s' where h: "handleInstallSnapshotRequest me isa s = (r, s')" by fastforce
  have "node_inv s'" using handleInstallSnapshotRequest_inv [OF assms h] .
  moreover have "currentTerm s \<le> currentTerm s'" "timing s' = timing s"
    using h by (auto simp: handleInstallSnapshotRequest_def Let_def split: if_splits)
  ultimately show ?thesis using h by (simp add: advances_def)
qed

lemma updateElection_advances: "node_inv s \<Longrightarrow> advances s (snd (updateElection r s))"
  by (rule advancesI [OF updateElection_inv]) (auto simp: updateElection_def Let_def)

lemma startElection_advances:
  assumes "node_inv s" "- 1 \<le> currentTerm s" "currentTerm s < max_int64"
  shows "advances s (startElection i s)" "currentTerm (startElection i s) = currentTerm s + 1"
  using startElection_inv [OF assms] assms by (simp_all add: advances_def startElection_def wrap64_succ)

lemma winElection_advances:
  "node_inv s \<Longrightarrow> last_index s < max_int64 \<Longrightarrow> advances s (winElection sha i s)"
  using winElection_inv [of s sha i]
  by (simp add: advances_def winElection_def addNoopLogLocked_def Let_def)

lemma checkCommits_advances:
  assumes "node_inv s" shows "advances s (checkCommits s)"
proof -
  obtain c where c: "checkCommits s = s\<lparr>commitIndex := c\<rparr>"
    using checkCommits_spec(4) [of s] assms by (auto simp: node_inv_def)
  show ?thesis using checkCommits_inv [OF assms] unfolding c by (simp add: advances_def)
qed

section \<open>Membership\<close>

lemma addConfigLogUnlocked_log:
  "last_index (addConfigLogUnlocked sha l c s) \<le> last_index s + 1"
  "base_term (addConfigLogUnlocked sha l c s) = base_term s"
  "base_index (addConfigLogUnlocked sha l c s) = base_index s"
  "electionMinMs (addConfigLogUnlocked sha l c s) = electionMinMs s"
  "electionMaxMs (addConfigLogUnlocked sha l c s) = electionMaxMs s"
  by (simp_all add: addConfigLogUnlocked_def Let_def base_defs)

lemma handleNext_total:
  assumes inv: "node_inv s" and max: "last_index s < max_int64"
  obtains r s' where "handleNextConfigurationChange sha s = Inr (r, s')" "advances s s'"
    "currentTerm s' = currentTerm s" "role s' = role s" "last_index s' \<le> last_index s + 1"
    "base_index s' = base_index s" "base_term s' = base_term s"
proof -
  have "queue_wf s" using inv by (simp add: node_inv_def)
  then show thesis
  proof (cases rule: handleNext_cases [where sha = sha])
    case idle
    then show thesis using that inv by simp
  next
    case (start entry rest)
    let ?t = "s\<lparr>inConfigChange := True, configQueue := rest, pendingConfigs := pendingConfigs s - 1\<rparr>"
    have t: "last_index ?t = last_index s" "base_index ?t = base_index s" "base_term ?t = base_term s"
      by (simp_all add: last_index_def base_defs)
    show thesis
    proof (rule that [OF start(3)])
      show "advances s (addConfigLogUnlocked sha (currentLeader s) (ce_msg entry) ?t)"
        using handleNext_inv [OF inv max start(3)] by (simp add: advances_def addConfigLogUnlocked_log)
    qed (use t addConfigLogUnlocked_log [of sha "currentLeader s" "ce_msg entry" ?t] in simp_all)
  qed
qed

section \<open>The parts of an iteration\<close>

abbreviation node_adv :: "('sm, 'st) raft_node \<Rightarrow> ('sm, 'st) raft_node \<Rightarrow> bool" where
  "node_adv n n' \<equiv> advances (n_state n) (n_state n')"

lemma same_but_sent_adv:
  assumes "same_but_sent s s'" "node_inv s" shows "advances s s'"
proof (rule advancesI [OF same_but_sent_inv [OF assms]])
  obtain m where "s' = s\<lparr>lastSentLogIndex := m\<rparr>" using assms(1) unfolding same_but_sent_def by blast
  then show "currentTerm s \<le> currentTerm s'" "timing s' = timing s" by simp_all
qed

lemma sent_from_adv: "sent_from n n' \<Longrightarrow> node_inv (n_state n) \<Longrightarrow> node_adv n n'"
  using same_but_sent_adv unfolding sent_from_def by fastforce

lemma sendAppendEntriesRPCs_adv: "node_inv (n_state n) \<Longrightarrow> keeps (node_adv n) (sendAppendEntriesRPCs n)"
  by (rule keeps_mono [OF sendAppendEntriesRPCs_sent]) (rule sent_from_adv)

lemma serve_adv:
  assumes "node_inv (n_state n)"
  shows "aea_wf aea \<Longrightarrow> aea_fits (n_state n) aea \<Longrightarrow> keeps (node_adv n) (serveAppendEntries d aea n)"
    and "keeps (node_adv n) (serveRequestVote d rva n)"
    and "isa_wf isa \<Longrightarrow> keeps (node_adv n) (serveInstallSnapshot d isa n)"
  using handleAppendEntries_advances [OF assms, of aea "dep_sha d" "snapshotData d n" "n_id n"]
    handleRequestToVote_advances [OF assms, of "n_id n" rva]
    handleInstallSnapshotRequest_advances [OF assms, of isa "n_id n"]
  by (simp_all add: serveAppendEntries_def serveRequestVote_def serveInstallSnapshot_def case_prod_unfold Let_def)

lemma consumeTick_frame [simp]:
  "node_inv (consumeTick s) = node_inv s" "currentTerm (consumeTick s) = currentTerm s"
  "role (consumeTick s) = role s" "votedFor (consumeTick s) = votedFor s"
  "last_index (consumeTick s) = last_index s" "timing (consumeTick s) = timing s"
  by (simp_all add: consumeTick_def last_index_def base_index_def)

lemma beginElection_adv:
  assumes "node_inv (n_state n)" "- 1 \<le> currentTerm (n_state n)" "currentTerm (n_state n) < max_int64"
  shows "node_adv n (beginElection d env n)"
    and "last_index (n_state (beginElection d env n)) = last_index (n_state n)"
  using startElection_advances [OF assms, of "n_id n"]
  by (simp_all add: beginElection_def startElection_def last_index_def base_index_def)

lemma becomeLeader_adv:
  assumes "node_inv (n_state n)" "last_index (n_state n) < max_int64"
  shows "node_adv n (becomeLeader d env n)" "role (n_state (becomeLeader d env n)) = Leader"
  using winElection_advances [OF assms, of "dep_sha d" "n_id n"]
  by (simp_all add: becomeLeader_def Let_def)

lemma checkElectionTimeout_adv:
  assumes "node_inv s" "electionMinMs s < electionMaxMs s"
  obtains s' where "checkElectionTimeout rand s = Inr s'" "advances s s'" "currentTerm s' = currentTerm s"
    "last_index s' = last_index s" "base_index s' = base_index s" "base_term s' = base_term s"
    "role s' = role s"
proof (cases "electionTimeoutStarted s")
  case True
  then show thesis using that [of s] assms(1) by (simp add: checkElectionTimeout_def)
next
  case False
  let ?s' = "s\<lparr>electionTimeoutStarted := True, electionTimer :=
    Some \<lparr>tm_Duration = rand (electionMaxMs s - electionMinMs s) + electionMinMs s,
          tm_Active = True, tm_Tick = False\<rparr>\<rparr>"
  have "checkElectionTimeout rand s = Inr ?s'" using False assms(2) by (simp add: checkElectionTimeout_def Intn_def)
  then show thesis using that assms(1) by (simp add: advances_def last_index_def base_defs)
qed

section \<open>One iteration\<close>

text \<open>
  What an iteration may assume: the invariant, timer bounds that \<open>rand.Intn\<close> accepts, and
  room in the 64-bit counters for the steps of one iteration.
\<close>

definition ready :: "node_state \<Rightarrow> bool" where
  "ready s \<longleftrightarrow> node_inv s \<and> electionMinMs s < electionMaxMs s \<and> commitIndex s \<le> max_int64 \<and>
     last_index s < max_int64 - 1 \<and> - 1 \<le> currentTerm s \<and> currentTerm s < max_int64"

text \<open>What the messages must satisfy: they come from leaders of this protocol.\<close>

definition event_wf :: "node_state \<Rightarrow> run_event \<Rightarrow> bool" where
  "event_wf s ev \<longleftrightarrow> (case ev of AEArgs a \<Rightarrow> aea_wf a \<and> aea_fits s a | ISArgs a \<Rightarrow> isa_wf a | _ \<Rightarrow> True)"

text \<open>The state the role handler starts from, after the two checks of \<open>run\<close>.\<close>

definition role_ready :: "node_state \<Rightarrow> bool" where
  "role_ready s \<longleftrightarrow> node_inv s \<and> electionMinMs s < electionMaxMs s \<and>
     last_index s < max_int64 \<and> - 1 \<le> currentTerm s \<and> currentTerm s < max_int64"

lemma stopElectionTimeout_adv:
  "advances s (stopElectionTimeout s) = node_inv s" "last_index (stopElectionTimeout s) = last_index s"
  "aea_fits (stopElectionTimeout s) aea = aea_fits s aea"
  by (simp_all add: advances_def last_index_def base_defs aea_fits_def)

lemma keeps_adv_trans: "node_adv n m \<Longrightarrow> keeps (node_adv m) r \<Longrightarrow> keeps (node_adv n) r"
  by (erule keeps_mono) (rule advances_trans)

lemma role_ready_tick:
  assumes "role_ready (n_state n)"
  defines "m \<equiv> onState (stopElectionTimeout \<circ> consumeTick) n"
  shows "node_adv n m" "node_inv (n_state m)" "- 1 \<le> currentTerm (n_state m)"
    "currentTerm (n_state m) < max_int64" "last_index (n_state m) < max_int64" "n_cfg m = n_cfg n"
    "n_connected m = n_connected n"
  using assms(1) by (simp_all add: m_def role_ready_def advances_def stopElectionTimeout_adv)

lemma sendRequestVoteRPCs_adv [simp]: "keeps P (sendRequestVoteRPCs a n) = P n"
  by (simp add: sendRequestVoteRPCs_def)

lemma handleFollower_body_adv:
  assumes r: "role_ready (n_state n)" and e: "event_wf (n_state n) ev"
    and t: "checkElectionTimeout (env_rand env) (n_state n0) = Inr (n_state n)" "n = n0\<lparr>n_state := n_state n\<rparr>"
  shows "keeps (node_adv n) (handleFollower d env ev n0)"
proof -
  have inv: "node_inv (n_state n)" using r by (simp add: role_ready_def)
  have stop: "node_adv n (onState stopElectionTimeout n)" using inv by (simp add: stopElectionTimeout_adv)
  note tick = role_ready_tick [OF r]
  let ?m = "onState (stopElectionTimeout \<circ> consumeTick) n"
  let ?b = "beginElection d env ?m"
  have b: "node_adv n ?b" "last_index (n_state ?b) < max_int64" "node_inv (n_state ?b)"
    using beginElection_adv [OF tick(2-4), of d env] tick(1,5) advances_trans by (auto simp: advances_def)
  have l: "node_adv n (becomeLeader d env ?b)"
    using becomeLeader_adv(1) [OF b(3,2)] b(1) advances_trans by blast
  show ?thesis
  proof (cases ev)
    case (AEArgs a)
    then have "keeps (node_adv (onState stopElectionTimeout n)) (serveAppendEntries d a (onState stopElectionTimeout n))"
      using inv e by (intro serve_adv) (simp_all add: event_wf_def stopElectionTimeout_adv)
    from keeps_adv_trans [OF stop this] show ?thesis
      using t(2) by (simp add: handleFollower_def t(1) AEArgs Let_def)
  next
    case (RVArgs a)
    have "keeps (node_adv (onState stopElectionTimeout n)) (serveRequestVote d a (onState stopElectionTimeout n))"
      using inv by (intro serve_adv) simp
    from keeps_adv_trans [OF stop this] show ?thesis
      using t(2) by (simp add: handleFollower_def t(1) RVArgs Let_def)
  next
    case (ISArgs a)
    then show ?thesis using t(2) serve_adv(3) [OF inv, of a d] e
      by (simp add: handleFollower_def t(1) event_wf_def Let_def)
  next
    case TimerTick
    then show ?thesis using t(2) tick(1) b(1) l
      by (simp add: handleFollower_def t(1) Let_def)
  qed (use t inv in \<open>simp_all add: handleFollower_def Let_def\<close>)
qed

lemma handleCandidate_body_adv:
  assumes r: "role_ready (n_state n)" and e: "event_wf (n_state n) ev"
    and t: "checkElectionTimeout (env_rand env) (n_state n0) = Inr (n_state n)" "n = n0\<lparr>n_state := n_state n\<rparr>"
  shows "keeps (node_adv n) (handleCandidate d env ev n0)"
proof -
  have inv: "node_inv (n_state n)" and li: "last_index (n_state n) < max_int64"
    using r by (simp_all add: role_ready_def)
  note tick = role_ready_tick [OF r]
  have b: "node_adv n (beginElection d env (onState (stopElectionTimeout \<circ> consumeTick) n))"
    using beginElection_adv [OF tick(2-4), of d env] tick(1) advances_trans by blast
  note serve = serve_adv [OF inv]
  show ?thesis
  proof (cases ev)
    case (VoteResponse resp)
    obtain won s' where u: "updateElection resp (n_state n) = (won, s')" by fastforce
    let ?n1 = "n\<lparr>n_state := s'\<rparr>"
    have a1: "node_adv n ?n1" using updateElection_advances [OF inv, of resp] u by simp
    have "last_index s' = last_index (n_state n)"
      using u by (auto simp: updateElection_def Let_def last_index_def base_index_def split: if_splits)
    then have w: "node_adv ?n1 (becomeLeader d env ?n1)"
      using a1 li by (intro becomeLeader_adv) (simp_all add: advances_def)
    then have "keeps (node_adv (becomeLeader d env ?n1)) (sendAppendEntriesRPCs (becomeLeader d env ?n1))"
      by (intro sendAppendEntriesRPCs_adv) (simp add: advances_def)
    from keeps_adv_trans [OF advances_trans [OF a1 w] this] show ?thesis
      using t(2) a1 by (simp add: handleCandidate_def t(1) VoteResponse Let_def u)
  next
    case (AEArgs a)
    then show ?thesis using t serve(1) e by (simp add: handleCandidate_def event_wf_def Let_def)
  next
    case (RVArgs a)
    then show ?thesis using t serve(2) by (simp add: handleCandidate_def Let_def)
  next
    case (ISArgs a)
    then show ?thesis using t serve(3) e by (simp add: handleCandidate_def event_wf_def Let_def)
  next
    case TimerTick
    then show ?thesis using t b by (simp add: handleCandidate_def Let_def)
  qed (use t inv in \<open>simp_all add: handleCandidate_def Let_def\<close>)
qed

lemma handleLeader_adv:
  assumes inv: "node_inv (n_state n)" and e: "event_wf (n_state n) ev"
  shows "keeps (node_adv n) (handleLeader d ev n)"
proof -
  have c: "keeps (node_adv n) (andThen r (\<lambda>n'. Inr (onState checkCommits n', [])))"
    if "keeps (node_adv n) r" for r
    using that by (rule keeps_andThen)
      (simp add: advances_trans [OF _ checkCommits_advances [OF advances_inv]])
  note serve = serve_adv [OF inv]
  show ?thesis
    using inv e c serve sendAppendEntriesRPCs_adv [OF inv]
    by (cases ev) (simp_all add: handleLeader_def event_wf_def Let_def del: andThen_Inr)
qed

lemma checkConfigurationsToStart_adv:
  assumes "node_inv (n_state n)" "last_index (n_state n) < max_int64"
  shows "keeps (\<lambda>m. node_adv n m \<and> currentTerm (n_state m) = currentTerm (n_state n) \<and>
      role (n_state m) = role (n_state n) \<and> last_index (n_state m) \<le> last_index (n_state n) + 1 \<and>
      base_index (n_state m) = base_index (n_state n) \<and> base_term (n_state m) = base_term (n_state n))
    (checkConfigurationsToStart d n)"
proof -
  obtain r s' where h: "handleNextConfigurationChange (dep_sha d) (n_state n) = Inr (r, s')"
    "advances (n_state n) s'" "currentTerm s' = currentTerm (n_state n)" "role s' = role (n_state n)"
    "last_index s' \<le> last_index (n_state n) + 1" "base_index s' = base_index (n_state n)"
    "base_term s' = base_term (n_state n)"
    using handleNext_total [OF assms] by blast
  obtain st en where r: "r = (st, en)" by fastforce
  show ?thesis using h(2-7)
    by (simp add: checkConfigurationsToStart_def h(1) r startedConfig_def trackConfig_def Let_def)
qed

lemma event_wf_base:
  "base_index s' = base_index s \<Longrightarrow> base_term s' = base_term s \<Longrightarrow> event_wf s' ev = event_wf s ev"
  by (simp add: event_wf_def aea_fits_def split: run_event.splits)

lemma role_handler_adv:
  assumes r: "role_ready (n_state n)" and e: "event_wf (n_state n) ev"
  shows "keeps (node_adv n) (case role (n_state n) of Follower \<Rightarrow> handleFollower d env ev n
     | Candidate \<Rightarrow> handleCandidate d env ev n | Leader \<Rightarrow> handleLeader d ev n)"
proof -
  have inv: "node_inv (n_state n)" "electionMinMs (n_state n) < electionMaxMs (n_state n)"
    using r by (simp_all add: role_ready_def)
  obtain s' where t: "checkElectionTimeout (env_rand env) (n_state n) = Inr s'" and a: "advances (n_state n) s'"
    "currentTerm s' = currentTerm (n_state n)" "last_index s' = last_index (n_state n)"
    "base_index s' = base_index (n_state n)" "base_term s' = base_term (n_state n)"
    using checkElectionTimeout_adv [OF inv] by metis
  let ?m = "n\<lparr>n_state := s'\<rparr>"
  have m: "role_ready (n_state ?m)" "event_wf (n_state ?m) ev" "node_adv n ?m"
    using r a e event_wf_base [OF a(4,5)] by (auto simp: role_ready_def advances_def)
  note f = handleFollower_body_adv [of ?m ev env n d] and c = handleCandidate_body_adv [of ?m ev env n d]
  show ?thesis
    using keeps_adv_trans [OF m(3) f] keeps_adv_trans [OF m(3) c] m t handleLeader_adv [OF inv(1) e, of d]
    by (cases "role (n_state n)") simp_all
qed

lemma run_iteration_adv:
  assumes r: "ready (n_state n)" and e: "event_wf (n_state n) ev"
  shows "keeps (node_adv n) (run_iteration d env ev n)"
proof (cases "n_stopped n")
  case True
  then show ?thesis using r by (simp add: run_iteration_def ready_def)
next
  case False
  obtain n1 o1 where c: "checkLogsToApply d n = (n1, o1)" by fastforce
  have inv: "node_inv (n_state n)" "commitIndex (n_state n) \<le> max_int64" using r by (simp_all add: ready_def)
  have ap: "applied_all d (due (n_state n)) n n1" using checkLogsToApply_applies(1) [OF inv, of d] c by simp
  have "length (live_log (n_state n1)) = length (live_log (n_state n))"
    using ap by (simp only: applied_all_def)
  then have n1: "node_adv n n1" "last_index (n_state n1) = last_index (n_state n)"
    "base_index (n_state n1) = base_index (n_state n)" "base_term (n_state n1) = base_term (n_state n)"
    "currentTerm (n_state n1) = currentTerm (n_state n)"
    using ap by (simp_all add: applied_all_def advances_def last_index_def base_defs)
  have max: "last_index (n_state n1) < max_int64" "node_inv (n_state n1)"
    using r n1 by (simp_all add: ready_def advances_def)
  let ?Q = "\<lambda>m. node_adv n m \<and> role_ready (n_state m) \<and> event_wf (n_state m) ev"
  have q: "?Q m" if "node_adv n1 m \<and> currentTerm (n_state m) = currentTerm (n_state n1) \<and>
      role (n_state m) = role (n_state n1) \<and> last_index (n_state m) \<le> last_index (n_state n1) + 1 \<and>
      base_index (n_state m) = base_index (n_state n1) \<and> base_term (n_state m) = base_term (n_state n1)" for m
  proof -
    have "node_adv n m" using n1(1) that advances_trans by blast
    moreover have "event_wf (n_state m) ev" using e that n1(3,4) event_wf_base [of "n_state m" "n_state n" ev] by simp
    ultimately show ?thesis using that n1 r by (simp add: advances_def ready_def role_ready_def)
  qed
  have "keeps ?Q (checkConfigurationsToStart d n1)"
    by (rule keeps_mono [OF checkConfigurationsToStart_adv [OF max(2,1)] q])
  then have k: "keeps ?Q (andThen (Inr (n1, o1)) (checkConfigurationsToStart d))"
    by (intro keeps_andThen [where P = "\<lambda>m. m = n1"]) simp_all
  show ?thesis unfolding run_iteration_def c if_not_P [OF False]
    by (rule keeps_andThen [OF k]) (blast intro: keeps_adv_trans role_handler_adv)
qed

section \<open>The other goroutines\<close>

lemma startedConfig_adv:
  assumes "h = Inr (r, s')" "advances (n_state n) s'"
  shows "keeps (node_adv n) (startedConfig h n)"
  using assms by (cases r) (simp add: startedConfig_def trackConfig_def Let_def)

lemma enqueueConfig_advances:
  assumes "node_inv s" "int (length (configQueue s)) < max_int64"
  shows "advances s (enqueueConfig e s)"
  using enqueueConfig_inv [OF assms] by (simp add: advances_def) (simp add: enqueueConfig_def)

lemma handleConfigurationRPC_adv:
  assumes "node_inv (n_state n)" "last_index (n_state n) < max_int64"
    "int (length (configQueue (n_state n))) < max_int64"
  shows "keeps (node_adv n) (startedConfig (handleConfigurationRPC sha e (n_state n)) n)"
proof -
  have e: "advances (n_state n) (enqueueConfig e (n_state n))" by (rule enqueueConfig_advances [OF assms(1,3)])
  obtain r s' where "handleNextConfigurationChange sha (enqueueConfig e (n_state n)) = Inr (r, s')"
    "advances (enqueueConfig e (n_state n)) s'"
    by (rule handleNext_total [OF advances_inv [OF e]]) (use assms(2) in simp_all)
  then show ?thesis using advances_trans [OF e]
    by (intro startedConfig_adv) (simp_all add: handleConfigurationRPC_def)
qed

text \<open>Room for one more membership change in the queue.\<close>

definition config_ready :: "node_state \<Rightarrow> bool" where
  "config_ready s \<longleftrightarrow> node_inv s \<and> last_index s < max_int64 \<and> int (length (configQueue s)) < max_int64"

lemma promoteUnvotingServer_adv:
  assumes "config_ready (n_state n)"
  shows "keeps (node_adv n) (promoteUnvotingServer d sid n)"
proof -
  obtain e f s' where r: "removeUnvotingServer sid (n_state n) = ((e, f), s')" by (metis prod.exhaust)
  have s': "node_inv s'" using membership_inv(5) [of "n_state n" sid] assms r by (simp add: config_ready_def)
  moreover have "last_index s' = last_index (n_state n)" "configQueue s' = configQueue (n_state n)"
    "currentTerm s' = currentTerm (n_state n)" "timing s' = timing (n_state n)"
    using r by (auto simp: removeUnvotingServer_def last_index_def base_index_def split: option.splits)
  ultimately have a: "advances (n_state n) s'" and "config_ready s'"
    using assms by (simp_all add: advances_def config_ready_def)
  then have "keeps (node_adv (n\<lparr>n_state := s'\<rparr>)) (startedConfig (handleConfigurationRPC (dep_sha d) e s') (n\<lparr>n_state := s'\<rparr>))"
    using handleConfigurationRPC_adv [of "n\<lparr>n_state := s'\<rparr>"] by (simp add: config_ready_def)
  then show ?thesis using a keeps_adv_trans [of n "n\<lparr>n_state := s'\<rparr>"]
    by (simp add: promoteUnvotingServer_def r Let_def)
qed

lemma advances_updateCurrentTerm: "node_inv s \<Longrightarrow> currentTerm s \<le> t \<Longrightarrow> advances s (updateCurrentTerm t s)"
  by (simp add: advances_def node_inv_updateCurrentTerm)

lemma handleAppendEntriesResponse_advances:
  assumes "node_inv s" "handleAppendEntriesResponse me aer s = (r, s')"
  shows "advances s s'" "config_ready s \<Longrightarrow> config_ready s'"
proof -
  have "node_inv s'" using handleAppendEntriesResponse_inv [OF assms(1), of me aer] assms(2) by simp
  moreover have "currentTerm s \<le> currentTerm s' \<and> timing s' = timing s \<and> last_index s' = last_index s \<and>
      configQueue s' = configQueue s"
    using assms(2)
    by (auto simp: handleAppendEntriesResponse_def Let_def updateCurrentTerm_def last_index_def base_index_def
             split: if_splits)
  ultimately show "advances s s'" "config_ready s \<Longrightarrow> config_ready s'"
    by (simp_all add: advances_def config_ready_def)
qed

lemma handleInstallSnapshotResponse_advances:
  assumes "node_inv s" "handleInstallSnapshotResponse me isr s = (r, s')"
  shows "advances s s'" "config_ready s \<Longrightarrow> config_ready s'"
proof -
  have "node_inv s'" using handleInstallSnapshotResponse_inv [OF assms] .
  moreover have "currentTerm s \<le> currentTerm s' \<and> timing s' = timing s \<and> last_index s' = last_index s \<and>
      configQueue s' = configQueue s"
    using assms(2)
    by (auto simp: handleInstallSnapshotResponse_def Let_def updateCurrentTerm_def last_index_def base_index_def
             split: if_splits)
  ultimately show "advances s s'" "config_ready s \<Longrightarrow> config_ready s'"
    by (simp_all add: advances_def config_ready_def)
qed

lemma sendInstallSnapshotRPC_same: "keeps (\<lambda>m. m = n) (sendInstallSnapshotRPC p n)"
  by (auto simp: sendInstallSnapshotRPC_def prepareInstallSnapshotRPC_def)

lemma replies_adv:
  assumes c: "config_ready (n_state n)"
  shows "keeps (node_adv n) (handleAppendEntriesReply d aer n)"
    and "keeps (node_adv n) (handleInstallSnapshotReply d isr n)"
proof -
  have inv: "node_inv (n_state n)" using c by (simp add: config_ready_def)
  have p: "keeps (node_adv n) (promoteUnvotingServer d i m)" if "node_adv n m" "config_ready (n_state m)" for i m
    using keeps_adv_trans [OF that(1) promoteUnvotingServer_adv [OF that(2)]] .
  obtain mi ns s' where a: "handleAppendEntriesResponse (n_id n) aer (n_state n) = ((mi, ns), s')"
    by (metis prod.exhaust)
  note a' = handleAppendEntriesResponse_advances [OF inv a]
  let ?m = "n\<lparr>n_state := s'\<rparr>"
  have k: "keeps (\<lambda>m. m = ?m) (if ns then sendInstallSnapshotRPC (aer_ID aer) ?m else Inr (?m, []))"
    using sendInstallSnapshotRPC_same [of ?m "aer_ID aer"] by simp
  have q: "keeps (node_adv n) (if mi \<ge> 0 \<and> mi \<ge> commitIndex (n_state m)
      then promoteUnvotingServer d (aer_ID aer) m else Inr (m, []))" if "m = ?m" for m
    using that a' c p [of ?m] by simp
  show "keeps (node_adv n) (handleAppendEntriesReply d aer n)"
    using inv keeps_andThen [OF k q] by (simp add: handleAppendEntriesReply_def a)
  obtain mj t' where i: "handleInstallSnapshotResponse (n_id n) isr (n_state n) = (mj, t')" by fastforce
  note i' = handleInstallSnapshotResponse_advances [OF inv i]
  show "keeps (node_adv n) (handleInstallSnapshotReply d isr n)"
    using inv i' c p [of "n\<lparr>n_state := t'\<rparr>"] by (simp add: handleInstallSnapshotReply_def i Let_def)
qed

lemma addCommandLog_advances:
  assumes "node_inv s" "last_index s < max_int64"
  shows "advances s (snd (addCommandLog sha g i c q d s))"
  using assms
proof (cases rule: addCommandLog_cases [where sha = sha and g = g and i = i and c = c and q = q and d = d])
  case (full s1 b)
  then show ?thesis using addCommandLog_inv [OF assms, of sha g i c q d]
    by (simp add: advances_def takeSnapshot_frame [OF full(1)] timing_takeSnapshot [OF full(1)])
next
  case (stored s1)
  have "currentTerm s1 = currentTerm s \<and> timing s1 = timing s"
    using stored(1) takeSnapshot_frame(1) [of g s True s1] timing_takeSnapshot [of g s True s1] by auto
  then show ?thesis using addCommandLog_inv [OF assms, of sha g i c q d] stored(6) by (simp add: advances_def)
qed

lemma handleApplyRequest_adv:
  assumes "node_inv (n_state n)" "last_index (n_state n) < max_int64"
  shows "keeps (node_adv n) (handleApplyRequest d args ch n)"
proof -
  obtain i s' where a: "addCommandLog (dep_sha d) (snapshotData d n) (n_id n)
      (aa_ClientID args) (aa_SeqNum args) (aa_Command args) (n_state n) = (i, s')" by fastforce
  have s': "advances (n_state n) s'"
    using addCommandLog_advances [OF assms, of "dep_sha d" "snapshotData d n" "n_id n"
        "aa_ClientID args" "aa_SeqNum args" "aa_Command args"] a by simp
  let ?n3 = "(persistState d (n\<lparr>n_state := s'\<rparr>))\<lparr>n_pendingCommands :=
     mput i ch (n_pendingCommands (persistState d (n\<lparr>n_state := s'\<rparr>)))\<rparr>"
  have "node_adv n ?n3" "node_inv (n_state ?n3)" using s' advances_inv [OF s'] by simp_all
  then have "keeps (node_adv n) (sendAppendEntriesRPCs ?n3)"
    using keeps_adv_trans sendAppendEntriesRPCs_adv by blast
  then show ?thesis using assms(1) s' by (simp add: handleApplyRequest_def a Let_def)
qed

lemma handleConfigurationMessage_adv:
  assumes c: "config_ready (n_state n)"
  shows "keeps (node_adv n) (handleConfigurationMessage d req n)"
proof -
  let ?m = "onState (addUnvotingServer req) (onState (addNewServer (cc_Server (ce_msg req))) n)"
  have inv: "node_inv (n_state n)" using c by (simp add: config_ready_def)
  have "advances (n_state n) (n_state ?m)"
    using inv by (intro advancesI) (simp_all add: addUnvotingServer_def addNewServer_def gm.invar_put node_inv_m_ok)
  then have "keeps (node_adv n) (sendAppendEntriesRPCs ?m)"
    using keeps_adv_trans sendAppendEntriesRPCs_adv advances_inv by blast
  then have "keeps (node_adv n) (andThen (Inr (n, [ConnectPeer (cc_Server (ce_msg req))]))
      (\<lambda>n. sendAppendEntriesRPCs (onState (addUnvotingServer req) (onState (addNewServer (cc_Server (ce_msg req))) n))))"
    by (intro keeps_andThen [where P = "\<lambda>m. m = n"]) simp_all
  then show ?thesis using inv c handleConfigurationRPC_adv [of n "dep_sha d" req]
    by (simp add: handleConfigurationMessage_def config_ready_def del: andThen_Inr)
qed

end
