(* ===== verification/Raft_Restart.thy ===== *)
theory Raft_Restart
  imports Raft_Iteration
begin

text \<open>
  Persistence and restart (src/raft/node.go: \<open>persistState\<close>, \<open>New\<close>, \<open>Start\<close>) over any store
  that keeps the contract \<open>stable_storage\<close>: what is on the store after a save, and that
  a node started again from that store has the term, the vote, the log and the snapshot
  it had, with the invariant re-established.
\<close>

section \<open>What the store holds\<close>

text \<open>The store holds what a restart needs of this node.\<close>

definition durable :: "('sm, 'st) deps \<Rightarrow> ('sm, 'st) raft_node \<Rightarrow> bool" where
  "durable d n \<longleftrightarrow>
     LoadState (dep_st d) (n_storage n) = Inr (getPersistentState (n_state n)) \<and>
     LoadSnapshot (dep_st d) (n_storage n) = Inr (lastSnapshot (n_state n))"

text \<open>
  A snapshot the node will not save again (its index is not above
  \<open>lastPersistedSnapIdx\<close>) is on the store already.
\<close>

definition snap_tracked :: "('sm, 'st) deps \<Rightarrow> ('sm, 'st) raft_node \<Rightarrow> bool" where
  "snap_tracked d n \<longleftrightarrow>
     (case lastSnapshot (n_state n) of
        None \<Rightarrow> LoadSnapshot (dep_st d) (n_storage n) = Inr None
      | Some sn \<Rightarrow> m_ok (snap_ServerConfig sn) \<and>
          (snap_LastIncludedIndex sn \<le> n_lastPersistedSnapIdx n \<longrightarrow>
             LoadSnapshot (dep_st d) (n_storage n) = Inr (Some sn)))"

context stable_storage
begin

lemma persist_durable:
  assumes "dep_st d = ops" "ok (n_storage n)" "snap_tracked d n"
  shows "durable d (persistState d n)" "ok (n_storage (persistState d n))" "snap_tracked d (persistState d n)"
proof -
  obtain e st1 where s: "SaveState ops (getPersistentState (n_state n)) (n_storage n) = (e, st1)" by fastforce
  note s' = save_state [OF assms(2) s]
  have "durable d (persistState d n) \<and> ok (n_storage (persistState d n)) \<and> snap_tracked d (persistState d n)"
  proof (cases "lastSnapshot (n_state n)")
    case None
    then show ?thesis using s s' assms by (simp add: persistState_def durable_def snap_tracked_def)
  next
    case (Some sn)
    show ?thesis
    proof (cases "snap_LastIncludedIndex sn > n_lastPersistedSnapIdx n")
      case True
      obtain e2 st2 where t: "SaveSnapshot ops sn st1 = (e2, st2)" by fastforce
      then show ?thesis using save_snapshot [OF _ _ t] s s' assms Some True
        by (simp add: persistState_def durable_def snap_tracked_def)
    next
      case False
      then show ?thesis using s s' assms Some
        by (simp add: persistState_def durable_def snap_tracked_def)
    qed
  qed
  then show "durable d (persistState d n)" "ok (n_storage (persistState d n))" "snap_tracked d (persistState d n)"
    by simp_all
qed

end

section \<open>Start\<close>

lemma restoreLogs_effect:
  assumes "nextLogIdx s = i" "i + length rls \<le> logArrayCapacity"
  shows "live_log (restoreLogs i rls s) = live_log s @ rls \<and>
    (\<exists>l. restoreLogs i rls s = s\<lparr>logs := l, nextLogIdx := i + length rls\<rparr>)"
  using assms
proof (induction rls arbitrary: i s)
  case Nil
  then show ?case by (auto intro!: exI [of _ "logs s"])
next
  case (Cons rl rls)
  let ?s = "s\<lparr>logs := (logs s)(i := rl), nextLogIdx := Suc i\<rparr>"
  have "live_log ?s = live_log s @ [rl]" using Cons.prems by (simp add: live_log_def)
  then show ?case using Cons.prems Cons.IH [of ?s "Suc i"] by auto
qed

text \<open>A restart is \<open>New\<close> on the same store, then \<open>Start\<close>; the application starts from \<open>sm0\<close>.\<close>

definition restart ::
  "('sm, 'st) deps \<Rightarrow> raft_config \<Rightarrow> 'sm \<Rightarrow> 'st \<Rightarrow> error + ('sm, 'st) raft_node" where
  "restart d cfg sm0 st = (case New cfg (Some sm0) True (Some st) of Inl e \<Rightarrow> Inl e | Inr n \<Rightarrow> Start d None n)"

lemma initPeer_frame [simp]:
  "nextLogIdx (fold initPeer ps s) = nextLogIdx s" "lastSnapshot (fold initPeer ps s) = lastSnapshot s"
  "currentTerm (fold initPeer ps s) = currentTerm s" "votedFor (fold initPeer ps s) = votedFor s"
  "commitIndex (fold initPeer ps s) = commitIndex s" "lastApplied (fold initPeer ps s) = lastApplied s"
  "role (fold initPeer ps s) = role s"
  by (induction ps arbitrary: s) (simp_all add: initPeer_def)

lemma newNodeState_fields [simp]:
  "nextLogIdx (newNodeState i ps a b) = 0" "lastSnapshot (newNodeState i ps a b) = None"
  "currentTerm (newNodeState i ps a b) = 0" "role (newNodeState i ps a b) = Follower"
  "votedFor (newNodeState i ps a b) = ''''"
  "commitIndex (newNodeState i ps a b) = - 1" "lastApplied (newNodeState i ps a b) = - 1"
  by (simp_all add: newNodeState_def)

lemma restoreState_effect:
  assumes "ps_CurrentTerm ps > 0" "length (ps_Logs ps) \<le> logArrayCapacity" "nextLogIdx s = 0"
  shows "live_log (restoreState ps s) = ps_Logs ps" "currentTerm (restoreState ps s) = ps_CurrentTerm ps"
    "votedFor (restoreState ps s) = ps_VotedFor ps" "lastSnapshot (restoreState ps s) = lastSnapshot s"
    "role (restoreState ps s) = role s" "commitIndex (restoreState ps s) = commitIndex s"
    "lastApplied (restoreState ps s) = lastApplied s" "maps_wf (restoreState ps s) = maps_wf s"
    "queue_wf (restoreState ps s) = queue_wf s"
proof -
  let ?s = "s\<lparr>currentTerm := ps_CurrentTerm ps, votedFor := ps_VotedFor ps\<rparr>"
  obtain l where l: "restoreState ps s = ?s\<lparr>logs := l, nextLogIdx := length (ps_Logs ps)\<rparr>"
    and live: "live_log (restoreState ps s) = ps_Logs ps"
    using restoreLogs_effect [of ?s 0 "ps_Logs ps"] assms by (auto simp: restoreState_def live_log_def)
  show "live_log (restoreState ps s) = ps_Logs ps" by (rule live)
  show "currentTerm (restoreState ps s) = ps_CurrentTerm ps"
    "votedFor (restoreState ps s) = ps_VotedFor ps" "lastSnapshot (restoreState ps s) = lastSnapshot s"
    "role (restoreState ps s) = role s" "commitIndex (restoreState ps s) = commitIndex s"
    "lastApplied (restoreState ps s) = lastApplied s" "maps_wf (restoreState ps s) = maps_wf s"
    "queue_wf (restoreState ps s) = queue_wf s"
    unfolding l by (simp_all add: maps_wf_def queue_wf_def)
qed

lemma live_log_eq_log_wf:
  assumes "live_log a = live_log b" "lastSnapshot a = lastSnapshot b"
  shows "log_wf a = log_wf b" "currentTerm a = currentTerm b \<Longrightarrow> terms_wf a = terms_wf b"
    "nextLogIdx a = nextLogIdx b"
proof -
  have n: "nextLogIdx a = nextLogIdx b" using assms(1) by (metis length_live_log)
  have "logs a i = logs b i" if "i < nextLogIdx a" for i
    using that n assms(1) by (metis nth_live_log)
  then show "log_wf a = log_wf b" using n assms(2) by (simp add: log_wf_def base_index_def)
  show "currentTerm a = currentTerm b \<Longrightarrow> terms_wf a = terms_wf b"
    using assms by (simp add: terms_wf_def base_term_def)
  show "nextLogIdx a = nextLogIdx b" by (rule n)
qed

text \<open>
  Start from a durable store: same term, vote, log and snapshot; committed and applied
  restart at the snapshot; the invariant holds again. The application is restored from
  the snapshot's bytes, when there is one, and that must not fail.
\<close>

lemma restart_recovers:
  assumes inv: "node_inv (n_state n)" and dur: "durable d n" and pos: "currentTerm (n_state n) > 0"
    and sm: "case lastSnapshot (n_state n) of None \<Rightarrow> sm' = sm0
             | Some sn \<Rightarrow> sm_Restore (dep_sm d) (snap_Data sn) sm0 = (None, sm')"
  obtains n' where "restart d cfg sm0 (n_storage n) = Inr n'" "n_sm n' = sm'" "n_storage n' = n_storage n"
    "currentTerm (n_state n') = currentTerm (n_state n)" "votedFor (n_state n') = votedFor (n_state n)"
    "live_log (n_state n') = live_log (n_state n)" "lastSnapshot (n_state n') = lastSnapshot (n_state n)"
    "lastApplied (n_state n') = base_index (n_state n)" "commitIndex (n_state n') = base_index (n_state n)"
    "role (n_state n') = Follower" "node_inv (n_state n')"
proof -
  let ?s = "n_state n" and ?c = "fillDefaults cfg"
  let ?f = "newNodeState (cfg_ID ?c) (cfg_Peers ?c) (cfg_ElectionMinMs ?c) (cfg_ElectionMaxMs ?c)"
  let ?r = "restoreState (getPersistentState ?s) ?f"
  let ?t = "restoreSnapshot (lastSnapshot ?s) ?r"
  have len: "length (live_log ?s) \<le> logArrayCapacity" using inv by (simp add: node_inv_def log_wf_def)
  note r = restoreState_effect [of "getPersistentState ?s" ?f]
  have r': "live_log ?r = live_log ?s" "currentTerm ?r = currentTerm ?s" "votedFor ?r = votedFor ?s"
    "lastSnapshot ?r = None" "role ?r = Follower" "commitIndex ?r = - 1" "lastApplied ?r = - 1"
    "maps_wf ?r" "queue_wf ?r"
    using r len pos newNodeState_inv [of "cfg_ID ?c" "cfg_Peers ?c" "cfg_ElectionMinMs ?c" "cfg_ElectionMaxMs ?c"]
    by (simp_all add: getPersistentState_def node_inv_def)
  have t: "live_log ?t = live_log ?s" "currentTerm ?t = currentTerm ?s" "votedFor ?t = votedFor ?s"
    "lastSnapshot ?t = lastSnapshot ?s" "role ?t = Follower" "commitIndex ?t = base_index ?s"
    "lastApplied ?t = base_index ?s" "maps_wf ?t" "queue_wf ?t"
    using r' by (auto simp: restoreSnapshot_def base_index_def live_log_def maps_wf_def queue_wf_def split: option.splits)
  have inv_t: "node_inv ?t"
    using inv t live_log_eq_log_wf [OF t(1,4)] by (simp add: node_inv_def apply_wf_def base_index_def)
  obtain n0 where new: "New cfg (Some sm0) True (Some (n_storage n)) = Inr n0" and n0: "n_state n0 = ?f"
    "n_storage n0 = n_storage n" "n_sm n0 = sm0" by (simp add: New_def Let_def)
  obtain n' where n': "restart d cfg sm0 (n_storage n) = Inr n'" "n_state n' = ?t" "n_sm n' = sm'"
    "n_storage n' = n_storage n"
    using dur sm n0 new
    by (cases "lastSnapshot ?s")
      (auto simp: restart_def Start_def durable_def restoreSnapshot_def Let_def)
  show thesis by (rule that [OF n'(1,3,4)]) (use n'(2) t inv_t in simp_all)
qed

section \<open>Construction\<close>

text \<open>\<open>New\<close> checks its components in order and reports the first that is missing; otherwise the
  node is a follower of term 0 with an empty log, the timer bounds and heartbeat it was
  given or the defaults for those left at zero, and the invariant holds.\<close>

lemma new_checks_components:
  "New cfg None t st = Inl ''raft.New: StateMachine must not be nil'' \<and>
   New cfg (Some sm) False st = Inl ''raft.New: Transport must not be nil'' \<and>
   New cfg (Some sm) True (None :: 'st option) = Inl ''raft.New: Storage must not be nil'' \<and>
   (\<exists>n. New cfg (Some sm) True (Some x) = Inr n \<and> node_inv (n_state n) \<and> role (n_state n) = Follower \<and>
      currentTerm (n_state n) = 0 \<and> live_log (n_state n) = [] \<and> n_storage n = x \<and> n_sm n = sm \<and>
      cfg_HeartbeatMs (n_cfg n) = (if cfg_HeartbeatMs cfg = 0 then 20 else cfg_HeartbeatMs cfg) \<and>
      timing (n_state n) = (if cfg_ElectionMinMs cfg = 0 then 150 else cfg_ElectionMinMs cfg,
                            if cfg_ElectionMaxMs cfg = 0 then 300 else cfg_ElectionMaxMs cfg))"
proof -
  have "timing (fold initPeer ps s) = timing s" for ps s
    by (induction ps arbitrary: s) (simp_all add: initPeer_def)
  then have "timing (newNodeState i ps a b) = (a, b)" for i ps a b by (simp add: newNodeState_def)
  then show ?thesis
    by (auto simp: New_def fillDefaults_def Let_def newNodeState_inv live_log_def)
qed

section \<open>Timer bounds\<close>

text \<open>\<open>New\<close> accepts any timer bounds: when the maximum is not above the minimum, the first
  iteration of a follower panics in \<open>rand.Intn\<close>.\<close>

lemma bad_timer_bounds_panic:
  assumes "cfg_ElectionMinMs cfg \<noteq> 0" "cfg_ElectionMaxMs cfg \<noteq> 0" "cfg_ElectionMaxMs cfg \<le> cfg_ElectionMinMs cfg"
  shows "\<exists>n. New cfg (Some sm) True (Some st) = Inr n \<and> run_iteration d env ev n = Inl IntnNonPositive"
proof -
  let ?c = "fillDefaults cfg"
  let ?s = "newNodeState (cfg_ID ?c) (cfg_Peers ?c) (cfg_ElectionMinMs ?c) (cfg_ElectionMaxMs ?c)"
  have f: "electionTimeoutStarted (fold initPeer ps s) = electionTimeoutStarted s \<and>
      inConfigChange (fold initPeer ps s) = inConfigChange s \<and> pendingConfigs (fold initPeer ps s) = pendingConfigs s \<and>
      electionMinMs (fold initPeer ps s) = electionMinMs s \<and> electionMaxMs (fold initPeer ps s) = electionMaxMs s" for ps s
    by (induction ps arbitrary: s) (simp_all add: initPeer_def)
  have s: "\<not> electionTimeoutStarted ?s" "pendingConfigs ?s = 0" "electionMinMs ?s = cfg_ElectionMinMs cfg"
    "electionMaxMs ?s = cfg_ElectionMaxMs cfg"
    using f assms by (simp_all add: newNodeState_def fillDefaults_def Let_def)
  obtain n where n: "New cfg (Some sm) True (Some st) = Inr n" "n_state n = ?s" "\<not> n_stopped n"
    by (simp add: New_def Let_def)
  have "updateLastApplied ?s = (- 1, ?s)" by (simp add: updateLastApplied_def)
  then have "checkLogsToApply d n = (n, [])" using n(2) by (simp add: checkLogsToApply_def)
  then have "run_iteration d env ev n = Inl IntnNonPositive"
    using n(2,3) s assms
    by (simp add: run_iteration_def checkConfigurationsToStart_def handleNextConfigurationChange_def startedConfig_def
        handleFollower_def checkElectionTimeout_def Intn_def andThen_def)
  then show ?thesis using n(1) by blast
qed

end
