(* ===== verification/Raft_Cluster.thy ===== *)
theory Raft_Cluster
  imports Raft_Restart "HOL-Library.Multiset"
begin

text \<open>
  A cluster of nodes exchanging the messages of src/types/types.go, as a step relation
  over the code's own handlers (src/raft/election.go, log.go, snapshot.go). Requests and
  responses of an election are in flight until they are delivered, once, or lost: an RPC
  call has at most one reply. AppendEntries and InstallSnapshot messages, and the replies
  to them, are arbitrary: the argument does not depend on who sent them.

  Two histories are recorded beside the nodes: who voted for whom in which term, and who
  won which term. Membership is fixed: no configuration entry is appended.
\<close>

section \<open>Nodes, messages, histories\<close>

record cluster =
  cl_node :: "server_id \<Rightarrow> node_state"
  cl_reqs :: "(server_id \<times> request_vote_args) multiset"
  cl_resps :: "(server_id \<times> request_vote_response) multiset"
  cl_votes :: "(server_id \<times> int \<times> server_id) set"
  cl_counted :: "server_id \<Rightarrow> int \<Rightarrow> server_id set"
  cl_won :: "(int \<times> server_id) set"

text \<open>The node's configuration, and the one it would roll back to, are the members.\<close>

definition config_is :: "server_id set \<Rightarrow> node_state \<Rightarrow> bool" where
  "config_is M s \<longleftrightarrow> m_ok (serverConfig s) \<and> set (mkeys (serverConfig s)) = M \<and>
     m_ok (oldServerConfig s) \<and> set (mkeys (oldServerConfig s)) = M"

definition init_cluster :: "server_id set \<Rightarrow> cluster \<Rightarrow> bool" where
  "init_cluster M c \<longleftrightarrow> cl_reqs c = {#} \<and> cl_resps c = {#} \<and> cl_votes c = {} \<and> cl_won c = {} \<and>
     cl_counted c = (\<lambda>_ _. {}) \<and>
     (\<forall>i \<in> M. config_is M (cl_node c i) \<and> currentTerm (cl_node c i) = 0 \<and>
        votedFor (cl_node c i) = '''' \<and> role (cl_node c i) = Follower)"

text \<open>What a crash and restart keeps (\<open>restart_recovers\<close>): the term and the vote.\<close>

definition restarted :: "node_state \<Rightarrow> node_state \<Rightarrow> bool" where
  "restarted s s' \<longleftrightarrow> currentTerm s' = currentTerm s \<and> votedFor s' = votedFor s \<and> role s' = Follower"

section \<open>Steps\<close>

text \<open>
  \<open>handler\<close> is one call of a handler that sends nothing the election depends on:
  AppendEntries without configuration entries, its reply at a leader, InstallSnapshot,
  its reply at a leader (a failure of the leader's own term is left out, since the code
  clears the vote on it), a client's command, a commit, an application, a timer.
\<close>

inductive handler :: "server_id \<Rightarrow> node_state \<Rightarrow> node_state \<Rightarrow> bool" for i where
  append: "\<forall>e \<in> set (ae_Entries aea). rl_Type e \<noteq> LogConfiguration \<Longrightarrow>
     handleAppendEntries sha g i aea s = (r, s') \<Longrightarrow> handler i s s'"
| append_reply: "role s = Leader \<Longrightarrow> handleAppendEntriesResponse i aer s = (r, s') \<Longrightarrow> handler i s s'"
| install: "handleInstallSnapshotRequest i isa s = (r, s') \<Longrightarrow> handler i s s'"
| install_reply: "role s = Leader \<Longrightarrow> isr_Success isr \<or> isr_Term isr \<noteq> currentTerm s \<Longrightarrow>
     handleInstallSnapshotResponse i isr s = (r, s') \<Longrightarrow> handler i s s'"
| command: "addCommandLog sha g i cid q data s = (r, s') \<Longrightarrow> handler i s s'"
| commit: "handler i s (checkCommits s)"
| apply_next: "updateLastApplied s = (k, s') \<Longrightarrow> handler i s s'"
| send: "handler i s (snd (getAppendEntriesArgs p s))"
| tick: "checkElectionTimeout rand s = Inr s' \<Longrightarrow> handler i s s'"
| stop_timer: "handler i s (stopElectionTimeout s)"

inductive cstep :: "(bytes \<Rightarrow> bytes) \<Rightarrow> server_id set \<Rightarrow> cluster \<Rightarrow> cluster \<Rightarrow> bool" for sha M where
  handle: "i \<in> M \<Longrightarrow> handler i (cl_node c i) s' \<Longrightarrow> cstep sha M c (c\<lparr>cl_node := (cl_node c)(i := s')\<rparr>)"
| crash: "i \<in> M \<Longrightarrow> restarted (cl_node c i) s' \<Longrightarrow> config_is M s' \<Longrightarrow>
     cstep sha M c (c\<lparr>cl_node := (cl_node c)(i := s')\<rparr>)"
| lose_req: "cstep sha M c (c\<lparr>cl_reqs := cl_reqs c - {#m#}\<rparr>)"
| lose_resp: "cstep sha M c (c\<lparr>cl_resps := cl_resps c - {#m#}\<rparr>)"
| timeout: "i \<in> M \<Longrightarrow> role (cl_node c i) \<noteq> Leader \<Longrightarrow> currentTerm (cl_node c i) < max_int64 \<Longrightarrow>
     s' = startElection i (cl_node c i) \<Longrightarrow>
     cstep sha M c (c\<lparr>cl_node := (cl_node c)(i := s'),
       cl_reqs := cl_reqs c + image_mset (\<lambda>p. (p, prepareRequestVoteRPC i s')) (mset_set (M - {i})),
       cl_votes := insert (i, currentTerm s', i) (cl_votes c)\<rparr>)"
| alone: "M = {i} \<Longrightarrow> role (cl_node c i) = Candidate \<Longrightarrow> votedFor (cl_node c i) = i \<Longrightarrow>
     cstep sha M c (c\<lparr>cl_node := (cl_node c)(i := winElection sha i (cl_node c i)),
       cl_won := insert (currentTerm (cl_node c i), i) (cl_won c)\<rparr>)"
| vote: "p \<in> M \<Longrightarrow> (p, a) \<in># cl_reqs c \<Longrightarrow> handleRequestToVote p a (cl_node c p) = (r, s') \<Longrightarrow>
     cstep sha M c (c\<lparr>cl_node := (cl_node c)(p := s'),
       cl_reqs := cl_reqs c - {#(p, a)#},
       cl_resps := add_mset (rv_CandidateID a, r) (cl_resps c),
       cl_votes := (if rvr_VoteGranted r then insert (p, rv_Term a, rv_CandidateID a) (cl_votes c)
                    else cl_votes c)\<rparr>)"
| count: "i \<in> M \<Longrightarrow> (i, r) \<in># cl_resps c \<Longrightarrow> role (cl_node c i) = Candidate \<Longrightarrow>
     updateElection r (cl_node c i) = (won, s') \<Longrightarrow>
     cstep sha M c (c\<lparr>cl_node := (cl_node c)(i := if won then winElection sha i s' else s'),
       cl_resps := cl_resps c - {#(i, r)#},
       cl_counted := (if rvr_VoteGranted r
                      then (cl_counted c)(i := (cl_counted c i)(rvr_Term r := insert (rvr_ID r) (cl_counted c i (rvr_Term r))))
                      else cl_counted c),
       cl_won := (if won then insert (currentTerm s', i) (cl_won c) else cl_won c)\<rparr>)"

inductive reach :: "(bytes \<Rightarrow> bytes) \<Rightarrow> server_id set \<Rightarrow> cluster \<Rightarrow> bool" for sha M where
  init: "init_cluster M c \<Longrightarrow> reach sha M c"
| step: "reach sha M c \<Longrightarrow> cstep sha M c c' \<Longrightarrow> reach sha M c'"

section \<open>Handlers that leave an election alone\<close>

text \<open>
  Term never down; within a term the vote stays and no one becomes a candidate; a raised
  term starts without a vote.
\<close>

definition calm :: "node_state \<Rightarrow> node_state \<Rightarrow> bool" where
  "calm s s' \<longleftrightarrow> currentTerm s \<le> currentTerm s' \<and>
     (currentTerm s' = currentTerm s \<longrightarrow> votedFor s' = votedFor s \<and>
        (role s' = Candidate \<longrightarrow> role s = Candidate \<and> electionVotes s' = electionVotes s)) \<and>
     (currentTerm s < currentTerm s' \<longrightarrow> votedFor s' = '''')"

lemma calmI:
  "currentTerm s' = currentTerm s \<Longrightarrow> votedFor s' = votedFor s \<Longrightarrow>
     role s' = role s \<or> role s' = Follower \<Longrightarrow> electionVotes s' = electionVotes s \<Longrightarrow> calm s s'"
  by (auto simp: calm_def)

lemma restarted_calm: "restarted s s' \<Longrightarrow> calm s s'"
  by (simp add: restarted_def calm_def)

lemma config_is_frame:
  "serverConfig s' = serverConfig s \<Longrightarrow> oldServerConfig s' = oldServerConfig s \<Longrightarrow> config_is M s' = config_is M s"
  by (simp add: config_is_def)

lemma mergeEntries_config:
  assumes "\<forall>e \<in> set es. rl_Type e \<noteq> LogConfiguration" "config_is M s"
  shows "config_is M (mergeEntries sha pos es s)"
  using assms
proof (induction es arbitrary: pos s)
  case (Cons e es)
  have "config_is M (s\<lparr>serverConfig := copyConfig (oldServerConfig s)\<rparr>)"
    using Cons.prems(2) by (simp add: config_is_def copyConfig_id)
  moreover have "config_is M t \<Longrightarrow> config_is M (putEntry sha pos e t)" for t
    using Cons.prems(1) by (simp add: putEntry_def Let_def config_is_def)
  ultimately have "config_is M (mergeEntry sha pos e s)"
    using Cons.prems(2) by (simp add: mergeEntry_def Let_def)
  then show ?case using Cons.IH Cons.prems(1) by simp
qed simp

lemma stepDownTo_calm: "\<not> ae_Term aea < currentTerm s \<Longrightarrow> calm s (stepDownTo aea s)"
  by (auto simp: stepDownTo_def Let_def calm_def)

lemma handleAppendEntries_calm:
  assumes "\<forall>e \<in> set (ae_Entries aea). rl_Type e \<noteq> LogConfiguration"
    "handleAppendEntries sha g i aea s = (r, s')"
  shows "calm s s'" "config_is M s \<Longrightarrow> config_is M s'"
proof -
  have sd: "config_is M (stepDownTo aea s) = config_is M s"
    by (rule config_is_frame) (simp_all add: stepDownTo_def Let_def)
  have via: "calm s t" if "\<not> ae_Term aea < currentTerm s" "currentTerm t = currentTerm (stepDownTo aea s)"
    "votedFor t = votedFor (stepDownTo aea s)" "role t = role (stepDownTo aea s)" for t
    using stepDownTo_calm [OF that(1)] that(2-4) by (simp add: calm_def)
  note cs = handleAppendEntries_cases [where aea = aea and s = s and sha = sha and g = g and me = i]
  show "calm s s'"
    by (cases rule: cs)
      (use assms(2) in \<open>auto intro!: via simp: takeSnapshot_frame calm_def [of s s]\<close>)
  show "config_is M s'" if "config_is M s"
  proof (cases rule: cs)
    case (full k b t)
    then show ?thesis using that assms(2) sd takeSnapshot_frame(11,12) [OF full(4)]
      by (simp add: config_is_def)
  next
    case (merged k)
    let ?t = "(stepDownTo aea s)\<lparr>currentLeader := ae_LeaderID aea\<rparr>"
    have "config_is M (mergeEntries sha (nat (k + 1)) (ae_Entries aea) ?t)"
      using mergeEntries_config [OF assms(1), of M ?t] that sd by (simp add: config_is_def)
    moreover have "config_is M (advanceCommit aea u) = config_is M u" for u
      by (rule config_is_frame) (simp_all add: advanceCommit_def)
    ultimately show ?thesis using merged(4) assms(2) by simp
  qed (use that assms(2) sd in simp_all)
qed

lemma handleAppendEntriesResponse_calm:
  assumes "handleAppendEntriesResponse i aer s = (r, s')"
  shows "calm s s'" "serverConfig s' = serverConfig s" "oldServerConfig s' = oldServerConfig s"
  using assms
  by (auto simp: handleAppendEntriesResponse_def Let_def calm_def updateCurrentTerm_def split: if_splits)

lemma handleInstallSnapshotRequest_calm:
  assumes "handleInstallSnapshotRequest i isa s = (r, s')"
  shows "calm s s'" "serverConfig s' = serverConfig s" "oldServerConfig s' = oldServerConfig s"
  using assms
  by (auto simp: handleInstallSnapshotRequest_def Let_def calm_def updateCurrentTerm_def split: if_splits)

lemma handleInstallSnapshotResponse_calm:
  assumes "handleInstallSnapshotResponse i isr s = (r, s')" "isr_Success isr \<or> isr_Term isr \<noteq> currentTerm s"
  shows "calm s s'" "serverConfig s' = serverConfig s" "oldServerConfig s' = oldServerConfig s"
  using assms
  by (auto simp: handleInstallSnapshotResponse_def Let_def calm_def updateCurrentTerm_def split: if_splits)

lemma addCommandLog_frame:
  assumes "addCommandLog sha g i cid q data s = (r, s')"
  shows "currentTerm s' = currentTerm s" "votedFor s' = votedFor s" "role s' = role s"
    "electionVotes s' = electionVotes s" "serverConfig s' = serverConfig s" "oldServerConfig s' = oldServerConfig s"
  using assms
  by (auto simp: addCommandLog_def Let_def takeSnapshot_frame split: if_splits prod.splits)

lemma checkCommits_frame:
  "currentTerm (checkCommits s) = currentTerm s" "votedFor (checkCommits s) = votedFor s"
  "role (checkCommits s) = role s" "electionVotes (checkCommits s) = electionVotes s"
  "serverConfig (checkCommits s) = serverConfig s" "oldServerConfig (checkCommits s) = oldServerConfig s"
proof -
  obtain c where c: "checkCommits s = s\<lparr>commitIndex := c\<rparr>"
    by (cases rule: checkCommits_loop_cases [of "nextLogIdx s" s])
      (simp_all add: checkCommits_def, metis node_state.surjective node_state.update_convs(7))
  show "currentTerm (checkCommits s) = currentTerm s" "votedFor (checkCommits s) = votedFor s"
    "role (checkCommits s) = role s" "electionVotes (checkCommits s) = electionVotes s"
    "serverConfig (checkCommits s) = serverConfig s" "oldServerConfig (checkCommits s) = oldServerConfig s"
    by (simp_all add: c)
qed

lemma same_but_sent_frame:
  assumes "same_but_sent s s'"
  shows "currentTerm s' = currentTerm s" "votedFor s' = votedFor s" "role s' = role s"
    "electionVotes s' = electionVotes s" "serverConfig s' = serverConfig s" "oldServerConfig s' = oldServerConfig s"
proof -
  obtain m where "s' = s\<lparr>lastSentLogIndex := m\<rparr>" using assms unfolding same_but_sent_def by blast
  then show "currentTerm s' = currentTerm s" "votedFor s' = votedFor s" "role s' = role s"
    "electionVotes s' = electionVotes s" "serverConfig s' = serverConfig s" "oldServerConfig s' = oldServerConfig s"
    by simp_all
qed

lemma updateLastApplied_frame:
  assumes "updateLastApplied s = (k, s')"
  shows "currentTerm s' = currentTerm s" "votedFor s' = votedFor s" "role s' = role s"
    "electionVotes s' = electionVotes s" "serverConfig s' = serverConfig s" "oldServerConfig s' = oldServerConfig s"
  using assms by (auto simp: updateLastApplied_def split: if_splits prod.splits)

lemma checkElectionTimeout_frame:
  assumes "checkElectionTimeout rand s = Inr s'"
  shows "currentTerm s' = currentTerm s" "votedFor s' = votedFor s" "role s' = role s"
    "electionVotes s' = electionVotes s" "serverConfig s' = serverConfig s" "oldServerConfig s' = oldServerConfig s"
  using assms by (auto simp: checkElectionTimeout_def split: if_splits sum.splits)

lemma frame_calm:
  assumes "currentTerm s' = currentTerm s" "votedFor s' = votedFor s" "role s' = role s"
    "electionVotes s' = electionVotes s" "serverConfig s' = serverConfig s" "oldServerConfig s' = oldServerConfig s"
  shows "calm s s' \<and> (config_is M s \<longrightarrow> config_is M s')"
  using assms calmI [of s' s] config_is_frame [of s' s M] by simp

lemma handler_calm:
  assumes "handler i s s'"
  shows "calm s s'" "config_is M s \<Longrightarrow> config_is M s'"
proof -
  have "calm s s' \<and> (config_is M s \<longrightarrow> config_is M s')"
    using assms
  proof cases
    case append
    then show ?thesis using handleAppendEntries_calm by blast
  next
    case append_reply
    then show ?thesis using handleAppendEntriesResponse_calm config_is_frame by blast
  next
    case install
    then show ?thesis using handleInstallSnapshotRequest_calm config_is_frame by blast
  next
    case install_reply
    then show ?thesis using handleInstallSnapshotResponse_calm config_is_frame by blast
  next
    case command
    show ?thesis by (rule frame_calm) (rule addCommandLog_frame [OF command])+
  next
    case commit
    show ?thesis unfolding commit by (rule frame_calm) (rule checkCommits_frame)+
  next
    case apply_next
    show ?thesis by (rule frame_calm) (rule updateLastApplied_frame [OF apply_next])+
  next
    case (send p)
    show ?thesis unfolding send
      by (rule frame_calm) (rule same_but_sent_frame [OF getAppendEntriesArgs_sent])+
  next
    case (tick rand)
    show ?thesis by (rule frame_calm) (rule checkElectionTimeout_frame [OF tick])+
  next
    case stop_timer
    show ?thesis unfolding stop_timer by (rule frame_calm) simp_all
  qed
  then show "calm s s'" "config_is M s \<Longrightarrow> config_is M s'" by blast+
qed

section \<open>The invariant\<close>

text \<open>
  Tokens: the request of candidate \<open>i\<close> in term \<open>t\<close> on its way to \<open>p\<close>, or \<open>p\<close>'s grant on
  its way back. With the grants already counted there is at most one per voter.
\<close>

definition tok ::
  "(server_id \<times> request_vote_args) multiset \<Rightarrow> (server_id \<times> request_vote_response) multiset
     \<Rightarrow> server_id \<Rightarrow> int \<Rightarrow> server_id \<Rightarrow> nat" where
  "tok R S i t p =
     size (filter_mset (\<lambda>(q, a). q = p \<and> rv_CandidateID a = i \<and> rv_Term a = t) R) +
     size (filter_mset (\<lambda>(j, r). j = i \<and> rvr_ID r = p \<and> rvr_Term r = t \<and> rvr_VoteGranted r) S)"

lemma tok_add:
  "tok (add_mset (q, a) R) S i t p =
     (if q = p \<and> rv_CandidateID a = i \<and> rv_Term a = t then Suc (tok R S i t p) else tok R S i t p)"
  "tok R (add_mset (j, r) S) i t p =
     (if j = i \<and> rvr_ID r = p \<and> rvr_Term r = t \<and> rvr_VoteGranted r then Suc (tok R S i t p) else tok R S i t p)"
  "tok {#} {#} i t p = 0"
  by (simp_all add: tok_def)

lemma tok_le: "R' \<subseteq># R \<Longrightarrow> S' \<subseteq># S \<Longrightarrow> tok R' S' i t p \<le> tok R S i t p"
  by (simp add: tok_def add_mono size_mset_mono multiset_filter_mono)

lemma tok_requests:
  assumes "finite N"
  shows "tok (R + image_mset (\<lambda>q. (q, a)) (mset_set N)) S i t p =
    tok R S i t p + (if p \<in> N \<and> rv_CandidateID a = i \<and> rv_Term a = t then 1 else 0)"
  using assms
  by (induction N) (auto simp: tok_add tok_def)

text \<open>What the histories say about the nodes.\<close>

definition votes_inv :: "server_id set \<Rightarrow> cluster \<Rightarrow> bool" where
  "votes_inv M c \<longleftrightarrow>
     (\<forall>v t x. (v, t, x) \<in> cl_votes c \<longrightarrow> v \<in> M \<and> x \<in> M \<and> t \<le> currentTerm (cl_node c v) \<and>
        (t = currentTerm (cl_node c v) \<longrightarrow> votedFor (cl_node c v) = x)) \<and>
     (\<forall>v t x y. (v, t, x) \<in> cl_votes c \<longrightarrow> (v, t, y) \<in> cl_votes c \<longrightarrow> x = y)"

definition nodes_inv :: "server_id set \<Rightarrow> cluster \<Rightarrow> bool" where
  "nodes_inv M c \<longleftrightarrow> (\<forall>i \<in> M. config_is M (cl_node c i) \<and> 0 \<le> currentTerm (cl_node c i) \<and>
     (role (cl_node c i) = Candidate \<and> votedFor (cl_node c i) = i \<longrightarrow>
        (i, currentTerm (cl_node c i), i) \<in> cl_votes c \<and> 1 \<le> electionVotes (cl_node c i) \<and>
        electionVotes (cl_node c i) \<le> 1 + int (card (cl_counted c i (currentTerm (cl_node c i))))))"

definition tokens_inv :: "cluster \<Rightarrow> bool" where
  "tokens_inv c \<longleftrightarrow>
     (\<forall>i r. (i, r) \<in># cl_resps c \<longrightarrow> rvr_VoteGranted r \<longrightarrow> (rvr_ID r, rvr_Term r, i) \<in> cl_votes c) \<and>
     (\<forall>i t p. p \<in> cl_counted c i t \<longrightarrow> (p, t, i) \<in> cl_votes c) \<and>
     (\<forall>i t p. tok (cl_reqs c) (cl_resps c) i t p + (if p \<in> cl_counted c i t then 1 else 0) \<le> 1) \<and>
     (\<forall>i t p. tok (cl_reqs c) (cl_resps c) i t p > 0 \<or> p \<in> cl_counted c i t \<longrightarrow>
        (i, t, i) \<in> cl_votes c \<and> p \<noteq> i)"

lemma tokens_invI:
  assumes "\<And>i r. (i, r) \<in># cl_resps c \<Longrightarrow> rvr_VoteGranted r \<Longrightarrow> (rvr_ID r, rvr_Term r, i) \<in> cl_votes c"
    and "\<And>i t p. p \<in> cl_counted c i t \<Longrightarrow> (p, t, i) \<in> cl_votes c"
    and "\<And>i t p. tok (cl_reqs c) (cl_resps c) i t p + (if p \<in> cl_counted c i t then 1 else 0) \<le> 1"
    and "\<And>i t p. tok (cl_reqs c) (cl_resps c) i t p > 0 \<or> p \<in> cl_counted c i t \<Longrightarrow>
        (i, t, i) \<in> cl_votes c \<and> p \<noteq> i"
  shows "tokens_inv c"
  unfolding tokens_inv_def using assms by blast

lemma tokens_invD:
  assumes "tokens_inv c"
  shows "\<And>i r. (i, r) \<in># cl_resps c \<Longrightarrow> rvr_VoteGranted r \<Longrightarrow> (rvr_ID r, rvr_Term r, i) \<in> cl_votes c"
    and "\<And>i t p. p \<in> cl_counted c i t \<Longrightarrow> (p, t, i) \<in> cl_votes c"
    and "\<And>i t p. tok (cl_reqs c) (cl_resps c) i t p + (if p \<in> cl_counted c i t then 1 else 0) \<le> 1"
    and "\<And>i t p. tok (cl_reqs c) (cl_resps c) i t p > 0 \<Longrightarrow> (i, t, i) \<in> cl_votes c \<and> p \<noteq> i"
    and "\<And>i t p. p \<in> cl_counted c i t \<Longrightarrow> (i, t, i) \<in> cl_votes c \<and> p \<noteq> i"
  using assms unfolding tokens_inv_def by blast+

definition won_inv :: "server_id set \<Rightarrow> cluster \<Rightarrow> bool" where
  "won_inv M c \<longleftrightarrow> (\<forall>t i. (t, i) \<in> cl_won c \<longrightarrow> card {v. (v, t, i) \<in> cl_votes c} > card M div 2)"

definition cluster_inv :: "server_id set \<Rightarrow> cluster \<Rightarrow> bool" where
  "cluster_inv M c \<longleftrightarrow> votes_inv M c \<and> nodes_inv M c \<and> tokens_inv c \<and> won_inv M c"

text \<open>The members: finitely many, with proper names.\<close>

definition members_ok :: "server_id set \<Rightarrow> bool" where
  "members_ok M \<longleftrightarrow> finite M \<and> '''' \<notin> M \<and> int (card M) < max_int64"

lemma init_cluster_inv: "init_cluster M c \<Longrightarrow> cluster_inv M c"
  by (simp add: init_cluster_def cluster_inv_def votes_inv_def nodes_inv_def tokens_inv_def won_inv_def tok_add)

lemma calm_votes_inv:
  assumes "votes_inv M c" "calm (cl_node c i) s'"
  shows "votes_inv M (c\<lparr>cl_node := (cl_node c)(i := s')\<rparr>)"
  using assms unfolding votes_inv_def calm_def by fastforce

lemma calm_nodes_inv:
  assumes "nodes_inv M c" "members_ok M" "calm (cl_node c i) s'" "config_is M s'"
  shows "nodes_inv M (c\<lparr>cl_node := (cl_node c)(i := s')\<rparr>)"
proof -
  have "0 \<le> currentTerm s' \<and> (role s' = Candidate \<and> votedFor s' = i \<longrightarrow>
        (i, currentTerm s', i) \<in> cl_votes c \<and> 1 \<le> electionVotes s' \<and>
        electionVotes s' \<le> 1 + int (card (cl_counted c i (currentTerm s'))))" if "i \<in> M"
  proof -
    have "i \<noteq> ''''" using assms(2) that by (auto simp: members_ok_def)
    then show ?thesis
      using assms(1,3) that unfolding nodes_inv_def calm_def
      by (cases "currentTerm s' = currentTerm (cl_node c i)") auto
  qed
  then show ?thesis using assms(1,4) by (simp add: nodes_inv_def)
qed

lemma calm_cluster_inv:
  assumes "cluster_inv M c" "members_ok M" "calm (cl_node c i) s'" "config_is M s'"
  shows "cluster_inv M (c\<lparr>cl_node := (cl_node c)(i := s')\<rparr>)"
  using assms calm_votes_inv calm_nodes_inv
  by (simp add: cluster_inv_def) (simp add: tokens_inv_def won_inv_def)

lemma lose_cluster_inv:
  assumes inv: "cluster_inv M c" and sub: "R \<subseteq># cl_reqs c" "S \<subseteq># cl_resps c"
  shows "cluster_inv M (c\<lparr>cl_reqs := R, cl_resps := S\<rparr>)"
proof -
  have le: "tok R S i t p \<le> tok (cl_reqs c) (cl_resps c) i t p" for i t p by (rule tok_le [OF sub])
  have T: "tokens_inv c" using inv by (simp add: cluster_inv_def)
  have "tokens_inv (c\<lparr>cl_reqs := R, cl_resps := S\<rparr>)"
  proof (rule tokens_invI, goal_cases)
    case (1 i r)
    then show ?case using tokens_invD(1) [OF T, of i r] mset_subset_eqD [OF sub(2), of "(i, r)"] by simp
  next
    case (2 i t p)
    then show ?case using tokens_invD(2) [OF T] by simp
  next
    case (3 i t p)
    then show ?case using tokens_invD(3) [OF T, of i t p] le [of i t p] by simp
  next
    case (4 i t p)
    then show ?case using tokens_invD(4) [OF T, of i t p] tokens_invD(5) [OF T, of p i t] le [of i t p] by auto
  qed
  then show ?thesis using inv
    by (simp add: cluster_inv_def) (simp add: votes_inv_def nodes_inv_def won_inv_def)
qed

text \<open>More votes never take a majority away.\<close>

lemma won_inv_mono:
  assumes "won_inv M c" "votes_inv M c'" "finite M" "cl_votes c \<subseteq> cl_votes c'" "cl_won c' = cl_won c"
  shows "won_inv M c'"
proof -
  have "card {v. (v, t, i) \<in> cl_votes c} \<le> card {v. (v, t, i) \<in> cl_votes c'}" for t i
    using assms(2-4) by (intro card_mono) (auto simp: votes_inv_def intro: finite_subset [of _ M])
  then have "card M div 2 < card {v. (v, t, i) \<in> cl_votes c'}" if "(t, i) \<in> cl_won c" for t i
    using assms(1) that unfolding won_inv_def by (meson order_less_le_trans)
  then show ?thesis using assms(5) by (simp add: won_inv_def)
qed

lemma prepare_fields [simp]:
  "rv_Term (prepareRequestVoteRPC i s) = currentTerm s" "rv_CandidateID (prepareRequestVoteRPC i s) = i"
  by (simp_all add: prepareRequestVoteRPC_def split: prod.splits)

lemma timeout_cluster_inv:
  assumes inv: "cluster_inv M c" and M: "members_ok M" and i: "i \<in> M"
    and max: "currentTerm (cl_node c i) < max_int64" and s': "s' = startElection i (cl_node c i)"
  shows "cluster_inv M (c\<lparr>cl_node := (cl_node c)(i := s'),
       cl_reqs := cl_reqs c + image_mset (\<lambda>p. (p, prepareRequestVoteRPC i s')) (mset_set (M - {i})),
       cl_votes := insert (i, currentTerm s', i) (cl_votes c)\<rparr>)" (is "cluster_inv M ?c'")
proof -
  have V: "votes_inv M c" and N: "nodes_inv M c" and T: "tokens_inv c" and W: "won_inv M c"
    using inv by (simp_all add: cluster_inv_def)
  have s: "currentTerm s' = currentTerm (cl_node c i) + 1" "role s' = Candidate" "votedFor s' = i"
    "electionVotes s' = 1" "config_is M s'"
    using N i max by (auto simp: s' startElection_def wrap64_succ nodes_inv_def config_is_def)
  have fresh: "(i, currentTerm s', x) \<notin> cl_votes c" for x
    using V s(1) unfolding votes_inv_def by fastforce
  have V': "votes_inv M ?c'"
    using V i s fresh unfolding votes_inv_def by fastforce
  have "nodes_inv M ?c'" using N s by (auto simp: nodes_inv_def)
  moreover have "tokens_inv ?c'"
  proof -
    have t0: "tok (cl_reqs c) (cl_resps c) i (currentTerm s') p = 0" "p \<notin> cl_counted c i (currentTerm s')" for p
      using tokens_invD(4) [OF T, of i "currentTerm s'" p] tokens_invD(5) [OF T, of p i "currentTerm s'"] fresh
      by auto
    have fin: "finite (M - {i})" using M by (simp add: members_ok_def)
    show ?thesis
    proof (rule tokens_invI, goal_cases)
      case (1 j r)
      then show ?case using tokens_invD(1) [OF T, of j r] by simp
    next
      case (2 j t p)
      then show ?case using tokens_invD(2) [OF T, of p j t] by simp
    next
      case (3 j t p)
      then show ?case using tokens_invD(3) [OF T, of j t p] t0 [of p]
        by (cases "j = i \<and> t = currentTerm s'") (auto simp: tok_requests [OF fin])
    next
      case (4 j t p)
      then show ?case using tokens_invD(4) [OF T, of j t p] tokens_invD(5) [OF T, of p j t] t0 [of p]
        by (cases "j = i \<and> t = currentTerm s'") (auto simp: tok_requests [OF fin])
    qed
  qed
  moreover have "won_inv M ?c'" using won_inv_mono [OF W V'] M by (auto simp: members_ok_def)
  ultimately show ?thesis using V' by (simp add: cluster_inv_def)
qed

lemma winElection_calm:
  "calm s (winElection sha i s)" "config_is M (winElection sha i s) = config_is M s"
proof -
  have "oldServerConfig (winElection sha i s) = oldServerConfig s"
    by (simp add: winElection_def addNoopLogLocked_def Let_def)
  then show "config_is M (winElection sha i s) = config_is M s" by (intro config_is_frame) simp_all
qed (simp add: calm_def)

lemma win_cluster_inv:
  assumes inv: "cluster_inv M c" and M: "members_ok M" and i: "i \<in> M"
    and t: "t = currentTerm (cl_node c i)" and maj: "card {v. (v, t, i) \<in> cl_votes c} > card M div 2"
  shows "cluster_inv M (c\<lparr>cl_node := (cl_node c)(i := winElection sha i (cl_node c i)), cl_won := insert (t, i) (cl_won c)\<rparr>)"
proof -
  have "config_is M (cl_node c i)" using inv i by (simp add: cluster_inv_def nodes_inv_def)
  then have "cluster_inv M (c\<lparr>cl_node := (cl_node c)(i := winElection sha i (cl_node c i))\<rparr>)"
    using calm_cluster_inv [OF inv M winElection_calm(1)] winElection_calm(2) by blast
  then show ?thesis using maj
    by (simp add: cluster_inv_def) (auto simp: votes_inv_def nodes_inv_def tokens_inv_def won_inv_def)
qed

lemma alone_cluster_inv:
  assumes inv: "cluster_inv M c" and M: "members_ok M" "M = {i}"
    and cand: "role (cl_node c i) = Candidate" "votedFor (cl_node c i) = i"
  shows "cluster_inv M (c\<lparr>cl_node := (cl_node c)(i := winElection sha i (cl_node c i)),
       cl_won := insert (currentTerm (cl_node c i), i) (cl_won c)\<rparr>)"
proof (rule win_cluster_inv [OF inv M(1) _ refl])
  let ?B = "{v. (v, currentTerm (cl_node c i), i) \<in> cl_votes c}"
  have "?B \<subseteq> M" using inv by (auto simp: cluster_inv_def votes_inv_def)
  moreover have "i \<in> ?B" using inv cand M(2) by (simp add: cluster_inv_def nodes_inv_def)
  ultimately have "?B = {i}" using M(2) by blast
  then show "card M div 2 < card ?B" using M(2) by simp
qed (use M in simp)

lemma refusal_cluster_inv:
  assumes "cluster_inv M c" "\<not> rvr_VoteGranted r"
  shows "cluster_inv M (c\<lparr>cl_resps := add_mset (j, r) (cl_resps c)\<rparr>)"
  using assms
  by (simp add: cluster_inv_def) (auto simp: votes_inv_def nodes_inv_def tokens_inv_def won_inv_def tok_add)

lemma grant_cluster_inv:
  assumes inv: "cluster_inv M c" and M: "members_ok M" and p: "p \<in> M" and R: "cl_reqs c = add_mset (p, a) R"
    and le: "currentTerm (cl_node c p) \<le> rv_Term a"
    and can: "currentTerm (cl_node c p) < rv_Term a \<or> votedFor (cl_node c p) = '''' \<or> votedFor (cl_node c p) = rv_CandidateID a"
    and s': "currentTerm s' = rv_Term a" "votedFor s' = rv_CandidateID a" "role s' = Follower" "config_is M s'"
    and r: "r = \<lparr>rvr_ID = p, rvr_Term = rv_Term a, rvr_VoteGranted = True\<rparr>"
  shows "cluster_inv M (c\<lparr>cl_node := (cl_node c)(p := s'), cl_reqs := R,
       cl_resps := add_mset (rv_CandidateID a, r) (cl_resps c),
       cl_votes := insert (p, rv_Term a, rv_CandidateID a) (cl_votes c)\<rparr>)" (is "cluster_inv M ?c'")
proof -
  have V: "votes_inv M c" and N: "nodes_inv M c" and T: "tokens_inv c" and W: "won_inv M c"
    using inv by (simp_all add: cluster_inv_def)
  have "tok (cl_reqs c) (cl_resps c) (rv_CandidateID a) (rv_Term a) p > 0" by (simp add: R tok_add)
  from tokens_invD(4) [OF T this] have cM: "rv_CandidateID a \<in> M" using V unfolding votes_inv_def by blast
  have old: "x = rv_CandidateID a" if "(p, rv_Term a, x) \<in> cl_votes c" for x
  proof -
    have "x \<in> M" "rv_Term a \<le> currentTerm (cl_node c p)"
      "rv_Term a = currentTerm (cl_node c p) \<Longrightarrow> votedFor (cl_node c p) = x"
      using V that unfolding votes_inv_def by blast+
    then show ?thesis using can le M by (auto simp: members_ok_def)
  qed
  have below: "t \<le> rv_Term a" if "(p, t, x) \<in> cl_votes c" for t x
    using V that le unfolding votes_inv_def by (meson order_trans)
  have V': "votes_inv M ?c'"
    unfolding votes_inv_def
  proof (intro conjI allI impI, goal_cases)
    case (4 v t x)
    then show ?case using V old s' below le unfolding votes_inv_def by (auto split: if_splits)
  qed (use V p cM old s' below le in \<open>auto simp: votes_inv_def intro: order_trans\<close>)
  have "nodes_inv M ?c'" using N s' p le by (auto simp: nodes_inv_def intro: order_trans)
  moreover have "tokens_inv ?c'"
  proof -
    have tk: "tok R (add_mset (rv_CandidateID a, r) (cl_resps c)) j t q = tok (cl_reqs c) (cl_resps c) j t q" for j t q
      by (auto simp: R tok_add r)
    show ?thesis
    proof (rule tokens_invI, goal_cases)
      case (1 j q)
      then show ?case using tokens_invD(1) [OF T, of j q] r by auto
    next
      case (2 j t q)
      then show ?case using tokens_invD(2) [OF T, of q j t] by simp
    next
      case (3 j t q)
      then show ?case using tokens_invD(3) [OF T, of j t q] by (simp add: tk)
    next
      case (4 j t q)
      then show ?case using tokens_invD(4) [OF T, of j t q] tokens_invD(5) [OF T, of q j t] by (auto simp: tk)
    qed
  qed
  moreover have "won_inv M ?c'" using won_inv_mono [OF W V'] M by (auto simp: members_ok_def)
  ultimately show ?thesis using V' by (simp add: cluster_inv_def)
qed

text \<open>The vote handler: a grant moves the token back, anything else is calm.\<close>

lemma vote_cluster_inv:
  assumes inv: "cluster_inv M c" and M: "members_ok M" and p: "p \<in> M" and a: "(p, a) \<in># cl_reqs c"
    and h: "handleRequestToVote p a (cl_node c p) = (r, s')"
  shows "cluster_inv M (c\<lparr>cl_node := (cl_node c)(p := s'),
       cl_reqs := cl_reqs c - {#(p, a)#},
       cl_resps := add_mset (rv_CandidateID a, r) (cl_resps c),
       cl_votes := (if rvr_VoteGranted r then insert (p, rv_Term a, rv_CandidateID a) (cl_votes c)
                    else cl_votes c)\<rparr>)"
proof -
  have conf: "config_is M (cl_node c p)" using inv p by (simp add: cluster_inv_def nodes_inv_def)
  have no: ?thesis if calm: "calm (cl_node c p) s'" and "config_is M s'" and g: "\<not> rvr_VoteGranted r"
  proof -
    have "cluster_inv M (c\<lparr>cl_node := (cl_node c)(p := s')\<rparr>)" by (rule calm_cluster_inv [OF inv M that(1,2)])
    from lose_cluster_inv [OF this, of "cl_reqs c - {#(p, a)#}" "cl_resps c"]
    have "cluster_inv M (c\<lparr>cl_node := (cl_node c)(p := s'), cl_reqs := cl_reqs c - {#(p, a)#}\<rparr>)" by simp
    from refusal_cluster_inv [OF this g, of "rv_CandidateID a"] show ?thesis using g by simp
  qed
  show ?thesis
  proof (cases rule: handleRequestToVote_cases [of a "cl_node c p" p])
    case stale
    then show ?thesis using h conf by (intro no) (auto simp: calm_def)
  next
    case (refuse s1)
    have "config_is M s1" "calm (cl_node c p) s1"
      using conf refuse(2) by (auto simp: config_is_def calm_def split: if_splits)
    then show ?thesis using h refuse(4) by (intro no) auto
  next
    case (grant s1)
    have r: "r = \<lparr>rvr_ID = p, rvr_Term = rv_Term a, rvr_VoteGranted = True\<rparr>"
      and s: "s' = (stopElectionTimeout s1)\<lparr>role := Follower, votedFor := rv_CandidateID a, currentLeader := rv_CandidateID a\<rparr>"
      using h grant(5) by simp_all
    obtain R where R: "cl_reqs c = add_mset (p, a) R" using multi_member_split [OF a] by blast
    have "config_is M s'" "currentTerm s' = rv_Term a"
      using conf grant(1,3) by (auto simp: s config_is_def)
    then show ?thesis
      using grant_cluster_inv [OF inv M p R grant(1,4) _ _ _ _ r] by (simp add: r R s)
  qed
qed

text \<open>Counting a grant: the token becomes a counted vote.\<close>

abbreviation count_vote :: "server_id \<Rightarrow> request_vote_response \<Rightarrow> cluster \<Rightarrow> cluster" where
  "count_vote i r c \<equiv> c\<lparr>cl_resps := cl_resps c - {#(i, r)#},
     cl_counted := (if rvr_VoteGranted r
        then (cl_counted c)(i := (cl_counted c i)(rvr_Term r := insert (rvr_ID r) (cl_counted c i (rvr_Term r))))
        else cl_counted c)\<rparr>"

lemma count_tokens_inv:
  assumes T: "tokens_inv c" and m: "(i, r) \<in># cl_resps c"
  shows "tokens_inv (count_vote i r c)"
    and "rvr_VoteGranted r \<Longrightarrow> rvr_ID r \<notin> cl_counted c i (rvr_Term r)"
    and "rvr_VoteGranted r \<Longrightarrow> (i, rvr_Term r, i) \<in> cl_votes c"
proof -
  obtain S where S: "cl_resps c = add_mset (i, r) S" using multi_member_split [OF m] by blast
  have sub: "(j, q) \<in># cl_resps c" if "(j, q) \<in># S" for j q using that by (simp add: S)
  have pos: "tok (cl_reqs c) (cl_resps c) i (rvr_Term r) (rvr_ID r) > 0" if "rvr_VoteGranted r"
    using that by (simp add: S tok_add)
  show g: "rvr_ID r \<notin> cl_counted c i (rvr_Term r)" if "rvr_VoteGranted r"
    using tokens_invD(3) [OF T, of i "rvr_Term r" "rvr_ID r"] pos [OF that] by (auto split: if_splits)
  show own: "(i, rvr_Term r, i) \<in> cl_votes c" if "rvr_VoteGranted r"
    using tokens_invD(4) [OF T pos [OF that]] by blast
  show "tokens_inv (count_vote i r c)"
  proof (rule tokens_invI, goal_cases)
    case (1 j q)
    then show ?case using tokens_invD(1) [OF T, of j q] sub by (simp add: S)
  next
    case (2 j t p)
    then show ?case using tokens_invD(2) [OF T, of p j t] tokens_invD(1) [OF T m] by (auto split: if_splits)
  next
    case (3 j t p)
    then show ?case using tokens_invD(3) [OF T, of j t p] g by (auto simp: S tok_add split: if_splits)
  next
    case (4 j t p)
    then show ?case
      using tokens_invD(4) [OF T, of j t p] tokens_invD(5) [OF T, of p j t] tokens_invD(4) [OF T pos]
      by (auto simp: S tok_add split: if_splits)
  qed
qed

lemma count_cluster_inv:
  assumes inv: "cluster_inv M c" and M: "members_ok M" and m: "(i, r) \<in># cl_resps c"
    and other: "rvr_VoteGranted r \<Longrightarrow> rvr_Term r \<noteq> currentTerm (cl_node c i)"
  shows "cluster_inv M (count_vote i r c)"
proof -
  have "nodes_inv M (count_vote i r c)"
    using inv other by (auto simp: cluster_inv_def nodes_inv_def)
  then show ?thesis using inv count_tokens_inv(1) [OF _ m]
    by (simp add: cluster_inv_def) (simp add: votes_inv_def won_inv_def)
qed

text \<open>A grant of the current term: one more vote, and as many distinct voters as votes.\<close>

lemma backers_card:
  assumes inv: "cluster_inv M c" and M: "members_ok M" and i: "i \<in> M" "(i, t, i) \<in> cl_votes c"
  shows "Suc (card (cl_counted c i t)) \<le> card {v. (v, t, i) \<in> cl_votes c}"
    and "finite (cl_counted c i t)" "card (cl_counted c i t) < card M"
proof -
  let ?B = "{v. (v, t, i) \<in> cl_votes c}"
  have T: "tokens_inv c" and V: "votes_inv M c" using inv by (simp_all add: cluster_inv_def)
  have BM: "?B \<subseteq> M" using V by (auto simp: votes_inv_def)
  have fM: "finite M" using M by (simp add: members_ok_def)
  have fB: "finite ?B" by (rule finite_subset [OF BM fM])
  have sub: "insert i (cl_counted c i t) \<subseteq> ?B" using tokens_invD(2) [OF T, of _ i t] i(2) by blast
  have ni: "i \<notin> cl_counted c i t" using tokens_invD(5) [OF T, of i i t] by blast
  show fc: "finite (cl_counted c i t)" using sub fB by (auto intro: finite_subset)
  have "Suc (card (cl_counted c i t)) = card (insert i (cl_counted c i t))" using ni fc by simp
  also have "\<dots> \<le> card ?B" by (rule card_mono [OF fB sub])
  finally show le: "Suc (card (cl_counted c i t)) \<le> card ?B" .
  show "card (cl_counted c i t) < card M" using le card_mono [OF fM BM] by linarith
qed

lemma granted_cluster_inv:
  assumes inv: "cluster_inv M c" and M: "members_ok M" and i: "i \<in> M" and m: "(i, r) \<in># cl_resps c"
    and cand: "role (cl_node c i) = Candidate"
    and g: "rvr_VoteGranted r" "rvr_Term r = currentTerm (cl_node c i)"
    and s': "s' = (cl_node c i)\<lparr>electionVotes := wrap64 (electionVotes (cl_node c i) + 1)\<rparr>"
  shows "cluster_inv M (count_vote i r (c\<lparr>cl_node := (cl_node c)(i := s')\<rparr>))" (is "cluster_inv M ?c'")
    and "electionVotes s' \<le> int (card {v. (v, currentTerm s', i) \<in> cl_votes c})"
proof -
  let ?t = "currentTerm (cl_node c i)"
  have V: "votes_inv M c" and N: "nodes_inv M c" and T: "tokens_inv c" and W: "won_inv M c"
    using inv by (simp_all add: cluster_inv_def)
  note ct = count_tokens_inv [OF T m]
  have own: "(i, ?t, i) \<in> cl_votes c" using ct(3) g by simp
  have v: "votedFor (cl_node c i) = i" using V own unfolding votes_inv_def by blast
  note b = backers_card [OF inv M i own]
  have e: "1 \<le> electionVotes (cl_node c i)" "electionVotes (cl_node c i) \<le> 1 + int (card (cl_counted c i ?t))"
    using N i cand v by (simp_all add: nodes_inv_def)
  have "electionVotes (cl_node c i) < max_int64" using e(2) b(3) M by (simp add: members_ok_def)
  then have s: "electionVotes s' = electionVotes (cl_node c i) + 1" using e(1) by (simp add: s' wrap64_succ)
  have "tokens_inv (c\<lparr>cl_node := (cl_node c)(i := s')\<rparr>)" using T by (simp add: tokens_inv_def)
  then have T': "tokens_inv ?c'" by (rule count_tokens_inv(1)) (simp add: m)
  have N': "nodes_inv M ?c'"
    using N s e g own ct(2) b(2) i by (auto simp: nodes_inv_def s' config_is_def)
  have V': "votes_inv M ?c'" using V by (simp add: votes_inv_def s')
  have W': "won_inv M ?c'" using W by (simp add: won_inv_def)
  show "cluster_inv M ?c'" using V' N' T' W' by (simp add: cluster_inv_def)
  then have "cluster_inv M ?c'" .
  from backers_card(1) [OF this M i, of ?t] own
  have "Suc (card (insert (rvr_ID r) (cl_counted c i ?t))) \<le> card {v. (v, ?t, i) \<in> cl_votes c}" using g by simp
  then show "electionVotes s' \<le> int (card {v. (v, currentTerm s', i) \<in> cl_votes c})"
    using s e(2) ct(2) g b(2) by (simp add: s')
qed

lemma updateElection_cases:
  obtains (higher) "rvr_Term r > currentTerm s" "updateElection r s = (False, (updateCurrentTerm (rvr_Term r)
        ((stopElectionTimeout s)\<lparr>electionVotes := 0\<rparr>))\<lparr>role := Follower\<rparr>)"
  | (granted) "rvr_Term r = currentTerm s" "rvr_VoteGranted r"
      "updateElection r s = (wrap64 (electionVotes s + 1) > int (mlen (serverConfig s) div 2),
         s\<lparr>electionVotes := wrap64 (electionVotes s + 1)\<rparr>)"
  | (ignored) "rvr_VoteGranted r \<Longrightarrow> rvr_Term r \<noteq> currentTerm s" "updateElection r s = (False, s)"
      "rvr_Term r \<le> currentTerm s"
proof -
  consider "rvr_Term r > currentTerm s" | "rvr_Term r = currentTerm s \<and> rvr_VoteGranted r"
    | "\<not> rvr_Term r > currentTerm s" "\<not> (rvr_Term r = currentTerm s \<and> rvr_VoteGranted r)" by blast
  then show thesis
  proof cases
    case 1
    then show thesis by (intro higher) (simp_all add: updateElection_def)
  next
    case 2
    then show thesis by (intro granted) (simp_all add: updateElection_def Let_def)
  next
    case 3
    then show thesis by (intro ignored) (auto simp: updateElection_def)
  qed
qed

lemma mlen_members: "config_is M s \<Longrightarrow> mlen (serverConfig s) = card M"
  by (auto simp: config_is_def mlen_keys gm.length_keys)

lemma cluster_reorder:
  "c\<lparr>cl_resps := S, cl_counted := C, cl_node := N\<rparr> = c\<lparr>cl_node := N, cl_resps := S, cl_counted := C\<rparr>"
  by simp

lemma count_step_inv:
  assumes inv: "cluster_inv M c" and M: "members_ok M" and i: "i \<in> M" and m: "(i, r) \<in># cl_resps c"
    and cand: "role (cl_node c i) = Candidate" and u: "updateElection r (cl_node c i) = (won, s')"
  shows "cluster_inv M (c\<lparr>cl_node := (cl_node c)(i := if won then winElection sha i s' else s'),
       cl_resps := cl_resps c - {#(i, r)#},
       cl_counted := (if rvr_VoteGranted r
                      then (cl_counted c)(i := (cl_counted c i)(rvr_Term r := insert (rvr_ID r) (cl_counted c i (rvr_Term r))))
                      else cl_counted c),
       cl_won := (if won then insert (currentTerm s', i) (cl_won c) else cl_won c)\<rparr>)"
proof -
  have conf: "config_is M (cl_node c i)" using inv i by (simp add: cluster_inv_def nodes_inv_def)
  show ?thesis
  proof (cases rule: updateElection_cases [of "cl_node c i" r])
    case higher
    have s': "s' = (updateCurrentTerm (rvr_Term r)
        ((stopElectionTimeout (cl_node c i))\<lparr>electionVotes := 0\<rparr>))\<lparr>role := Follower\<rparr>" and w: "\<not> won"
      using u higher(2) by simp_all
    have "config_is M s'" unfolding s' using conf by (subst config_is_frame [of _ "cl_node c i"]) simp_all
    moreover have "calm (cl_node c i) s'" unfolding s' using higher(1) by (simp add: calm_def)
    ultimately have "config_is M s'" "calm (cl_node c i) s'" .
    have "cluster_inv M (count_vote i r c)" by (rule count_cluster_inv [OF inv M m]) (use higher(1) in simp)
    from calm_cluster_inv [OF this M, of i s'] \<open>calm (cl_node c i) s'\<close> \<open>config_is M s'\<close>
    have "cluster_inv M ((count_vote i r c)\<lparr>cl_node := (cl_node c)(i := s')\<rparr>)" by simp
    also have "(count_vote i r c)\<lparr>cl_node := (cl_node c)(i := s')\<rparr> =
        count_vote i r (c\<lparr>cl_node := (cl_node c)(i := s')\<rparr>)" by (rule cluster.equality) simp_all
    finally show ?thesis using w by (cases "rvr_VoteGranted r") simp_all
  next
    case ignored
    have w: "\<not> won" "s' = cl_node c i" using u ignored(2) by simp_all
    have "cluster_inv M (count_vote i r c)" by (rule count_cluster_inv [OF inv M m ignored(1)])
    then show ?thesis using w by (cases "rvr_VoteGranted r") simp_all
  next
    case granted
    have s': "s' = (cl_node c i)\<lparr>electionVotes := wrap64 (electionVotes (cl_node c i) + 1)\<rparr>"
      and w: "won \<longleftrightarrow> electionVotes s' > int (card M div 2)"
      using u granted(3) mlen_members [OF conf] by auto
    note gi = granted_cluster_inv [OF inv M i m cand granted(2,1) s']
    show ?thesis
    proof (cases won)
      case False
      then show ?thesis using gi(1) granted(2) by simp
    next
      case True
      then have "card M div 2 < card {v. (v, currentTerm s', i) \<in> cl_votes c}" using w gi(2) by linarith
      then show ?thesis
        using win_cluster_inv [OF gi(1) M i, of "currentTerm s'" sha] True granted(2) by (simp add: cluster_reorder)
    qed
  qed
qed

theorem cstep_inv:
  assumes "members_ok M" "cluster_inv M c" "cstep sha M c c'"
  shows "cluster_inv M c'"
  using assms(3)
proof cases
  case (handle i s')
  have "config_is M (cl_node c i)" using assms(2) handle(2) by (simp add: cluster_inv_def nodes_inv_def)
  then show ?thesis unfolding handle(1)
    using calm_cluster_inv [OF assms(2,1)] handler_calm [OF handle(3)] by blast
next
  case (crash i s')
  show ?thesis unfolding crash(1) by (rule calm_cluster_inv [OF assms(2,1) restarted_calm [OF crash(3)] crash(4)])
next
  case (lose_req m)
  then show ?thesis using lose_cluster_inv [OF assms(2), of "cl_reqs c - {#m#}" "cl_resps c"] by simp
next
  case (lose_resp m)
  then show ?thesis using lose_cluster_inv [OF assms(2), of "cl_reqs c" "cl_resps c - {#m#}"] by simp
next
  case (timeout i s')
  show ?thesis unfolding timeout(1) by (rule timeout_cluster_inv [OF assms(2,1) timeout(2,4,5)])
next
  case (alone i)
  show ?thesis unfolding alone(1) by (rule alone_cluster_inv [OF assms(2,1) alone(2-4)])
next
  case (vote p a r s')
  show ?thesis unfolding vote(1) by (rule vote_cluster_inv [OF assms(2,1) vote(2-4)])
next
  case (count i r won s')
  show ?thesis unfolding count(1) by (rule count_step_inv [OF assms(2,1) count(2-5)])
qed

lemma reach_inv:
  assumes "reach sha M c" "members_ok M"
  shows "cluster_inv M c"
  using assms(1)
proof induction
  case (init c)
  then show ?case by (rule init_cluster_inv)
next
  case (step c c')
  then show ?case using cstep_inv assms(2) by blast
qed

end
