(* ===== verification/Raft_Client.thy ===== *)
theory Raft_Client
  imports Raft_Runtime
begin

text \<open>
  The calls into a node from outside its goroutines (src/raft/node.go): \<open>Apply\<close>,
  \<open>AddServer\<close> and \<open>RemoveServer\<close> of the application, and the \<open>Handle...\<close> methods the
  transport calls. A caller hands its request to a goroutine over a channel and waits for
  the answer on another, or for the stop signal. The callers and the node's goroutines run
  in any order: \<open>client_step\<close> is one hand-over, answer or iteration.
\<close>

section \<open>RPCs from peers\<close>

text \<open>
  \<open>HandleRequestVote\<close> and its siblings pass the arguments to the run loop and return the
  reply of the iteration that took them; \<open>None\<close> means that no reply comes, since the loop has
  stopped.
\<close>

definition replyOf :: "(node_output \<Rightarrow> 'r option) \<Rightarrow> ('sm, 'st) node_result
    \<Rightarrow> go_panic + 'r option \<times> ('sm, 'st) raft_node \<times> node_output list" where
  "replyOf sel r = (case r of Inl p \<Rightarrow> Inl p
     | Inr (n', out) \<Rightarrow> Inr (case List.map_filter sel out of [] \<Rightarrow> None | x # _ \<Rightarrow> Some x, n', out))"

definition HandleRequestVote :: "('sm, 'st) deps \<Rightarrow> node_env \<Rightarrow> request_vote_args \<Rightarrow> ('sm, 'st) raft_node
    \<Rightarrow> go_panic + request_vote_response option \<times> ('sm, 'st) raft_node \<times> node_output list" where
  "HandleRequestVote d env args n =
     replyOf (\<lambda>x. case x of ReplyRequestVote r \<Rightarrow> Some r | _ \<Rightarrow> None) (run_iteration d env (RVArgs args) n)"

definition HandleAppendEntries :: "('sm, 'st) deps \<Rightarrow> node_env \<Rightarrow> append_entries_args \<Rightarrow> ('sm, 'st) raft_node
    \<Rightarrow> go_panic + append_entries_response option \<times> ('sm, 'st) raft_node \<times> node_output list" where
  "HandleAppendEntries d env args n =
     replyOf (\<lambda>x. case x of ReplyAppendEntries r \<Rightarrow> Some r | _ \<Rightarrow> None) (run_iteration d env (AEArgs args) n)"

definition HandleInstallSnapshot :: "('sm, 'st) deps \<Rightarrow> node_env \<Rightarrow> install_snapshot_args \<Rightarrow> ('sm, 'st) raft_node
    \<Rightarrow> go_panic + install_snapshot_response option \<times> ('sm, 'st) raft_node \<times> node_output list" where
  "HandleInstallSnapshot d env args n =
     replyOf (\<lambda>x. case x of ReplyInstallSnapshot r \<Rightarrow> Some r | _ \<Rightarrow> None) (run_iteration d env (ISArgs args) n)"

section \<open>Calls of the application\<close>

record pending_apply =
  pa_args :: apply_args
  pa_resultCh :: nat

text \<open>Where a caller stands: before the first \<open>select\<close>, before the second, or returned.\<close>

datatype 'r call_phase = Submitting | Awaiting | Returned "error + 'r"

record apply_call =
  ac_req :: pending_apply
  ac_start :: int
  ac_phase :: "apply_response call_phase"

record conf_call =
  cf_entry :: config_entry
  cf_phase :: "add_remove_server_response call_phase"

definition err_stopped :: error where
  "err_stopped = ''node stopped''"

text \<open>The start of \<open>Apply\<close>: a fresh result channel and the request.\<close>

definition Apply_begin :: "string \<Rightarrow> int \<Rightarrow> bytes \<Rightarrow> nat \<Rightarrow> int \<Rightarrow> apply_call" where
  "Apply_begin clientID seqNum command ch now =
     \<lparr>ac_req = \<lparr>pa_args = \<lparr>aa_ClientID = clientID, aa_SeqNum = seqNum, aa_Command = command\<rparr>,
                pa_resultCh = ch\<rparr>,
      ac_start = now, ac_phase = Submitting\<rparr>"

text \<open>The end of \<open>Apply\<close> when the answer arrives: a success is recorded in the metrics.\<close>

definition Apply_finish :: "int \<Rightarrow> apply_call \<Rightarrow> apply_response \<Rightarrow> ('sm, 'st) raft_node
    \<Rightarrow> apply_call \<times> ('sm, 'st) raft_node" where
  "Apply_finish now call resp n =
     (call\<lparr>ac_phase := Returned (Inr resp)\<rparr>,
      if ar_Success resp then n\<lparr>n_metrics := recordApply (now - ac_start call) (n_metrics n)\<rparr> else n)"

definition HandleApply :: "error + apply_response \<Rightarrow> ('sm, 'st) raft_node \<Rightarrow> apply_response" where
  "HandleApply r n = (case r of
      Inl _ \<Rightarrow> \<lparr>ar_Success = False, ar_LeaderID = currentLeader (n_state n)\<rparr>
    | Inr resp \<Rightarrow> resp)"

definition membershipChange :: "config_change \<Rightarrow> nat \<Rightarrow> nat \<Rightarrow> conf_call" where
  "membershipChange cfg chApplied ch =
     \<lparr>cf_entry = \<lparr>ce_msg = cfg, ce_chanApplied = chApplied, ce_resultCh = ch\<rparr>, cf_phase = Submitting\<rparr>"

definition AddServer :: "server_id \<Rightarrow> nat \<Rightarrow> nat \<Rightarrow> conf_call" where
  "AddServer server = membershipChange \<lparr>cc_Add = True, cc_Server = server\<rparr>"

definition RemoveServer :: "server_id \<Rightarrow> nat \<Rightarrow> nat \<Rightarrow> conf_call" where
  "RemoveServer server = membershipChange \<lparr>cc_Add = False, cc_Server = server\<rparr>"

text \<open>\<open>HandleAddRemoveServer\<close>: which call it makes, and what it returns for the call's result.\<close>

definition HandleAddRemoveServer :: "add_remove_server_args \<Rightarrow> nat \<Rightarrow> nat \<Rightarrow> conf_call" where
  "HandleAddRemoveServer args =
     (if ars_Add args then AddServer (ars_Server args) else RemoveServer (ars_Server args))"

definition HandleAddRemoveServer_result ::
  "error + add_remove_server_response \<Rightarrow> ('sm, 'st) raft_node \<Rightarrow> add_remove_server_response" where
  "HandleAddRemoveServer_result r n = (case r of
      Inl _ \<Rightarrow> \<lparr>arr_Success = False, arr_LeaderID = currentLeader (n_state n)\<rparr>
    | Inr resp \<Rightarrow> resp)"

section \<open>Callers and node together\<close>

text \<open>
  \<open>cs_inbox\<close> holds the answers that were sent to result channels and not yet received.
\<close>

record ('sm, 'st) client_sys =
  cs_node :: "('sm, 'st) raft_node"
  cs_applies :: "(nat, apply_call) gomap"
  cs_confs :: "(nat, conf_call) gomap"
  cs_inbox :: "(nat \<times> apply_response) list"
  cs_confInbox :: "(nat \<times> add_remove_server_response) list"

definition answers :: "node_output list \<Rightarrow> (nat \<times> apply_response) list" where
  "answers = List.map_filter (\<lambda>x. case x of ReplyApply ch r \<Rightarrow> Some (ch, r) | _ \<Rightarrow> None)"

definition confAnswers :: "node_output list \<Rightarrow> (nat \<times> add_remove_server_response) list" where
  "confAnswers = List.map_filter (\<lambda>x. case x of ReplyConfig ch r \<Rightarrow> Some (ch, r) | _ \<Rightarrow> None)"

definition deliver :: "('sm, 'st) raft_node \<times> node_output list \<Rightarrow> ('sm, 'st) client_sys \<Rightarrow> ('sm, 'st) client_sys" where
  "deliver r c = (case r of (n', out) \<Rightarrow>
     c\<lparr>cs_node := n', cs_inbox := cs_inbox c @ answers out, cs_confInbox := cs_confInbox c @ confAnswers out\<rparr>)"

definition setApply :: "nat \<Rightarrow> apply_response call_phase \<Rightarrow> ('sm, 'st) client_sys \<Rightarrow> ('sm, 'st) client_sys" where
  "setApply ch ph c = (case map_of (cs_applies c) ch of
      None \<Rightarrow> c | Some call \<Rightarrow> c\<lparr>cs_applies := mput ch (call\<lparr>ac_phase := ph\<rparr>) (cs_applies c)\<rparr>)"

definition setConf :: "nat \<Rightarrow> add_remove_server_response call_phase \<Rightarrow> ('sm, 'st) client_sys \<Rightarrow> ('sm, 'st) client_sys" where
  "setConf ch ph c = (case map_of (cs_confs c) ch of
      None \<Rightarrow> c | Some call \<Rightarrow> c\<lparr>cs_confs := mput ch (call\<lparr>cf_phase := ph\<rparr>) (cs_confs c)\<rparr>)"

inductive client_step :: "('sm, 'st) deps \<Rightarrow> ('sm, 'st) client_sys \<Rightarrow> ('sm, 'st) client_sys \<Rightarrow> bool" for d where
  apply_begin: "map_of (cs_applies c) ch = None \<Longrightarrow>
    client_step d c (c\<lparr>cs_applies := mput ch (Apply_begin cid seq cmd ch now) (cs_applies c)\<rparr>)"
| apply_accept: "map_of (cs_applies c) ch = Some call \<Longrightarrow> ac_phase call = Submitting \<Longrightarrow>
    handleApplyRequest d (pa_args (ac_req call)) (pa_resultCh (ac_req call)) (cs_node c) = Inr r \<Longrightarrow>
    client_step d c (deliver r (setApply ch Awaiting c))"
| apply_answer: "map_of (cs_applies c) ch = Some call \<Longrightarrow> ac_phase call = Awaiting \<Longrightarrow>
    cs_inbox c = xs @ (ch, resp) # ys \<Longrightarrow> Apply_finish now call resp (cs_node c) = (call', n') \<Longrightarrow>
    client_step d c (c\<lparr>cs_applies := mput ch call' (cs_applies c), cs_inbox := xs @ ys, cs_node := n'\<rparr>)"
| apply_stopped: "map_of (cs_applies c) ch = Some call \<Longrightarrow> ac_phase call \<in> {Submitting, Awaiting} \<Longrightarrow>
    n_stopped (cs_node c) \<Longrightarrow> client_step d c (setApply ch (Returned (Inl err_stopped)) c)"
| conf_begin: "map_of (cs_confs c) ch = None \<Longrightarrow>
    client_step d c (c\<lparr>cs_confs := mput ch (membershipChange cfg chA ch) (cs_confs c)\<rparr>)"
| conf_accept: "map_of (cs_confs c) ch = Some call \<Longrightarrow> cf_phase call = Submitting \<Longrightarrow>
    handleConfigurationMessage d (cf_entry call) (cs_node c) = Inr r \<Longrightarrow>
    client_step d c (deliver r (setConf ch Awaiting c))"
| conf_answer: "map_of (cs_confs c) ch = Some call \<Longrightarrow> cf_phase call = Awaiting \<Longrightarrow>
    cs_confInbox c = xs @ (ch, resp) # ys \<Longrightarrow>
    client_step d c (setConf ch (Returned (Inr resp)) (c\<lparr>cs_confInbox := xs @ ys\<rparr>))"
| conf_stopped: "map_of (cs_confs c) ch = Some call \<Longrightarrow> cf_phase call \<in> {Submitting, Awaiting} \<Longrightarrow>
    n_stopped (cs_node c) \<Longrightarrow> client_step d c (setConf ch (Returned (Inl err_stopped)) c)"
| iteration: "run_iteration d env ev (cs_node c) = Inr r \<Longrightarrow> client_step d c (deliver r c)"
| ae_reply: "handleAppendEntriesReply d aer (cs_node c) = Inr r \<Longrightarrow> client_step d c (deliver r c)"
| is_reply: "handleInstallSnapshotReply d isr (cs_node c) = Inr r \<Longrightarrow> client_step d c (deliver r c)"
| install: "client_step d c (c\<lparr>cs_node := snapshotLoop_install d (cs_node c)\<rparr>)"
| stop: "client_step d c (c\<lparr>cs_node := Stop (cs_node c)\<rparr>)"

inductive client_reach :: "('sm, 'st) deps \<Rightarrow> ('sm, 'st) raft_node \<Rightarrow> ('sm, 'st) client_sys \<Rightarrow> bool" for d n where
  init: "client_reach d n \<lparr>cs_node = n, cs_applies = [], cs_confs = [], cs_inbox = [], cs_confInbox = []\<rparr>"
| step: "client_reach d n c \<Longrightarrow> client_step d c c' \<Longrightarrow> client_reach d n c'"

section \<open>Every answer takes a pending call with it\<close>

text \<open>
  The result channels a node owes an answer, as a multiset. A piece of the node \<open>settles\<close>
  when what it answers and what it still owes was owed before, and the stop signal stays
  as it is.
\<close>

abbreviation owed :: "('sm, 'st) raft_node \<Rightarrow> nat multiset" where
  "owed n \<equiv> mset (map snd (n_pendingCommands n))"

abbreviation answered :: "node_output list \<Rightarrow> nat multiset" where
  "answered out \<equiv> mset (map fst (answers out))"

definition settles :: "('sm, 'st) raft_node \<Rightarrow> ('sm, 'st) node_result \<Rightarrow> bool" where
  "settles n r \<longleftrightarrow> (case r of Inl _ \<Rightarrow> True
     | Inr (n', out) \<Rightarrow> answered out + owed n' \<subseteq># owed n \<and> n_stopped n' = n_stopped n)"

lemma settles_simps [simp]:
  "settles n (Inl p)"
  "settles n (Inr (n', out)) \<longleftrightarrow> answered out + owed n' \<subseteq># owed n \<and> n_stopped n' = n_stopped n"
  by (simp_all add: settles_def)

lemma answers_simps [simp]:
  "answers [] = []" "answers (xs @ ys) = answers xs @ answers ys"
  "answers (ReplyApply ch r # xs) = (ch, r) # answers xs"
  "answers (SendRequestVote p a # xs) = answers xs" "answers (SendAppendEntries p b # xs) = answers xs"
  "answers (SendInstallSnapshot p i # xs) = answers xs" "answers (ReplyRequestVote v # xs) = answers xs"
  "answers (ReplyAppendEntries w # xs) = answers xs" "answers (ReplyInstallSnapshot y # xs) = answers xs"
  "answers (ReplyConfig ch z # xs) = answers xs" "answers (ConnectPeer p # xs) = answers xs"
  by (simp_all add: answers_def List.map_filter_simps map_filter_def)

lemma answers_none: "(\<And>ch r. ReplyApply ch r \<notin> set out) \<Longrightarrow> answers out = []"
  by (induction out) (auto simp: answers_def List.map_filter_simps split: node_output.splits)

lemma settles_andThen:
  assumes "settles n r" "\<And>m. settles m (f m)"
  shows "settles n (andThen r f)"
proof (cases "andThen r f")
  case (Inr x)
  obtain m out m' out' where s: "r = Inr (m, out)" "f m = Inr (m', out')" "x = (m', out @ out')"
    using Inr by (auto simp: andThen_def split: sum.splits prod.splits)
  have "answered out + owed m \<subseteq># owed n" "answered out' + owed m' \<subseteq># owed m"
    "n_stopped m = n_stopped n" "n_stopped m' = n_stopped m"
    using assms(1) assms(2) [of m] s by simp_all
  then have "answered out + (answered out' + owed m') \<subseteq># owed n"
    by (meson subset_mset.add_left_mono subset_mset.order_trans)
  then show ?thesis using \<open>n_stopped m = _\<close> \<open>n_stopped m' = _\<close> by (simp add: Inr s(3) union_assoc)
qed simp

lemma mdel_sub: "mset (map snd (mdel k m)) \<subseteq># mset (map snd m)"
  by (induction m) (auto simp: mdel_def intro: subset_mset.order_trans)

lemma owed_mdel: "map_of m k = Some ch \<Longrightarrow> add_mset ch (mset (map snd (mdel k m))) \<subseteq># mset (map snd m)"
  using mdel_sub [of k] by (induction m) (auto simp: mdel_def split: if_splits intro: subset_mset.order_trans)

lemma owed_mput: "mset (map snd (mput k ch m)) \<subseteq># add_mset ch (mset (map snd m))"
  by (induction m) (auto simp: mput_def intro: subset_mset.order_trans)

lemma sendInstallSnapshotRPC_settles: "settles n (sendInstallSnapshotRPC p n)"
  by (auto simp: sendInstallSnapshotRPC_def split: sum.splits)

lemma settles_cong: "n_pendingCommands m = n_pendingCommands n \<Longrightarrow> n_stopped m = n_stopped n \<Longrightarrow> settles m r \<Longrightarrow> settles n r"
  by (simp add: settles_def split: sum.splits prod.splits)

lemma sendAppendEntriesTo_settles: "settles n (sendAppendEntriesTo p n)"
  unfolding sendAppendEntriesTo_def Let_def
  by (auto split: prod.splits option.splits intro: settles_cong [OF _ _ sendInstallSnapshotRPC_settles])

lemma sendAll_settles: "settles n (sendAll ps n)"
  by (induction ps arbitrary: n) (simp_all add: settles_andThen sendAppendEntriesTo_settles)

lemma sendAppendEntriesRPCs_settles: "settles n (sendAppendEntriesRPCs n)"
  by (simp add: sendAppendEntriesRPCs_def settles_andThen sendAll_settles)

lemma answers_SendRequestVote [simp]: "answers (map (\<lambda>p. SendRequestVote p a) ps) = []"
  by (induction ps) simp_all

lemma sendRequestVoteRPCs_settles: "settles n (sendRequestVoteRPCs a n)"
  by (simp add: sendRequestVoteRPCs_def)

lemma serve_settles:
  "settles n (serveAppendEntries d a n)" "settles n (serveRequestVote d v n)" "settles n (serveInstallSnapshot d i n)"
  by (simp_all add: serveAppendEntries_def serveRequestVote_def serveInstallSnapshot_def split: prod.splits)

lemma role_change_frame [simp]:
  "n_pendingCommands (becomeLeader d env n) = n_pendingCommands n" "n_stopped (becomeLeader d env n) = n_stopped n"
  "n_pendingCommands (beginElection d env n) = n_pendingCommands n" "n_stopped (beginElection d env n) = n_stopped n"
  by (simp_all add: becomeLeader_def beginElection_def Let_def)

lemma handleFollower_settles: "settles n (handleFollower d env ev n)"
  unfolding handleFollower_def Let_def
  by (auto split: sum.splits run_event.splits
      intro!: settles_cong [OF _ _ serve_settles(1)] settles_cong [OF _ _ serve_settles(2)]
        settles_cong [OF _ _ serve_settles(3)] settles_cong [OF _ _ sendRequestVoteRPCs_settles])

lemma handleCandidate_settles: "settles n (handleCandidate d env ev n)"
  unfolding handleCandidate_def Let_def
  by (auto split: sum.splits run_event.splits prod.splits
      intro!: settles_cong [OF _ _ serve_settles(1)] settles_cong [OF _ _ serve_settles(2)]
        settles_cong [OF _ _ serve_settles(3)] settles_cong [OF _ _ sendRequestVoteRPCs_settles]
        settles_cong [OF _ _ sendAppendEntriesRPCs_settles])

lemma handleLeader_settles: "settles n (handleLeader d ev n)"
  by (cases ev) (auto simp: handleLeader_def Let_def
      intro!: settles_andThen serve_settles sendAppendEntriesRPCs_settles simp del: andThen_Inr)

lemma startedConfig_settles: "settles n (startedConfig r n)"
  by (auto simp: startedConfig_def trackConfig_def Let_def split: sum.splits)

lemma checkConfigurationsToStart_settles: "settles n (checkConfigurationsToStart d n)"
  by (simp add: checkConfigurationsToStart_def startedConfig_settles)

lemma promoteUnvotingServer_settles: "settles n (promoteUnvotingServer d p n)"
  unfolding promoteUnvotingServer_def Let_def
  by (auto split: prod.splits intro!: settles_cong [OF _ _ startedConfig_settles])

lemma applyLog_settles: "settles n (Inr (applyLog d e n))"
proof -
  have cfg: "answers (snd (signalPendingConfig e m)) = []" for m :: "('a, 'b) raft_node"
    by (rule answers_none)
      (auto simp: signalPendingConfig_def waitForConfigApplied_def Let_def split: option.splits)
  have cmd: "answered (snd (signalPendingCommand e m)) + owed (fst (signalPendingCommand e m)) \<subseteq># owed m"
    for m :: "('a, 'b) raft_node"
    using owed_mdel [of "n_pendingCommands m"] by (simp add: signalPendingCommand_def split: option.splits)
  let ?n2 = "applyToStateMachine d e (n\<lparr>n_metrics := recordCommit (n_metrics n)\<rparr>)"
  let ?r3 = "signalPendingCommand e ?n2"
  have "applyLog d e n = (if role (n_state ?n2) = Leader
      then (fst (signalPendingConfig e (fst ?r3)), snd ?r3 @ snd (signalPendingConfig e (fst ?r3))) else (?n2, []))"
    by (simp add: applyLog_def Let_def case_prod_beta)
  moreover have "owed ?n2 = owed n" "n_stopped ?n2 = n_stopped n" by (simp_all add: applyToStateMachine_effect)
  ultimately show ?thesis using cmd [of ?n2] by (simp add: cfg)
qed

lemma checkLogs_loop_settles: "settles n (Inr (checkLogs_loop fuel d n))"
proof (induction fuel arbitrary: n)
  case (Suc fuel)
  obtain k s' where u: "updateLastApplied (n_state n) = (k, s')" by fastforce
  let ?r = "applyLog d (getLog (nat k) s') (n\<lparr>n_state := s'\<rparr>)"
  have "settles n (Inr ?r)" by (rule settles_cong [OF _ _ applyLog_settles]) simp_all
  then have "settles n (andThen (Inr ?r) (\<lambda>m. Inr (checkLogs_loop fuel d m)))"
    by (rule settles_andThen) (rule Suc.IH)
  then show ?case by (cases "k < 0") (simp_all add: u andThen_def case_prod_beta)
qed simp

lemma run_iteration_settles: "settles n (run_iteration d env ev n)"
proof (cases "n_stopped n")
  case False
  have "settles n (Inr (checkLogsToApply d n))" by (simp only: checkLogsToApply_def checkLogs_loop_settles)
  then show ?thesis using False unfolding run_iteration_def
    by (auto simp del: andThen_Inr split: node_role.split
        intro!: settles_andThen checkConfigurationsToStart_settles
          handleFollower_settles handleCandidate_settles handleLeader_settles)
qed (simp add: run_iteration_def)

lemma handleAppendEntriesReply_settles: "settles n (handleAppendEntriesReply d a n)"
  unfolding handleAppendEntriesReply_def Let_def
  by (auto simp del: andThen_Inr split: prod.splits intro!: settles_andThen promoteUnvotingServer_settles
      settles_cong [OF _ _ sendInstallSnapshotRPC_settles])

lemma handleInstallSnapshotReply_settles: "settles n (handleInstallSnapshotReply d i n)"
  unfolding handleInstallSnapshotReply_def Let_def
  by (auto split: prod.splits intro!: settles_cong [OF _ _ promoteUnvotingServer_settles])

lemma handleConfigurationMessage_settles: "settles n (handleConfigurationMessage d q n)"
  unfolding handleConfigurationMessage_def
  by (auto simp del: andThen_Inr intro!: settles_andThen startedConfig_settles
      settles_cong [OF _ _ sendAppendEntriesRPCs_settles])

lemma handleApplyRequest_settles:
  assumes "handleApplyRequest d args ch n = Inr (n', out)"
  shows "answered out + owed n' \<subseteq># add_mset ch (owed n) \<and> n_stopped n' = n_stopped n"
proof -
  obtain i s' where a: "addCommandLog (dep_sha d) (snapshotData d n) (n_id n) (aa_ClientID args)
      (aa_SeqNum args) (aa_Command args) (n_state n) = (i, s')" by fastforce
  let ?n2 = "persistState d (n\<lparr>n_state := s'\<rparr>)"
  let ?n3 = "?n2\<lparr>n_pendingCommands := mput i ch (n_pendingCommands ?n2)\<rparr>"
  have "owed ?n3 \<subseteq># add_mset ch (owed n)" using owed_mput [of i ch "n_pendingCommands n"] by simp
  moreover have "answered o3 + owed m \<subseteq># owed ?n3 \<and> n_stopped m = n_stopped n"
    if "sendAppendEntriesRPCs ?n3 = Inr (m, o3)" for m o3
    using sendAppendEntriesRPCs_settles [of ?n3] that by simp
  ultimately show ?thesis
    using assms by (auto simp: handleApplyRequest_def a Let_def split: if_splits intro: subset_mset.order_trans)
qed

section \<open>The calls are answered at most once\<close>

text \<open>
  Every channel that holds an answer or is still owed one occurs once, and belongs to a
  call that waits for it or gave up when the node was stopped. \<open>X\<close> is a channel that is
  being handed over.
\<close>

definition calls_ok :: "nat multiset \<Rightarrow> ('sm, 'st) client_sys \<Rightarrow> bool" where
  "calls_ok X c \<longleftrightarrow>
     (\<forall>ch call. map_of (cs_applies c) ch = Some call \<longrightarrow> pa_resultCh (ac_req call) = ch \<and>
        (\<forall>e. ac_phase call = Returned (Inl e) \<longrightarrow> e = err_stopped \<and> n_stopped (cs_node c))) \<and>
     (\<forall>ch call e. map_of (cs_confs c) ch = Some call \<longrightarrow> cf_phase call = Returned (Inl e) \<longrightarrow>
        e = err_stopped \<and> n_stopped (cs_node c)) \<and>
     (let M = mset (map fst (cs_inbox c)) + owed (cs_node c) + X
      in (\<forall>ch. count M ch \<le> 1) \<and>
         (\<forall>ch \<in># M. \<exists>call. map_of (cs_applies c) ch = Some call \<and>
            (ac_phase call = Awaiting \<or> ac_phase call = Returned (Inl err_stopped))))"

lemma calls_ok_count: "calls_ok X c \<Longrightarrow> count (mset (map fst (cs_inbox c)) + owed (cs_node c) + X) ch \<le> 1"
  by (simp add: calls_ok_def Let_def)

lemma calls_ok_member:
  "calls_ok X c \<Longrightarrow> ch \<in># mset (map fst (cs_inbox c)) + owed (cs_node c) + X \<Longrightarrow>
   \<exists>call. map_of (cs_applies c) ch = Some call \<and> (ac_phase call = Awaiting \<or> ac_phase call = Returned (Inl err_stopped))"
  unfolding calls_ok_def Let_def by blast

lemma calls_ok_deliver:
  assumes "calls_ok X c" "answered out + owed n' \<subseteq># X + owed (cs_node c)" "n_stopped n' = n_stopped (cs_node c)"
  shows "calls_ok {#} (deliver (n', out) c)"
proof -
  let ?M = "mset (map fst (cs_inbox c)) + owed (cs_node c) + X"
  have sub: "mset (map fst (cs_inbox c)) + answered out + owed n' \<subseteq># ?M"
    using subset_mset.add_left_mono [OF assms(2), of "mset (map fst (cs_inbox c))"] by (simp add: ac_simps)
  have "count (mset (map fst (cs_inbox c)) + answered out + owed n') ch \<le> 1" for ch
    using calls_ok_count [OF assms(1), of ch] mset_subset_eq_count [OF sub, of ch] by linarith
  moreover have "\<exists>call. map_of (cs_applies c) ch = Some call \<and>
      (ac_phase call = Awaiting \<or> ac_phase call = Returned (Inl err_stopped))"
    if "ch \<in># mset (map fst (cs_inbox c)) + answered out + owed n'" for ch
    using calls_ok_member [OF assms(1)] mset_subset_eqD [OF sub that] by blast
  ultimately show ?thesis
    using assms(1,3) unfolding calls_ok_def deliver_def Let_def by (simp add: ac_simps)
qed

lemma deliver_settled:
  assumes "calls_ok {#} c" "settles (cs_node c) (Inr r)"
  shows "calls_ok {#} (deliver r c)"
  using calls_ok_deliver [OF assms(1)] assms(2) by (cases r) simp

lemma calls_ok_setApply:
  assumes "calls_ok {#} c" "map_of (cs_applies c) ch = Some call" "ac_phase call = Submitting"
  shows "calls_ok {#ch#} (setApply ch Awaiting c)"
proof -
  have "ch \<notin># mset (map fst (cs_inbox c)) + owed (cs_node c) + {#}"
    using calls_ok_member [OF assms(1), of ch] assms(2,3) by auto
  then have "count (mset (map fst (cs_inbox c)) + owed (cs_node c)) ch = 0" by (simp add: count_eq_zero_iff)
  then show ?thesis
    using assms unfolding calls_ok_def setApply_def Let_def
    by (auto simp: mput_def update_conv split: if_splits)
qed

lemma calls_ok_stopped:
  assumes "calls_ok {#} c" "n_stopped (cs_node c)"
  shows "calls_ok {#} (setApply ch (Returned (Inl err_stopped)) c)" "calls_ok {#} (setConf ch' (Returned (Inl err_stopped)) c)"
  using assms unfolding calls_ok_def setApply_def setConf_def Let_def
  by (auto simp: mput_def update_conv split: if_splits option.splits)

lemma add_mset_once:
  assumes "\<And>k. count (add_mset ch M) k \<le> 1"
  shows "ch \<notin># M" "count M k \<le> 1"
proof -
  show "ch \<notin># M" using assms [of ch] by (simp add: not_in_iff)
  show "count M k \<le> 1" using assms [of k] by (simp split: if_splits)
qed

lemma distinct_of_count: "(\<And>a. count (mset xs) a \<le> 1) \<Longrightarrow> distinct xs"
proof (induction xs)
  case (Cons x xs)
  have c: "count (add_mset x (mset xs)) k \<le> 1" for k using Cons.prems [of k] by simp
  show ?case using add_mset_once [OF c] Cons.IH by simp
qed simp

lemma calls_ok_answer:
  assumes "calls_ok {#} c" "map_of (cs_applies c) ch = Some call" "cs_inbox c = xs @ (ch, resp) # ys"
    "Apply_finish now call resp (cs_node c) = (call', n')"
  shows "calls_ok {#} (c\<lparr>cs_applies := mput ch call' (cs_applies c), cs_inbox := xs @ ys, cs_node := n'\<rparr>)"
proof -
  let ?M = "mset (map fst (xs @ ys)) + owed (cs_node c)"
  have c: "count (add_mset ch ?M) k \<le> 1" for k
    using calls_ok_count [OF assms(1), of k] by (simp add: assms(3))
  note m = add_mset_once [OF c]
  have "\<exists>call. map_of (cs_applies c) k = Some call \<and>
      (ac_phase call = Awaiting \<or> ac_phase call = Returned (Inl err_stopped))" if "k \<in># ?M" for k
    using calls_ok_member [OF assms(1), of k] that by (auto simp: assms(3))
  moreover have "n_stopped n' = n_stopped (cs_node c)" "n_pendingCommands n' = n_pendingCommands (cs_node c)"
    "call' = call\<lparr>ac_phase := Returned (Inr resp)\<rparr>"
    using assms(4) by (auto simp: Apply_finish_def split: if_splits)
  ultimately show ?thesis
    using assms(1,2) m unfolding calls_ok_def Let_def by (auto simp: mput_def update_conv)
qed

lemma client_step_ok: "client_step d c c' \<Longrightarrow> calls_ok {#} c \<Longrightarrow> calls_ok {#} c'"
proof (induction rule: client_step.induct)
  case (apply_begin c ch cid seq cmd now)
  have "ch \<notin> fst ` set (cs_inbox c)" "ch \<notin> snd ` set (n_pendingCommands (cs_node c))"
    using calls_ok_member [OF apply_begin(2), of ch] apply_begin(1) by auto
  then show ?case using apply_begin unfolding calls_ok_def Let_def
    by (auto simp: mput_def update_conv Apply_begin_def)
next
  case (apply_accept c ch call r)
  obtain n' out where r: "r = (n', out)" by fastforce
  have ch: "pa_resultCh (ac_req call) = ch" using apply_accept by (simp add: calls_ok_def)
  have "cs_node (setApply ch Awaiting c) = cs_node c" by (simp add: setApply_def split: option.splits)
  moreover have "calls_ok {#ch#} (setApply ch Awaiting c)" using apply_accept calls_ok_setApply by blast
  ultimately show ?case
    using handleApplyRequest_settles [OF apply_accept(3) [unfolded r ch]] unfolding r by (intro calls_ok_deliver) auto
next
  case (apply_answer c ch call xs resp ys now call' n')
  then show ?case using calls_ok_answer by blast
next
  case (conf_begin c ch cfg chA)
  then show ?case unfolding calls_ok_def Let_def by (auto simp: mput_def update_conv membershipChange_def)
next
  case (conf_accept c ch call r)
  have "calls_ok {#} (setConf ch Awaiting c)" using conf_accept unfolding calls_ok_def setConf_def Let_def
    by (auto simp: mput_def update_conv)
  moreover have "settles (cs_node (setConf ch Awaiting c)) (Inr r)"
    using handleConfigurationMessage_settles [of "cs_node c"] conf_accept(1,3) by (simp add: setConf_def flip: conf_accept(3))
  ultimately show ?case by (rule deliver_settled)
next
  case (conf_answer c ch call xs resp ys)
  then show ?case unfolding calls_ok_def setConf_def Let_def by (auto simp: mput_def update_conv)
next
  case (iteration env ev c r)
  then show ?case using deliver_settled run_iteration_settles by metis
next
  case (ae_reply aer c r)
  then show ?case using deliver_settled handleAppendEntriesReply_settles by metis
next
  case (is_reply isr c r)
  then show ?case using deliver_settled handleInstallSnapshotReply_settles by metis
next
  case (install c)
  have "n_pendingCommands (snapshotLoop_install d (cs_node c)) = n_pendingCommands (cs_node c)"
    "n_stopped (snapshotLoop_install d (cs_node c)) = n_stopped (cs_node c)"
    by (simp_all add: snapshotLoop_install_def split: list.splits prod.splits)
  then show ?case using install unfolding calls_ok_def Let_def by simp
next
  case (stop c)
  have "n_pendingCommands (Stop (cs_node c)) = n_pendingCommands (cs_node c)" "n_stopped (Stop (cs_node c))"
    by (simp_all add: Stop_def)
  then show ?case using stop unfolding calls_ok_def Let_def by simp
qed (simp_all add: calls_ok_stopped)

lemma client_reach_ok: "client_reach d n c \<Longrightarrow> n_pendingCommands n = [] \<Longrightarrow> calls_ok {#} c"
proof (induction rule: client_reach.induct)
  case init
  then show ?case by (simp add: calls_ok_def)
next
  case (step c c')
  then show ?case using client_step_ok by blast
qed

section \<open>Pieces in a row\<close>

text \<open>Iterations of goroutines one after another, with all that they sent.\<close>

definition in_turn ::
  "(('sm, 'st) raft_node \<Rightarrow> ('sm, 'st) node_result) list \<Rightarrow> ('sm, 'st) raft_node \<Rightarrow> ('sm, 'st) node_result" where
  "in_turn fs n = foldl andThen (Inr (n, [])) fs"

end
