(* ===== verification/Raft_Transport.thy ===== *)
theory Raft_Transport
  imports Raft_Types
begin

text \<open>
  The transport (src/transport): \<open>RPCTransport\<close> keeps one client connection per peer, sends an
  RPC over it with a deadline, and dispatches incoming RPCs to the registered handler. The
  sockets and net/rpc are the record \<open>net\<close> of what dialling, closing and listening return; a
  call's outcome is an argument of the sending functions. A client connection is a number.
  The laws a user of a transport relies on are the locale \<open>connections\<close>.
\<close>

section \<open>Data\<close>

record rpc_conn =
  conn_client :: "nat option"

record 'h rpc_transport =
  tr_myID :: server_id
  tr_handler :: "'h option"
  tr_connections :: "(server_id, rpc_conn) gomap"
  tr_listener :: "string option"

text \<open>
  What the network answers: \<open>rpc.DialHTTP\<close>, \<open>Client.Close\<close>, \<open>net.Listen\<close> with the address the
  listener got, and \<open>Server.RegisterName\<close>.
\<close>

record net =
  net_dial :: "server_id \<Rightarrow> error + nat"
  net_close :: "nat \<Rightarrow> error option"
  net_listen :: "string \<Rightarrow> error + string"
  net_register :: "error option"

text \<open>The outcome of \<open>Client.Go\<close> within the deadline: done with an error or a reply, or late.\<close>

datatype 'r call_outcome = CallDone "error + 'r" | CallTimeout

section \<open>Connections\<close>

definition NewRPCTransport :: "server_id \<Rightarrow> 'h rpc_transport" where
  "NewRPCTransport sid = \<lparr>tr_myID = sid, tr_handler = None, tr_connections = [], tr_listener = None\<rparr>"

definition RegisterHandler :: "'h \<Rightarrow> 'h rpc_transport \<Rightarrow> 'h rpc_transport" where
  "RegisterHandler h t = t\<lparr>tr_handler := Some h\<rparr>"

definition Addr :: "'h rpc_transport \<Rightarrow> string option" where
  "Addr t = tr_listener t"

definition Listen :: "net \<Rightarrow> string \<Rightarrow> 'h rpc_transport \<Rightarrow> error option \<times> 'h rpc_transport" where
  "Listen w addr t =
     (case net_register w of
        Some e \<Rightarrow> (Some (''rpc register: '' @ e), t)
      | None \<Rightarrow> (case net_listen w addr of
          Inl e \<Rightarrow> (Some (''listen '' @ addr @ '': '' @ e), t)
        | Inr ln \<Rightarrow> (None, t\<lparr>tr_listener := Some ln\<rparr>)))"

text \<open>The last component lists the client connections that were closed.\<close>

definition Disconnect :: "net \<Rightarrow> server_id \<Rightarrow> 'h rpc_transport \<Rightarrow> (error option \<times> 'h rpc_transport) \<times> nat list" where
  "Disconnect w sid t =
     (case map_of (tr_connections t) sid of
        Some conn \<Rightarrow>
          let t' = t\<lparr>tr_connections := mdel sid (tr_connections t)\<rparr>
          in (case conn_client conn of
                Some k \<Rightarrow> ((net_close w k, t'), [k])
              | None \<Rightarrow> ((None, t'), []))
      | None \<Rightarrow> ((None, t), []))"

definition Connect :: "net \<Rightarrow> server_id \<Rightarrow> 'h rpc_transport \<Rightarrow> (error option \<times> 'h rpc_transport) \<times> nat list" where
  "Connect w sid t =
     (let ((_, t1), closed) = Disconnect w sid t
      in case net_dial w sid of
           Inl e \<Rightarrow> ((Some (''dial '' @ sid @ '': '' @ e), t1), closed)
         | Inr k \<Rightarrow> ((None, t1\<lparr>tr_connections := mput sid \<lparr>conn_client = Some k\<rparr> (tr_connections t1)\<rparr>), closed))"

text \<open>\<open>Close\<close> visits every connection; each is closed and deleted.\<close>

definition Close :: "net \<Rightarrow> 'h rpc_transport \<Rightarrow> (error option \<times> 'h rpc_transport) \<times> nat list" where
  "Close w t = ((None, fold (\<lambda>(k, _) t. t\<lparr>tr_connections := mdel k (tr_connections t)\<rparr>) (tr_connections t) t),
     List.map_filter (\<lambda>(_, conn). conn_client conn) (tr_connections t))"

section \<open>Sending\<close>

definition call :: "(nat \<Rightarrow> string \<Rightarrow> 'a \<Rightarrow> 'r call_outcome) \<Rightarrow> server_id \<Rightarrow> string \<Rightarrow> 'a \<Rightarrow> 'h rpc_transport
    \<Rightarrow> (error + 'r) \<times> 'h rpc_transport" where
  "call go target rpc args t =
     (case map_of (tr_connections t) target of
        None \<Rightarrow> (Inl (''no connection to '' @ target), t)
      | Some conn \<Rightarrow> (case conn_client conn of
          None \<Rightarrow> (Inl (''nil connection to '' @ target), t)
        | Some k \<Rightarrow> (case go k rpc args of
            CallDone (Inl e) \<Rightarrow> (Inl e, t\<lparr>tr_connections := mdel target (tr_connections t)\<rparr>)
          | CallDone (Inr r) \<Rightarrow> (Inr r, t)
          | CallTimeout \<Rightarrow> (Inl (''RPC '' @ rpc @ '' to '' @ target @ '' timed out''), t))))"

definition SendRequestVote :: "(nat \<Rightarrow> string \<Rightarrow> request_vote_args \<Rightarrow> request_vote_response call_outcome)
    \<Rightarrow> server_id \<Rightarrow> request_vote_args \<Rightarrow> 'h rpc_transport \<Rightarrow> (error + request_vote_response) \<times> 'h rpc_transport" where
  "SendRequestVote go target args t = call go target ''RaftRPCListener.RequestVoteRPC'' args t"

definition SendAppendEntries :: "(nat \<Rightarrow> string \<Rightarrow> append_entries_args \<Rightarrow> append_entries_response call_outcome)
    \<Rightarrow> server_id \<Rightarrow> append_entries_args \<Rightarrow> 'h rpc_transport \<Rightarrow> (error + append_entries_response) \<times> 'h rpc_transport" where
  "SendAppendEntries go target args t = call go target ''RaftRPCListener.AppendEntriesRPC'' args t"

definition SendInstallSnapshot :: "(nat \<Rightarrow> string \<Rightarrow> install_snapshot_args \<Rightarrow> install_snapshot_response call_outcome)
    \<Rightarrow> server_id \<Rightarrow> install_snapshot_args \<Rightarrow> 'h rpc_transport \<Rightarrow> (error + install_snapshot_response) \<times> 'h rpc_transport" where
  "SendInstallSnapshot go target args t = call go target ''RaftRPCListener.InstallSnapshotRPC'' args t"

definition SendApply :: "(nat \<Rightarrow> string \<Rightarrow> apply_args \<Rightarrow> apply_response call_outcome)
    \<Rightarrow> server_id \<Rightarrow> apply_args \<Rightarrow> 'h rpc_transport \<Rightarrow> (error + apply_response) \<times> 'h rpc_transport" where
  "SendApply go target args t = call go target ''RaftRPCListener.ApplyRPC'' args t"

definition SendAddRemoveServer :: "(nat \<Rightarrow> string \<Rightarrow> add_remove_server_args \<Rightarrow> add_remove_server_response call_outcome)
    \<Rightarrow> server_id \<Rightarrow> add_remove_server_args \<Rightarrow> 'h rpc_transport
    \<Rightarrow> (error + add_remove_server_response) \<times> 'h rpc_transport" where
  "SendAddRemoveServer go target args t = call go target ''RaftRPCListener.AddRemoveServerRPC'' args t"

section \<open>Incoming RPCs\<close>

text \<open>
  The \<open>TransportHandler\<close> interface over a handler state \<open>'n\<close>; \<open>None\<close> means that the method does
  not return.
\<close>

type_synonym ('a, 'r, 'n) rpc_method = "'a \<Rightarrow> 'n \<Rightarrow> ('r \<times> 'n) option"

record 'n transport_handler =
  th_RequestVote :: "(request_vote_args, request_vote_response, 'n) rpc_method"
  th_AppendEntries :: "(append_entries_args, append_entries_response, 'n) rpc_method"
  th_InstallSnapshot :: "(install_snapshot_args, install_snapshot_response, 'n) rpc_method"
  th_Apply :: "(apply_args, apply_response, 'n) rpc_method"
  th_AddRemoveServer :: "(add_remove_server_args, add_remove_server_response, 'n) rpc_method"

definition viaHandler :: "('n transport_handler \<Rightarrow> ('a, 'r, 'n) rpc_method) \<Rightarrow> 'n transport_handler rpc_transport
    \<Rightarrow> ('a, error + 'r, 'n) rpc_method" where
  "viaHandler method t args n =
     (case tr_handler t of
        None \<Rightarrow> Some (Inl ''handler not registered'', n)
      | Some h \<Rightarrow> map_option (\<lambda>(resp, n'). (Inr resp, n')) (method h args n))"

definition RequestVoteRPC :: "'n transport_handler rpc_transport \<Rightarrow> (request_vote_args, error + request_vote_response, 'n) rpc_method" where
  "RequestVoteRPC = viaHandler th_RequestVote"

definition AppendEntriesRPC :: "'n transport_handler rpc_transport \<Rightarrow> (append_entries_args, error + append_entries_response, 'n) rpc_method" where
  "AppendEntriesRPC = viaHandler th_AppendEntries"

definition InstallSnapshotRPC :: "'n transport_handler rpc_transport \<Rightarrow> (install_snapshot_args, error + install_snapshot_response, 'n) rpc_method" where
  "InstallSnapshotRPC = viaHandler th_InstallSnapshot"

definition ApplyRPC :: "'n transport_handler rpc_transport \<Rightarrow> (apply_args, error + apply_response, 'n) rpc_method" where
  "ApplyRPC = viaHandler th_Apply"

definition AddRemoveServerRPC :: "'n transport_handler rpc_transport \<Rightarrow> (add_remove_server_args, error + add_remove_server_response, 'n) rpc_method" where
  "AddRemoveServerRPC = viaHandler th_AddRemoveServer"

section \<open>Connecting to the peers\<close>

text \<open>
  \<open>ConnectWithRetry\<close>: attempt \<open>i\<close> meets the network \<open>w i\<close>. The loop need not end, so it is a
  partial function; \<open>ConnectWithRetry_returns\<close> says when it does.
\<close>

partial_function (option) ConnectWithRetry ::
  "(nat \<Rightarrow> net) \<Rightarrow> nat \<Rightarrow> server_id \<Rightarrow> 'h rpc_transport \<Rightarrow> (server_id \<times> 'h rpc_transport) option" where
  "ConnectWithRetry w i sid t =
     (let r = fst (Connect (w i) sid t)
      in if fst r \<noteq> None then ConnectWithRetry w (Suc i) sid (snd r) else Some (sid, snd r))"

text \<open>
  \<open>connectToPeers\<close> of the node (src/raft/node.go): one goroutine per entry of \<open>Peers\<close> tries until
  it is connected and then sends to \<open>done\<close>; the function itself receives as many times as
  there are peers and then signals \<open>connectedChan\<close>.
\<close>

record 'h connector =
  ct_transport :: "'h rpc_transport"
  ct_trying :: "server_id list"
  ct_done :: nat
  ct_received :: nat
  ct_signalled :: bool
  ct_stopped :: bool

definition connectToPeers :: "server_id list \<Rightarrow> 'h rpc_transport \<Rightarrow> 'h connector" where
  "connectToPeers peers t = \<lparr>ct_transport = t, ct_trying = peers, ct_done = 0, ct_received = 0,
     ct_signalled = False, ct_stopped = False\<rparr>"

inductive connect_step :: "server_id list \<Rightarrow> 'h connector \<Rightarrow> 'h connector \<Rightarrow> bool" for peers where
  attempt_failed: "ct_trying c = xs @ p # ys \<Longrightarrow> Connect w p (ct_transport c) = ((Some e, t'), cl) \<Longrightarrow>
    connect_step peers c (c\<lparr>ct_transport := t'\<rparr>)"
| attempt_ok: "ct_trying c = xs @ p # ys \<Longrightarrow> Connect w p (ct_transport c) = ((None, t'), cl) \<Longrightarrow>
    connect_step peers c (c\<lparr>ct_transport := t', ct_trying := xs @ ys, ct_done := Suc (ct_done c)\<rparr>)"
| quit: "ct_trying c = xs @ p # ys \<Longrightarrow> ct_stopped c \<Longrightarrow> connect_step peers c (c\<lparr>ct_trying := xs @ ys\<rparr>)"
| receive: "ct_received c < length peers \<Longrightarrow> ct_done c > 0 \<Longrightarrow>
    connect_step peers c (c\<lparr>ct_done := ct_done c - 1, ct_received := Suc (ct_received c)\<rparr>)"
| signal: "ct_received c = length peers \<Longrightarrow> \<not> ct_signalled c \<Longrightarrow> connect_step peers c (c\<lparr>ct_signalled := True\<rparr>)"
| stop: "connect_step peers c (c\<lparr>ct_stopped := True\<rparr>)"

section \<open>What a user of a transport relies on\<close>

text \<open>Sends in a row; the first component says which of them succeeded.\<close>

fun run_sends :: "('e \<Rightarrow> 'k \<Rightarrow> 't \<Rightarrow> bool \<times> 't) \<Rightarrow> ('e \<times> 'k) list \<Rightarrow> 't \<Rightarrow> bool list \<times> 't" where
  "run_sends send [] t = ([], t)"
| "run_sends send ((e, k) # xs) t =
     (let (ok, t1) = send e k t; (oks, t2) = run_sends send xs t1 in (ok # oks, t2))"

text \<open>
  \<open>up t k\<close>: there is a connection to \<open>k\<close>. A send over no connection fails and changes nothing,
  a successful send changes nothing, no send opens a connection; connecting decides
  about its own peer and leaves the others.
\<close>

locale connections =
  fixes up :: "'t \<Rightarrow> 'k \<Rightarrow> bool"
    and send :: "'e \<Rightarrow> 'k \<Rightarrow> 't \<Rightarrow> bool \<times> 't"
    and connect :: "'w \<Rightarrow> 'k \<Rightarrow> 't \<Rightarrow> bool \<times> 't"
  assumes send_down: "\<not> up t k \<Longrightarrow> send e k t = (False, t)"
    and send_ok: "fst (send e k t) \<Longrightarrow> snd (send e k t) = t"
    and send_opens_none: "up (snd (send e k t)) j \<Longrightarrow> up t j"
    and send_others: "j \<noteq> k \<Longrightarrow> up (snd (send e k t)) j = up t j"
    and connect_decides: "up (snd (connect w k t)) k = fst (connect w k t)"
    and connect_others: "j \<noteq> k \<Longrightarrow> up (snd (connect w k t)) j = up t j"
begin

lemma stays_down:
  "\<not> up t k \<Longrightarrow> \<not> up (snd (run_sends send xs t)) k \<and>
     (\<forall>i < length xs. snd (xs ! i) = k \<longrightarrow> \<not> fst (run_sends send xs t) ! i)"
proof (induction xs arbitrary: t)
  case (Cons x xs)
  obtain e j where x: "x = (e, j)" by fastforce
  obtain ok t1 where s: "send e j t = (ok, t1)" by fastforce
  have d: "\<not> up t1 k" using send_opens_none [of e j t k] Cons.prems s by auto
  have "\<not> ok" if "j = k" using send_down Cons.prems that s by auto
  then show ?case using Cons.IH [OF d] by (auto simp: x s nth_Cons split: prod.splits nat.splits)
qed simp

lemma reconnected_sends: "fst (connect w k t) \<Longrightarrow> up (snd (connect w k t)) k"
  by (simp add: connect_decides)

end

section \<open>\<open>RPCTransport\<close> keeps the contract\<close>

text \<open>Any of the five RPCs, with the outcome its call will have.\<close>

datatype rpc_send =
    SRequestVote request_vote_args "request_vote_response call_outcome"
  | SAppendEntries append_entries_args "append_entries_response call_outcome"
  | SInstallSnapshot install_snapshot_args "install_snapshot_response call_outcome"
  | SApply apply_args "apply_response call_outcome"
  | SAddRemoveServer add_remove_server_args "add_remove_server_response call_outcome"

definition sent_ok :: "(error + 'r) \<times> 't \<Rightarrow> bool \<times> 't" where
  "sent_ok r = (\<not> isl (fst r), snd r)"

fun doSend :: "rpc_send \<Rightarrow> server_id \<Rightarrow> 'h rpc_transport \<Rightarrow> bool \<times> 'h rpc_transport" where
  "doSend (SRequestVote a x) p t = sent_ok (SendRequestVote (\<lambda>_ _ _. x) p a t)"
| "doSend (SAppendEntries b x) p t = sent_ok (SendAppendEntries (\<lambda>_ _ _. x) p b t)"
| "doSend (SInstallSnapshot i x) p t = sent_ok (SendInstallSnapshot (\<lambda>_ _ _. x) p i t)"
| "doSend (SApply c x) p t = sent_ok (SendApply (\<lambda>_ _ _. x) p c t)"
| "doSend (SAddRemoveServer r x) p t = sent_ok (SendAddRemoveServer (\<lambda>_ _ _. x) p r t)"

lemmas send_defs = SendRequestVote_def SendAppendEntries_def SendInstallSnapshot_def SendApply_def SendAddRemoveServer_def

definition connected_to :: "'h rpc_transport \<Rightarrow> server_id \<Rightarrow> bool" where
  "connected_to t p \<longleftrightarrow> mhas (tr_connections t) p"

definition tryConnect :: "net \<Rightarrow> server_id \<Rightarrow> 'h rpc_transport \<Rightarrow> bool \<times> 'h rpc_transport" where
  "tryConnect w p t = (fst (fst (Connect w p t)) = None, snd (fst (Connect w p t)))"

lemma mhas_Nil [simp]: "\<not> mhas [] j"
  by (simp add: mhas_def)

lemma mhas_map_of: "mhas m k \<longleftrightarrow> (\<exists>v. map_of m k = Some v)"
  by (auto simp: mhas_def)

lemma call_connections:
  "\<not> connected_to t k \<Longrightarrow> call go k rpc a t = (Inl (''no connection to '' @ k), t)"
  "\<not> isl (fst (call go k rpc a t)) \<Longrightarrow> snd (call go k rpc a t) = t"
  "connected_to (snd (call go k rpc a t)) j \<Longrightarrow> connected_to t j"
  "j \<noteq> k \<Longrightarrow> connected_to (snd (call go k rpc a t)) j = connected_to t j"
  by (auto simp: call_def connected_to_def mhas_map_of split: option.splits call_outcome.splits sum.splits)
    (auto simp: mdel_def delete_conv split: if_splits)

lemma Disconnect_conns:
  "tr_connections (snd (fst (Disconnect w p t))) = mdel p (tr_connections t)"
  by (auto simp: Disconnect_def Let_def mdel_def map_of_eq_None_iff delete_id split: option.splits)

lemma Connect_cases:
  obtains (failed) e where "net_dial w p = Inl e" "fst (fst (Connect w p t)) = Some (''dial '' @ p @ '': '' @ e)"
      "tr_connections (snd (fst (Connect w p t))) = mdel p (tr_connections t)"
  | (ok) k where "net_dial w p = Inr k" "fst (fst (Connect w p t)) = None"
      "tr_connections (snd (fst (Connect w p t))) = mput p \<lparr>conn_client = Some k\<rparr> (mdel p (tr_connections t))"
proof (cases "net_dial w p")
  case (Inl e)
  then show thesis using Disconnect_conns [of w p t] by (intro failed [OF Inl]) (simp_all add: Connect_def Let_def case_prod_beta)
next
  case (Inr k)
  then show thesis using Disconnect_conns [of w p t] by (intro ok [OF Inr]) (simp_all add: Connect_def Let_def case_prod_beta)
qed

interpretation rt: connections connected_to doSend tryConnect
proof
  fix t :: "'h rpc_transport" and k j e w
  show "\<not> connected_to t k \<Longrightarrow> doSend e k t = (False, t)"
    by (cases e) (simp_all add: send_defs sent_ok_def call_connections(1))
  show "fst (doSend e k t) \<Longrightarrow> snd (doSend e k t) = t"
    by (cases e) (simp_all add: send_defs sent_ok_def call_connections(2))
  show "connected_to (snd (doSend e k t)) j \<Longrightarrow> connected_to t j"
    by (cases e) (auto simp: send_defs sent_ok_def dest: call_connections(3))
  show "j \<noteq> k \<Longrightarrow> connected_to (snd (doSend e k t)) j = connected_to t j"
    by (cases e) (auto simp: send_defs sent_ok_def call_connections(4))
  show "connected_to (snd (tryConnect w k t)) k = fst (tryConnect w k t)"
    by (cases rule: Connect_cases [of w k t]) (simp_all add: tryConnect_def connected_to_def)
  show "j \<noteq> k \<Longrightarrow> connected_to (snd (tryConnect w k t)) j = connected_to t j"
    by (cases rule: Connect_cases [of w k t]) (simp_all add: tryConnect_def connected_to_def)
qed

section \<open>Retrying ends when the network lets it\<close>

lemma ConnectWithRetry_returns:
  assumes "net_dial (w (i + j)) p = Inr k" "\<And>m. m < j \<Longrightarrow> isl (net_dial (w (i + m)) p)"
  shows "\<exists>t'. ConnectWithRetry w i p t = Some (p, t') \<and> map_of (tr_connections t') p = Some \<lparr>conn_client = Some k\<rparr>"
  using assms
proof (induction j arbitrary: i t)
  case 0
  then show ?case
    by (cases rule: Connect_cases [of "w i" p t])
      (simp_all add: ConnectWithRetry.simps [of w i p t] Let_def mput_def update_conv)
next
  case (Suc j)
  have "isl (net_dial (w i) p)" using Suc.prems(2) [of 0] by simp
  then have "fst (fst (Connect (w i) p t)) \<noteq> None" by (cases rule: Connect_cases [of "w i" p t]) auto
  then have "ConnectWithRetry w i p t = ConnectWithRetry w (Suc i) p (snd (fst (Connect (w i) p t)))"
    by (simp add: ConnectWithRetry.simps [of w i p t] Let_def)
  moreover have "isl (net_dial (w (Suc i + m)) p)" if "m < j" for m using Suc.prems(2) [of "Suc m"] that by simp
  ultimately show ?case using Suc.IH [of "Suc i"] Suc.prems(1) by simp
qed

section \<open>The signal comes when every peer is connected\<close>

text \<open>
  As long as no goroutine has quit, every peer is connected or has one still trying; the
  receives count the goroutines that finished.
\<close>

definition connector_inv :: "server_id list \<Rightarrow> 'h connector \<Rightarrow> bool" where
  "connector_inv peers c \<longleftrightarrow>
     (let total = ct_done c + ct_received c + length (ct_trying c)
      in total \<le> length peers \<and> (\<not> ct_stopped c \<longrightarrow> total = length peers) \<and>
         (total = length peers \<longrightarrow> (\<forall>p \<in> set peers. p \<in> set (ct_trying c) \<or> connected_to (ct_transport c) p)) \<and>
         (ct_signalled c \<longrightarrow> ct_received c = length peers))"

inductive connect_reach :: "server_id list \<Rightarrow> 'h rpc_transport \<Rightarrow> 'h connector \<Rightarrow> bool" for peers t where
  start: "connect_reach peers t (connectToPeers peers t)"
| step: "connect_reach peers t c \<Longrightarrow> connect_step peers c c' \<Longrightarrow> connect_reach peers t c'"

lemma connect_step_inv: "connect_step peers c c' \<Longrightarrow> connector_inv peers c \<Longrightarrow> connector_inv peers c'"
proof (induction rule: connect_step.induct)
  case (attempt_failed c xs p ys w e t' cl)
  have "connected_to t' q = connected_to (ct_transport c) q" if "q \<noteq> p" for q
    using rt.connect_others [OF that, of w "ct_transport c"] attempt_failed(2) by (simp add: tryConnect_def)
  then show ?case using attempt_failed(1,3) unfolding connector_inv_def Let_def by auto
next
  case (attempt_ok c xs p ys w t' cl)
  have "connected_to t' q = connected_to (ct_transport c) q" if "q \<noteq> p" for q
    using rt.connect_others [OF that, of w "ct_transport c"] attempt_ok(2) by (simp add: tryConnect_def)
  moreover have "connected_to t' p"
    using rt.connect_decides [of w p "ct_transport c"] attempt_ok(2) by (simp add: tryConnect_def)
  ultimately have "connected_to t' q" if "q = p \<or> connected_to (ct_transport c) q" for q using that by metis
  then show ?case using attempt_ok(1,3) unfolding connector_inv_def Let_def by auto
qed (auto simp: connector_inv_def Let_def)

lemma connect_reach_inv: "connect_reach peers t c \<Longrightarrow> connector_inv peers c"
proof (induction rule: connect_reach.induct)
  case start
  then show ?case by (simp add: connector_inv_def connectToPeers_def)
next
  case (step c c')
  then show ?case using connect_step_inv by blast
qed

lemma signalled_connected:
  assumes "connect_reach peers t c" "ct_signalled c" "p \<in> set peers"
  shows "connected_to (ct_transport c) p"
  using connect_reach_inv [OF assms(1)] assms(2,3) by (auto simp: connector_inv_def Let_def)

lemma connect_reach_trying: "connect_reach peers t c \<Longrightarrow> set (ct_trying c) \<subseteq> set peers"
proof (induction rule: connect_reach.induct)
  case start
  then show ?case by (simp add: connectToPeers_def)
next
  case (step c c')
  from step(2,1,3) show ?case by cases auto
qed

text \<open>While the network answers and nobody stops the node, the signal does come.\<close>

lemma connect_completes:
  fixes w :: net
  assumes "connector_inv peers c" "\<not> ct_stopped c" "\<And>p. p \<in> set peers \<Longrightarrow> \<not> isl (net_dial w p)"
    "set (ct_trying c) \<subseteq> set peers"
  shows "\<exists>c'. (connect_step peers)\<^sup>*\<^sup>* c c' \<and> ct_signalled c'"
  using assms
proof (induction "length (ct_trying c) + 2 * (length peers - ct_received c)" arbitrary: c rule: less_induct)
  case less
  consider (tried) p ps where "ct_trying c = p # ps" | (recv) "ct_trying c = []" "ct_received c < length peers"
    | (finished) "ct_trying c = []" "ct_received c = length peers"
    using less.prems(1) by (cases "ct_trying c"; cases "ct_received c < length peers")
      (auto simp: connector_inv_def Let_def)
  then show ?case
  proof cases
    case tried
    obtain r t' cl where x: "Connect w p (ct_transport c) = ((r, t'), cl)" by (metis prod.exhaust)
    have "r = None" using less.prems(3) [of p] less.prems(4) x tried
      by (cases rule: Connect_cases [of w p "ct_transport c"]) auto
    let ?c = "c\<lparr>ct_transport := t', ct_trying := ps, ct_done := Suc (ct_done c)\<rparr>"
    have st: "connect_step peers c ?c" using attempt_ok [of c "[]" p ps w t' cl peers] x tried \<open>r = None\<close> by simp
    have "\<exists>c'. (connect_step peers)\<^sup>*\<^sup>* ?c c' \<and> ct_signalled c'"
      by (rule less.hyps [of ?c, OF _ connect_step_inv [OF st less.prems(1)] _ less.prems(3)])
        (use less.prems(2,4) tried in auto)
    then show ?thesis using converse_rtranclp_into_rtranclp [of "connect_step peers", OF st] by blast
  next
    case recv
    let ?c = "c\<lparr>ct_done := ct_done c - 1, ct_received := Suc (ct_received c)\<rparr>"
    have "ct_done c > 0" using less.prems(1,2) recv by (auto simp: connector_inv_def Let_def)
    then have st: "connect_step peers c ?c" using receive recv by blast
    have "\<exists>c'. (connect_step peers)\<^sup>*\<^sup>* ?c c' \<and> ct_signalled c'"
      by (rule less.hyps [of ?c, OF _ connect_step_inv [OF st less.prems(1)] _ less.prems(3)])
        (use less.prems(2,4) recv in auto)
    then show ?thesis using converse_rtranclp_into_rtranclp [of "connect_step peers", OF st] by blast
  next
    case finished
    show ?thesis
    proof (cases "ct_signalled c")
      case False
      have "(connect_step peers)\<^sup>*\<^sup>* c (c\<lparr>ct_signalled := True\<rparr>)"
        by (rule r_into_rtranclp, rule connect_step.signal) (use finished False in auto)
      moreover have "ct_signalled (c\<lparr>ct_signalled := True\<rparr>)" by simp
      ultimately show ?thesis by blast
    qed blast
  qed
qed

section \<open>Closing\<close>

lemma Close_conns:
  fixes t :: "'h rpc_transport"
  shows "tr_connections (snd (fst (Close w t))) = []"
proof -
  have "tr_connections (fold (\<lambda>(k, _) t. t\<lparr>tr_connections := mdel k (tr_connections t)\<rparr>) xs t) =
      filter (\<lambda>kv. fst kv \<notin> fst ` set xs) (tr_connections t)" for xs :: "(server_id \<times> rpc_conn) list" and t :: "'h rpc_transport"
    by (induction xs arbitrary: t) (auto simp: mdel_def AList.delete_eq case_prod_beta intro!: filter_cong)
  then show ?thesis by (simp add: Close_def filter_empty_conv)
qed

end
