(* ===== verification/Raft_Network.thy ===== *)
theory Raft_Network
  imports Raft_Client Raft_Iteration Raft_Cluster Raft_Transport
begin

text \<open>
  A node behind a transport: the node's \<open>Handle...\<close> methods as the transport's handler, and a
  peer's RPC that reaches it. What is shown of the whole path is that an RPC gets the
  answer of the iteration that served it.
\<close>

section \<open>The node as handler\<close>

text \<open>
  A call that ends without a reply is \<open>None\<close>. \<open>HandleApply\<close> and \<open>HandleAddRemoveServer\<close> wait
  through many iterations, so they are arguments here.
\<close>

definition served :: "go_panic + 'r option \<times> ('sm, 'st) raft_node \<times> node_output list \<Rightarrow> ('r \<times> ('sm, 'st) raft_node) option" where
  "served x = (case x of Inr (Some r, n', _) \<Rightarrow> Some (r, n') | _ \<Rightarrow> None)"

definition node_handler :: "('sm, 'st) deps \<Rightarrow> node_env
    \<Rightarrow> (apply_args, apply_response, ('sm, 'st) raft_node) rpc_method
    \<Rightarrow> (add_remove_server_args, add_remove_server_response, ('sm, 'st) raft_node) rpc_method
    \<Rightarrow> ('sm, 'st) raft_node transport_handler" where
  "node_handler d env ap ar =
     \<lparr>th_RequestVote = (\<lambda>a n. served (HandleRequestVote d env a n)),
      th_AppendEntries = (\<lambda>a n. served (HandleAppendEntries d env a n)),
      th_InstallSnapshot = (\<lambda>a n. served (HandleInstallSnapshot d env a n)),
      th_Apply = ap, th_AddRemoveServer = ar\<rparr>"

text \<open>
  What net/rpc does for a client connected to a server: the call runs the method of that
  name on the server's listener and brings back its reply or its error; a method that does
  not return lets the deadline pass.
\<close>

definition rpc_link :: "('n transport_handler rpc_transport \<Rightarrow> ('a, error + 'r, 'n) rpc_method) \<Rightarrow> string
    \<Rightarrow> 'n transport_handler rpc_transport \<Rightarrow> 'n \<Rightarrow> nat \<Rightarrow> string \<Rightarrow> 'a \<Rightarrow> 'r call_outcome" where
  "rpc_link method name remote n k rpc args =
     (if rpc = name then (case method remote args n of Some (r, _) \<Rightarrow> CallDone r | None \<Rightarrow> CallTimeout)
      else CallDone (Inl (''rpc: can't find method '' @ rpc)))"

section \<open>An RPC gets its own reply\<close>

text \<open>Outputs that are no replies to RPCs.\<close>

definition no_rpc_reply :: "node_output list \<Rightarrow> bool" where
  "no_rpc_reply out \<longleftrightarrow> list_all (\<lambda>x. case x of ReplyRequestVote _ \<Rightarrow> False | ReplyAppendEntries _ \<Rightarrow> False
     | ReplyInstallSnapshot _ \<Rightarrow> False | _ \<Rightarrow> True) out"

lemma no_rpc_reply_simps [simp]:
  "no_rpc_reply []" "no_rpc_reply (xs @ ys) \<longleftrightarrow> no_rpc_reply xs \<and> no_rpc_reply ys"
  by (simp_all add: no_rpc_reply_def)

lemma applyLog_no_rpc_reply: "no_rpc_reply (snd (applyLog d e n))"
  by (auto simp: applyLog_def signalPendingCommand_def signalPendingConfig_def waitForConfigApplied_def
      no_rpc_reply_def list_all_iff Let_def split: option.splits prod.splits if_splits)

lemma checkLogs_loop_no_rpc_reply: "no_rpc_reply (snd (checkLogs_loop fuel d n))"
proof (induction fuel arbitrary: n)
  case (Suc fuel)
  obtain k s' where u: "updateLastApplied (n_state n) = (k, s')" by fastforce
  then show ?case using Suc.IH by (simp add: u case_prod_beta applyLog_no_rpc_reply)
qed simp

text \<open>What the three roles do with a vote request: serve it on some timer setting, then maybe commit.\<close>

definition vote_served :: "server_id \<Rightarrow> request_vote_args \<Rightarrow> ('sm, 'st) raft_node \<times> node_output list \<Rightarrow> bool" where
  "vote_served me a r \<longleftrightarrow> (\<exists>s. snd r = [ReplyRequestVote (fst (handleRequestToVote me a s))] \<and>
     votedFor (n_state (fst r)) = votedFor (snd (handleRequestToVote me a s)) \<and>
     currentTerm (n_state (fst r)) = currentTerm (snd (handleRequestToVote me a s)))"

lemma serveRequestVote_served: "serveRequestVote d a n = Inr r \<Longrightarrow> vote_served (n_id n) a r"
  by (auto simp: serveRequestVote_def vote_served_def case_prod_beta)

lemma role_handler_vote:
  "handleFollower d env (RVArgs a) n = Inr r \<Longrightarrow> vote_served (n_id n) a r"
  "handleCandidate d env (RVArgs a) n = Inr r \<Longrightarrow> vote_served (n_id n) a r"
  "handleLeader d (RVArgs a) n = Inr r \<Longrightarrow> vote_served (n_id n) a r"
proof -
  show "vote_served (n_id n) a r" if f: "handleFollower d env (RVArgs a) n = Inr r"
  proof -
    obtain s where "serveRequestVote d a (onState stopElectionTimeout (n\<lparr>n_state := s\<rparr>)) = Inr r"
      using f by (auto simp: handleFollower_def Let_def split: sum.splits)
    from serveRequestVote_served [OF this] show ?thesis by simp
  qed
  show "vote_served (n_id n) a r" if f: "handleCandidate d env (RVArgs a) n = Inr r"
  proof -
    obtain s where "serveRequestVote d a (n\<lparr>n_state := s\<rparr>) = Inr r"
      using f by (auto simp: handleCandidate_def Let_def split: sum.splits)
    from serveRequestVote_served [OF this] show ?thesis by simp
  qed
  show "vote_served (n_id n) a r" if "handleLeader d (RVArgs a) n = Inr r"
    using that serveRequestVote_served [of d a n]
    by (auto simp: handleLeader_def Let_def andThen_def vote_served_def checkCommits_frame split: sum.splits prod.splits)
qed

lemma vote_iteration:
  assumes "\<not> n_stopped n" "run_iteration d env (RVArgs a) n = Inr (n', out)"
  obtains pre me r where "out = pre @ snd r" "n' = fst r" "no_rpc_reply pre" "vote_served me a r"
proof -
  obtain n1 o1 where c: "checkLogsToApply d n = (n1, o1)" by fastforce
  have q1: "no_rpc_reply o1"
    using checkLogs_loop_no_rpc_reply [of _ d n] c unfolding checkLogsToApply_def by (metis snd_conv)
  obtain n2 o2 where s: "checkConfigurationsToStart d n1 = Inr (n2, o2)"
    using assms by (auto simp: run_iteration_def c andThen_def split: sum.splits)
  have q2: "no_rpc_reply o2"
    using s by (auto simp: checkConfigurationsToStart_def startedConfig_def Let_def split: sum.splits)
  obtain r where r: "(case role (n_state n2) of Follower \<Rightarrow> handleFollower d env (RVArgs a) n2
      | Candidate \<Rightarrow> handleCandidate d env (RVArgs a) n2 | Leader \<Rightarrow> handleLeader d (RVArgs a) n2) = Inr r"
      "n' = fst r" "out = (o1 @ o2) @ snd r"
    using assms by (auto simp: run_iteration_def c s split: sum.splits)
  have "vote_served (n_id n2) a r" using r(1) by (cases "role (n_state n2)") (auto intro: role_handler_vote)
  then show thesis using that [of "o1 @ o2" r] r q1 q2 by simp
qed

lemma HandleRequestVote_replies:
  assumes "ready (n_state n)" "\<not> n_stopped n"
  obtains me s n' out where
    "HandleRequestVote d env a n = Inr (Some (fst (handleRequestToVote me a s)), n', out)"
    "votedFor (n_state n') = votedFor (snd (handleRequestToVote me a s))"
    "currentTerm (n_state n') = currentTerm (snd (handleRequestToVote me a s))"
proof -
  have "event_wf (n_state n) (RVArgs a)" by (simp add: event_wf_def)
  then obtain n' out where i: "run_iteration d env (RVArgs a) n = Inr (n', out)"
    using run_iteration_adv [OF assms(1), of "RVArgs a" d env] by (auto simp: keeps_def split: sum.splits)
  obtain pre me r where r: "out = pre @ snd r" "n' = fst r" "no_rpc_reply pre" "vote_served me a r"
    using vote_iteration [OF assms(2) i] by metis
  let ?sel = "\<lambda>x. case x of ReplyRequestVote r \<Rightarrow> Some r | _ \<Rightarrow> None"
  have "List.map_filter ?sel xs = []" if "no_rpc_reply xs" for xs
    using that by (induction xs) (auto simp: no_rpc_reply_def map_filter_simps split: node_output.splits)
  then have "List.map_filter ?sel out = List.map_filter ?sel (snd r)"
    using r(1,3) by (simp add: map_filter_def)
  moreover obtain s where "snd r = [ReplyRequestVote (fst (handleRequestToVote me a s))]"
      "votedFor (n_state n') = votedFor (snd (handleRequestToVote me a s))"
      "currentTerm (n_state n') = currentTerm (snd (handleRequestToVote me a s))"
    using r(2,4) unfolding vote_served_def by blast
  ultimately show thesis using that [of me s n' out]
    by (simp add: HandleRequestVote_def replyOf_def i map_filter_simps)
qed

end
