(* ===== verification/KV_Json.thy ===== *)
theory KV_Json
  imports Raft_Prelude "HOL-Library.List_Lexorder" "HOL-Library.Char_ord"
begin

text \<open>
  What the key-value example (src/examples/kv-store/main.go) uses of Go's encoding/json: the
  encoder for strings, string maps and the \<open>Op\<close> struct, and the decoder, which first checks
  the whole text against the JSON grammar and then stores it. A Go string is a list of
  bytes; the encoder and the decoder replace what is not UTF-8 by U+FFFD, so that only
  UTF-8 text comes out of them.
\<close>

section \<open>UTF-8\<close>

abbreviation byte_in :: "nat \<Rightarrow> nat \<Rightarrow> char \<Rightarrow> bool" where
  "byte_in lo hi c \<equiv> lo \<le> (of_char c :: nat) \<and> (of_char c :: nat) \<le> hi"

text \<open>The second byte of a sequence with first byte \<open>b\<close>: no overlong forms, no surrogates.\<close>

definition second_ok :: "nat \<Rightarrow> char \<Rightarrow> bool" where
  "second_ok b c =
     (if b = 0xE0 then byte_in 0xA0 0xBF c else if b = 0xED then byte_in 0x80 0x9F c
      else if b = 0xF0 then byte_in 0x90 0xBF c else if b = 0xF4 then byte_in 0x80 0x8F c
      else byte_in 0x80 0xBF c)"

text \<open>How many bytes the well-formed rune at the front has, \<open>0\<close> when there is none.\<close>

fun rune_len :: "string \<Rightarrow> nat" where
  "rune_len [] = 0"
| "rune_len (c # cs) =
     (let b = of_char c :: nat
      in if b < 0x80 then 1
         else if 0xC2 \<le> b \<and> b \<le> 0xDF then (case cs of c1 # _ \<Rightarrow> if byte_in 0x80 0xBF c1 then 2 else 0 | _ \<Rightarrow> 0)
         else if 0xE0 \<le> b \<and> b \<le> 0xEF then
           (case cs of c1 # c2 # _ \<Rightarrow> if second_ok b c1 \<and> byte_in 0x80 0xBF c2 then 3 else 0 | _ \<Rightarrow> 0)
         else if 0xF0 \<le> b \<and> b \<le> 0xF4 then
           (case cs of c1 # c2 # c3 # _ \<Rightarrow>
              if second_ok b c1 \<and> byte_in 0x80 0xBF c2 \<and> byte_in 0x80 0xBF c3 then 4 else 0
            | _ \<Rightarrow> 0)
         else 0)"

text \<open>\<open>utf8.EncodeRune\<close>; surrogates and numbers out of range are written as U+FFFD.\<close>

definition encode_rune :: "nat \<Rightarrow> string" where
  "encode_rune r0 =
     (let r = (if r0 > 0x10FFFF \<or> 0xD800 \<le> r0 \<and> r0 \<le> 0xDFFF then 0xFFFD else r0)
      in if r < 0x80 then [char_of r]
         else if r < 0x800 then [char_of (0xC0 + r div 64), char_of (0x80 + r mod 64)]
         else if r < 0x10000 then
           [char_of (0xE0 + r div 4096), char_of (0x80 + r div 64 mod 64), char_of (0x80 + r mod 64)]
         else [char_of (0xF0 + r div 262144), char_of (0x80 + r div 4096 mod 64),
               char_of (0x80 + r div 64 mod 64), char_of (0x80 + r mod 64)])"

text \<open>Well-formed UTF-8 text.\<close>

function utf8 :: "string \<Rightarrow> bool" where
  "utf8 s = (if s = [] then True else if rune_len s = 0 then False else utf8 (drop (rune_len s) s))"
  by auto
termination by (relation "measure length") (auto simp del: rune_len.simps)

declare utf8.simps [simp del]

section \<open>Strings\<close>

definition hex_digit :: "nat \<Rightarrow> char" where
  "hex_digit n = (if n < 10 then char_of (48 + n) else char_of (87 + n))"

definition hex_value :: "char \<Rightarrow> nat option" where
  "hex_value c =
     (let b = of_char c :: nat
      in if 48 \<le> b \<and> b \<le> 57 then Some (b - 48) else if 97 \<le> b \<and> b \<le> 102 then Some (b - 87)
         else if 65 \<le> b \<and> b \<le> 70 then Some (b - 55) else None)"

text \<open>\<open>getu4\<close>: four hexadecimal digits.\<close>

fun hex4 :: "string \<Rightarrow> (nat \<times> string) option" where
  "hex4 (a # b # c # d # cs) =
     (case (hex_value a, hex_value b, hex_value c, hex_value d) of
        (Some w, Some x, Some y, Some z) \<Rightarrow> Some (w * 4096 + x * 256 + y * 16 + z, cs)
      | _ \<Rightarrow> None)"
| "hex4 _ = None"

text \<open>
  The encoder's text for one rune of a string, given as its bytes. The bytes of HTML
  (\<open><\<close>, \<open>>\<close>, \<open>&\<close>), control characters and U+2028, U+2029 are written with \<open>\u\<close>.
\<close>

definition escape_ascii :: "char \<Rightarrow> string" where
  "escape_ascii c =
     (if c = CHR 0x22 \<or> c = CHR 0x5C then [CHR 0x5C, c]
      else if c = CHR 0x0A then [CHR 0x5C, CHR ''n'']
      else if c = CHR 0x0D then [CHR 0x5C, CHR ''r'']
      else if c = CHR 0x09 then [CHR 0x5C, CHR ''t'']
      else if (of_char c :: nat) < 0x20 \<or> c \<in> {CHR ''<'', CHR ''>'', CHR ''&''} then
        [CHR 0x5C, CHR ''u'', CHR ''0'', CHR ''0'', hex_digit (of_char c div 16), hex_digit (of_char c mod 16)]
      else [c])"

definition escape_rune :: "string \<Rightarrow> string" where
  "escape_rune u =
     (if u = [] then CHR 0x5C # ''ufffd''
      else if length u = 1 then escape_ascii (hd u)
      else if u = [CHR 0xE2, CHR 0x80, CHR 0xA8] then CHR 0x5C # ''u2028''
      else if u = [CHR 0xE2, CHR 0x80, CHR 0xA9] then CHR 0x5C # ''u2029''
      else u)"

function json_escape :: "string \<Rightarrow> string" where
  "json_escape s = (if s = [] then []
     else escape_rune (take (rune_len s) s) @ json_escape (drop (max 1 (rune_len s)) s))"
  by auto
termination by (relation "measure length") (auto simp del: rune_len.simps)

declare json_escape.simps [simp del]

definition json_string :: "string \<Rightarrow> string" where
  "json_string s = [CHR 0x22] @ json_escape s @ [CHR 0x22]"

text \<open>The simple escapes the scanner accepts.\<close>

definition unescape :: "char \<Rightarrow> char option" where
  "unescape e = map_of [(CHR 0x22, CHR 0x22), (CHR 0x5C, CHR 0x5C), (CHR ''/'', CHR ''/''),
     (CHR ''b'', CHR 0x08), (CHR ''f'', CHR 0x0C), (CHR ''n'', CHR 0x0A), (CHR ''r'', CHR 0x0D),
     (CHR ''t'', CHR 0x09)] e"

text \<open>
  A \<open>\u\<close> escape: a surrogate needs its partner in the escape that follows, and is U+FFFD
  without it.
\<close>

definition unescape_u :: "string \<Rightarrow> (string \<times> string) option" where
  "unescape_u s = (case hex4 s of
      None \<Rightarrow> None
    | Some (r, rest) \<Rightarrow>
        if 0xD800 \<le> r \<and> r \<le> 0xDFFF then
          (case (if take 2 rest = [CHR 0x5C, CHR ''u''] then hex4 (drop 2 rest) else None) of
             Some (r2, rest2) \<Rightarrow>
               if r < 0xDC00 \<and> 0xDC00 \<le> r2 \<and> r2 \<le> 0xDFFF
               then Some (encode_rune (0x10000 + (r - 0xD800) * 1024 + (r2 - 0xDC00)), rest2)
               else Some (encode_rune 0xFFFD, rest)
           | None \<Rightarrow> Some (encode_rune 0xFFFD, rest))
        else Some (encode_rune r, rest))"

text \<open>One rune of a string literal and what follows; \<open>None\<close> at an error.\<close>

definition scan_rune :: "string \<Rightarrow> (string \<times> string) option" where
  "scan_rune s = (case s of
      [] \<Rightarrow> None
    | c # cs \<Rightarrow>
        if c = CHR 0x5C then
          (case cs of
             [] \<Rightarrow> None
           | e # es \<Rightarrow> if e = CHR ''u'' then unescape_u es
                       else map_option (\<lambda>x. ([x], es)) (unescape e))
        else if (of_char c :: nat) < 0x20 then None
        else if rune_len s = 0 then Some (encode_rune 0xFFFD, cs)
        else Some (take (rune_len s) s, drop (rune_len s) s))"

lemma rune_len_le: "rune_len s \<le> length s"
  by (cases s) (auto simp: Let_def split: list.splits)

lemma unescape_u_shrinks: "unescape_u s = Some (x, r) \<Longrightarrow> length r < length s"
proof -
  have h: "length r < length s" if "hex4 s = Some (v, r)" for s v r
    using that by (induction s rule: hex4.induct) (auto split: option.splits)
  show "unescape_u s = Some (x, r) \<Longrightarrow> length r < length s"
    by (auto simp: unescape_u_def dest!: h split: option.splits prod.splits if_splits)
qed

lemma scan_rune_shrinks: "scan_rune s = Some (x, r) \<Longrightarrow> length r < length s"
  using rune_len_le [of s]
  by (auto simp: scan_rune_def dest!: unescape_u_shrinks simp del: rune_len.simps split: list.splits if_splits option.splits)

text \<open>The rest of a string literal after its opening quote.\<close>

function scan_str :: "string \<Rightarrow> (string \<times> string) option" where
  "scan_str s =
     (if s \<noteq> [] \<and> hd s = CHR 0x22 then Some ([], tl s)
      else case scan_rune s of
             None \<Rightarrow> None
           | Some (x, r) \<Rightarrow> (case scan_str r of None \<Rightarrow> None | Some (y, r') \<Rightarrow> Some (x @ y, r')))"
  by auto
termination by (relation "measure length") (auto dest: scan_rune_shrinks)

declare scan_str.simps [simp del]

lemma scan_str_cases:
  assumes "scan_str s = Some (z, r')"
  obtains (quote) "s = CHR 0x22 # r'" "z = []"
  | (rune) x r y where "\<not> (s \<noteq> [] \<and> hd s = CHR 0x22)" "scan_rune s = Some (x, r)" "scan_str r = Some (y, r')" "z = x @ y"
proof (cases "s \<noteq> [] \<and> hd s = CHR 0x22")
  case True
  then show thesis using quote assms scan_str.simps [of s] by (cases s) auto
next
  case False
  then show thesis using rune assms scan_str.simps [of s] by (auto split: option.splits)
qed

lemma scan_str_shrinks: "scan_str s = Some (x, r) \<Longrightarrow> length r < length s"
proof (induction "length s" arbitrary: s x r rule: less_induct)
  case less
  from less.prems show ?case
  proof (cases rule: scan_str_cases)
    case (rune x1 r1 y)
    then show ?thesis using scan_rune_shrinks [OF rune(2)] less.hyps [OF _ rune(3)] by simp
  qed simp
qed

section \<open>The grammar\<close>

datatype json = JNull | JBool bool | JNum string | JStr string | JArr "json list" | JObj "(string \<times> json) list"

definition is_ws :: "char \<Rightarrow> bool" where
  "is_ws c \<longleftrightarrow> c \<in> {CHR 0x20, CHR 0x09, CHR 0x0A, CHR 0x0D}"

abbreviation skip_ws :: "string \<Rightarrow> string" where
  "skip_ws \<equiv> dropWhile is_ws"

abbreviation is_digit :: "char \<Rightarrow> bool" where
  "is_digit \<equiv> byte_in 48 57"

text \<open>The parts of a number: the integer part, the fraction and the exponent.\<close>

definition scan_int :: "string \<Rightarrow> (string \<times> string) option" where
  "scan_int s = (case s of
      [] \<Rightarrow> None
    | c # cs \<Rightarrow> if c = CHR ''0'' then Some ([c], cs)
                else if is_digit c then Some (takeWhile is_digit s, dropWhile is_digit s) else None)"

definition scan_digits :: "string \<Rightarrow> (string \<times> string) option" where
  "scan_digits s = (if takeWhile is_digit s = [] then None else Some (takeWhile is_digit s, dropWhile is_digit s))"

definition scan_frac :: "string \<Rightarrow> (string \<times> string) option" where
  "scan_frac s = (case s of
      [] \<Rightarrow> Some ([], s)
    | c # cs \<Rightarrow> if c = CHR ''.'' then map_option (\<lambda>(x, r). (c # x, r)) (scan_digits cs) else Some ([], s))"

definition scan_exp :: "string \<Rightarrow> (string \<times> string) option" where
  "scan_exp s = (case s of
      [] \<Rightarrow> Some ([], s)
    | c # cs \<Rightarrow>
        if c = CHR ''e'' \<or> c = CHR ''E'' then
          (case cs of
             d # ds \<Rightarrow> if d = CHR ''+'' \<or> d = CHR ''-''
                        then map_option (\<lambda>(x, r). (c # d # x, r)) (scan_digits ds)
                        else map_option (\<lambda>(x, r). (c # x, r)) (scan_digits cs)
           | [] \<Rightarrow> None)
        else Some ([], s))"

definition scan_number :: "string \<Rightarrow> (json \<times> string) option" where
  "scan_number s =
     (let (sign, s1) = (if s \<noteq> [] \<and> hd s = CHR ''-'' then (''-'', tl s) else ([], s))
      in case scan_int s1 of None \<Rightarrow> None | Some (x, s2) \<Rightarrow>
         (case scan_frac s2 of None \<Rightarrow> None | Some (y, s3) \<Rightarrow>
           (case scan_exp s3 of None \<Rightarrow> None | Some (z, s4) \<Rightarrow> Some (JNum (sign @ x @ y @ z), s4))))"

definition scan_lit :: "string \<Rightarrow> json \<Rightarrow> string \<Rightarrow> (json \<times> string) option" where
  "scan_lit w v s = (if take (length w) s = w then Some (v, drop (length w) s) else None)"

definition max_depth :: nat where
  "max_depth = 10000"

text \<open>
  Values, members of an object after the opening brace, elements of an array. \<open>d\<close> counts the
  open braces and brackets; the fuel is spent on characters, and \<open>parse_fuel\<close> shows that the
  length of the text is enough.
\<close>

fun p_value :: "nat \<Rightarrow> nat \<Rightarrow> string \<Rightarrow> (json \<times> string) option"
and p_members :: "nat \<Rightarrow> nat \<Rightarrow> string \<Rightarrow> ((string \<times> json) list \<times> string) option"
and p_elems :: "nat \<Rightarrow> nat \<Rightarrow> string \<Rightarrow> (json list \<times> string) option" where
  "p_value 0 d s = None"
| "p_value (Suc f) d s = (case skip_ws s of
      [] \<Rightarrow> None
    | c # cs \<Rightarrow>
        if c = CHR 0x22 then map_option (\<lambda>(x, r). (JStr x, r)) (scan_str cs)
        else if c = CHR 0x7B then
          (if d \<ge> max_depth then None
           else if skip_ws cs \<noteq> [] \<and> hd (skip_ws cs) = CHR 0x7D then Some (JObj [], tl (skip_ws cs))
           else map_option (\<lambda>(x, r). (JObj x, r)) (p_members f (Suc d) cs))
        else if c = CHR 0x5B then
          (if d \<ge> max_depth then None
           else if skip_ws cs \<noteq> [] \<and> hd (skip_ws cs) = CHR 0x5D then Some (JArr [], tl (skip_ws cs))
           else map_option (\<lambda>(x, r). (JArr x, r)) (p_elems f (Suc d) cs))
        else if c = CHR ''t'' then scan_lit ''true'' (JBool True) (c # cs)
        else if c = CHR ''f'' then scan_lit ''false'' (JBool False) (c # cs)
        else if c = CHR ''n'' then scan_lit ''null'' JNull (c # cs)
        else scan_number (c # cs))"
| "p_members 0 d s = None"
| "p_members (Suc f) d s = (case skip_ws s of
      [] \<Rightarrow> None
    | q # cs \<Rightarrow>
        if q \<noteq> CHR 0x22 then None
        else case scan_str cs of None \<Rightarrow> None | Some (k, r) \<Rightarrow>
          (case skip_ws r of
             [] \<Rightarrow> None
           | col # r1 \<Rightarrow>
               if col \<noteq> CHR 0x3A then None
               else case p_value f d r1 of None \<Rightarrow> None | Some (v, r2) \<Rightarrow>
                 (case skip_ws r2 of
                    [] \<Rightarrow> None
                  | e # r3 \<Rightarrow>
                      if e = CHR 0x7D then Some ([(k, v)], r3)
                      else if e = CHR 0x2C then map_option (\<lambda>(x, r). ((k, v) # x, r)) (p_members f d r3)
                      else None)))"
| "p_elems 0 d s = None"
| "p_elems (Suc f) d s = (case p_value f d s of None \<Rightarrow> None | Some (v, r2) \<Rightarrow>
      (case skip_ws r2 of
         [] \<Rightarrow> None
       | e # r3 \<Rightarrow>
           if e = CHR 0x5D then Some ([v], r3)
           else if e = CHR 0x2C then map_option (\<lambda>(x, r). (v # x, r)) (p_elems f d r3)
           else None))"

text \<open>\<open>checkValid\<close>: a value and nothing but white space after it.\<close>

definition parse :: "string \<Rightarrow> json option" where
  "parse s = (case p_value (Suc (2 * length s + 1)) 0 s of
      Some (v, r) \<Rightarrow> if skip_ws r = [] then Some v else None | None \<Rightarrow> None)"

section \<open>Only UTF-8 comes out of the scanner\<close>

definition is_rune :: "string \<Rightarrow> bool" where
  "is_rune u \<longleftrightarrow> u \<noteq> [] \<and> rune_len u = length u"

lemma rune_append: "is_rune u \<Longrightarrow> rune_len (u @ ys) = length u"
  by (cases u) (auto simp: is_rune_def Let_def split: list.splits if_splits)

lemma take_rune: "rune_len s \<noteq> 0 \<Longrightarrow> is_rune (take (rune_len s) s)"
  by (cases s) (auto simp: is_rune_def Let_def split: list.splits if_splits)

lemma utf8_rune_append: "is_rune u \<Longrightarrow> utf8 (u @ ys) = utf8 ys"
  using rune_append [of u ys] by (subst utf8.simps) (auto simp: is_rune_def)

lemma utf8_Nil [simp]: "utf8 []"
  by (simp add: utf8.simps)

lemma is_rune_ascii: "is_rune [c] \<longleftrightarrow> (of_char c :: nat) < 0x80"
  by (auto simp: is_rune_def Let_def)

lemma is_rune_sizes:
  fixes a b c d :: nat
  shows "a < 0x80 \<Longrightarrow> is_rune [char_of a]"
    and "0xC2 \<le> a \<Longrightarrow> a \<le> 0xDF \<Longrightarrow> b < 64 \<Longrightarrow> is_rune [char_of a, char_of (0x80 + b)]"
    and "a < 16 \<Longrightarrow> b < 64 \<Longrightarrow> c < 64 \<Longrightarrow> (a = 0 \<Longrightarrow> 32 \<le> b) \<Longrightarrow> (a = 13 \<Longrightarrow> b < 32) \<Longrightarrow>
      is_rune [char_of (0xE0 + a), char_of (0x80 + b), char_of (0x80 + c)]"
    and "a < 5 \<Longrightarrow> b < 64 \<Longrightarrow> c < 64 \<Longrightarrow> d < 64 \<Longrightarrow> (a = 0 \<Longrightarrow> 16 \<le> b) \<Longrightarrow> (a = 4 \<Longrightarrow> b < 16) \<Longrightarrow>
      is_rune [char_of (0xF0 + a), char_of (0x80 + b), char_of (0x80 + c), char_of (0x80 + d)]"
  by (auto simp: is_rune_def Let_def second_ok_def)

lemma encode_rune_is_rune: "is_rune (encode_rune r)"
proof -
  define q where "q = (if r > 0x10FFFF \<or> 0xD800 \<le> r \<and> r \<le> 0xDFFF then 0xFFFD else r)"
  define x y where "x = q div 64" and "y = x div 64"
  have q: "q \<le> 0x10FFFF" "\<not> (0xD800 \<le> q \<and> q \<le> 0xDFFF)" by (auto simp: q_def)
  have xy: "q = 64 * x + q mod 64" "x = 64 * y + x mod 64" "y = 64 * (y div 64) + y mod 64"
    "q mod 64 < 64" "x mod 64 < 64" "y mod 64 < 64"
    by (simp_all add: x_def y_def)
  have d: "q div 4096 = y" "q div 262144 = y div 64" by (simp_all add: x_def y_def flip: div_mult2_eq)
  note e = encode_rune_def Let_def q_def [symmetric] d x_def [symmetric]
  consider "q < 0x80" | "0x80 \<le> q" "q < 0x800" | "0x800 \<le> q" "q < 0x10000" | "0x10000 \<le> q" by linarith
  then show ?thesis
  proof cases
    case 2
    then show ?thesis unfolding e using xy by (simp add: is_rune_sizes(2))
  next
    case 3
    then have "y < 16" "y = 0 \<Longrightarrow> 32 \<le> x mod 64" "y = 13 \<Longrightarrow> x mod 64 < 32" using xy q by linarith+
    then show ?thesis unfolding e using xy 3 by (simp add: is_rune_sizes(3))
  next
    case 4
    then have "y div 64 < 5" "y div 64 = 0 \<Longrightarrow> 16 \<le> y mod 64" "y div 64 = 4 \<Longrightarrow> y mod 64 < 16"
      using xy q by linarith+
    then show ?thesis unfolding e using xy 4 by (simp add: is_rune_sizes(4))
  qed (simp add: e is_rune_sizes)
qed

lemma unescape_u_rune: "unescape_u s = Some (x, r) \<Longrightarrow> is_rune x"
  using encode_rune_is_rune by (auto simp: unescape_u_def split: option.splits prod.splits if_splits)

lemma unescape_ascii: "unescape e = Some x \<Longrightarrow> (of_char x :: nat) < 0x80"
  by (auto simp: unescape_def split: if_splits)

lemma scan_rune_rune: "scan_rune s = Some (x, r) \<Longrightarrow> is_rune x"
  using encode_rune_is_rune take_rune [of s] unescape_u_rune
  by (auto simp: scan_rune_def is_rune_ascii simp del: rune_len.simps dest: unescape_ascii
      split: list.splits if_splits option.splits)

lemma scan_str_utf8: "scan_str s = Some (x, r) \<Longrightarrow> utf8 x"
proof (induction "length s" arbitrary: s x r rule: less_induct)
  case less
  from less.prems show ?case
  proof (cases rule: scan_str_cases)
    case (rune x1 r1 y)
    have "utf8 y" using less.hyps [OF _ rune(3)] scan_rune_shrinks [OF rune(2)] by simp
    then show ?thesis using utf8_rune_append [OF scan_rune_rune [OF rune(2)]] rune(4) by simp
  qed simp
qed

section \<open>Encoding and scanning a string are inverse\<close>

lemma hex_value_digit: "n < 16 \<Longrightarrow> hex_value (hex_digit n) = Some n"
  by (auto simp: hex_value_def hex_digit_def Let_def)

lemma encode_rune_ascii: "(of_char c :: nat) < 0x80 \<Longrightarrow> encode_rune (of_char c) = [c]"
  by (simp add: encode_rune_def)

lemma escape_ascii_scan:
  assumes "(of_char c :: nat) < 0x80"
  shows "scan_rune (escape_ascii c @ ys) = Some ([c], ys)"
proof -
  let ?b = "of_char c :: nat"
  show ?thesis
  proof (cases "c \<in> {CHR 0x22, CHR 0x5C, CHR 0x0A, CHR 0x0D, CHR 0x09}")
    case True
    then show ?thesis by (auto simp: escape_ascii_def scan_rune_def unescape_def)
  next
    case short: False
    show ?thesis
    proof (cases "?b < 0x20 \<or> c \<in> {CHR ''<'', CHR ''>'', CHR ''&''}")
      case False
      then have "escape_ascii c = [c]" using short by (simp add: escape_ascii_def)
      then show ?thesis using rune_append [of "[c]" ys] assms short False
        by (simp add: scan_rune_def is_rune_ascii Let_def)
    next
      case True
      then have hex: "escape_ascii c = [CHR 0x5C, CHR ''u'', CHR ''0'', CHR ''0'', hex_digit (?b div 16), hex_digit (?b mod 16)]"
        using short by (simp add: escape_ascii_def)
      have "hex_value (hex_digit (?b div 16)) = Some (?b div 16)" "hex_value (hex_digit (?b mod 16)) = Some (?b mod 16)"
        using assms by (simp_all add: hex_value_digit)
      moreover have "hex_value (CHR ''0'') = Some 0" by (simp add: hex_value_def)
      ultimately have "hex4 (CHR ''0'' # CHR ''0'' # hex_digit (?b div 16) # hex_digit (?b mod 16) # ys) = Some (?b, ys)"
        by simp
      then show ?thesis using assms by (simp add: hex scan_rune_def unescape_u_def encode_rune_ascii)
    qed
  qed
qed

lemma escape_rune_scan:
  assumes "is_rune u"
  shows "scan_rune (escape_rune u @ ys) = Some (u, ys)"
proof -
  have line: "scan_rune ((CHR 0x5C # ''u2028'') @ ys) = Some ([CHR 0xE2, CHR 0x80, CHR 0xA8], ys)"
    "scan_rune ((CHR 0x5C # ''u2029'') @ ys) = Some ([CHR 0xE2, CHR 0x80, CHR 0xA9], ys)"
    by (simp_all add: scan_rune_def unescape_u_def hex_value_def encode_rune_def Let_def char_of_def bit_0)
  consider (ascii) c where "u = [c]" | (multi) c c' cs where "u = c # c' # cs"
    using assms by (cases u; cases "tl u") (auto simp: is_rune_def)
  then show ?thesis
  proof cases
    case ascii
    then show ?thesis using assms escape_ascii_scan by (simp add: escape_rune_def is_rune_ascii)
  next
    case multi
    then have "\<not> (of_char c :: nat) < 0x80" using assms by (auto simp: is_rune_def Let_def)
    then have "scan_rune (u @ ys) = Some (u, ys)"
      using rune_append [OF assms, of ys] multi by (auto simp: scan_rune_def simp del: rune_len.simps)
    then show ?thesis using multi line by (auto simp: escape_rune_def)
  qed
qed

lemma escape_rune_no_quote: "is_rune u \<Longrightarrow> hd (escape_rune u @ ys) \<noteq> CHR 0x22"
proof (cases u)
  case (Cons c cs)
  assume u: "is_rune u"
  have "escape_ascii c \<noteq> []" "hd (escape_ascii c) \<noteq> CHR 0x22" by (simp_all add: escape_ascii_def)
  moreover have "c \<noteq> CHR 0x22" if "cs \<noteq> []" using u Cons that by (auto simp: is_rune_def)
  ultimately show ?thesis using Cons by (simp add: escape_rune_def)
qed (simp add: is_rune_def)

lemma scan_str_step:
  "is_rune u \<Longrightarrow> scan_str (escape_rune u @ ys) = map_option (\<lambda>(z, r). (u @ z, r)) (scan_str ys)"
  using escape_rune_scan [of u ys] escape_rune_no_quote [of u ys]
  by (subst scan_str.simps) (auto split: option.splits)

lemma json_escape_scan: "utf8 s \<Longrightarrow> scan_str (json_escape s @ CHR 0x22 # ys) = Some (s, ys)"
proof (induction s rule: utf8.induct)
  case (1 s)
  show ?case
  proof (cases "s = []")
    case True
    then show ?thesis by (simp add: json_escape.simps scan_str.simps)
  next
    case False
    have n: "rune_len s \<noteq> 0" "utf8 (drop (rune_len s) s)"
      using "1.prems" False utf8.simps [of s] by (auto split: if_splits)
    then have "json_escape s = escape_rune (take (rune_len s) s) @ json_escape (drop (rune_len s) s)"
      using False by (subst json_escape.simps) (simp add: max_def)
    then show ?thesis using scan_str_step [OF take_rune [OF n(1)]] "1.IH" [OF False n] by simp
  qed
qed

section \<open>The fuel of the parser is enough\<close>

lemma scan_int_le: "scan_int s = Some (x, r) \<Longrightarrow> length r < length s"
  using length_dropWhile_le [of is_digit "tl s"]
  by (auto simp: scan_int_def less_Suc_eq_le split: list.splits if_splits)

lemma scan_digits_le: "scan_digits s = Some (x, r) \<Longrightarrow> length r \<le> length s"
  using length_dropWhile_le [of is_digit s] by (auto simp: scan_digits_def split: if_splits)

lemma scan_frac_le: "scan_frac s = Some (x, r) \<Longrightarrow> length r \<le> length s"
  by (auto simp: scan_frac_def dest!: scan_digits_le split: list.splits if_splits)

lemma scan_exp_le: "scan_exp s = Some (x, r) \<Longrightarrow> length r \<le> length s"
  by (auto simp: scan_exp_def dest!: scan_digits_le split: list.splits if_splits)

lemma scan_number_less: "scan_number s = Some (v, r) \<Longrightarrow> length r < length s"
  by (cases s) (fastforce simp: scan_number_def Let_def dest!: scan_int_le scan_frac_le scan_exp_le
      split: if_splits option.splits prod.splits)+

lemma skip_ws_length: "skip_ws s = c # cs \<Longrightarrow> length cs < length s"
  using length_dropWhile_le [of is_ws s] by simp

lemma scan_lit_less: "w \<noteq> [] \<Longrightarrow> scan_lit w v s = Some (x, r) \<Longrightarrow> length r < length s"
  by (cases s; cases w) (auto simp: scan_lit_def split: if_splits)

lemma skip_ws_tl: "length (tl (skip_ws s)) \<le> length s"
  using length_dropWhile_le [of is_ws s] by simp

text \<open>What is parsed has been consumed.\<close>

lemma parser_shrinks:
  "p_value f d s = Some (v, r) \<Longrightarrow> length r < length s"
  "p_members f d s = Some (ms, r) \<Longrightarrow> length r < length s"
  "p_elems f d s = Some (es, r) \<Longrightarrow> length r < length s"
proof (induction f arbitrary: d s v ms es r)
  case (Suc f)
  {
    case 1
    obtain c cs where ws: "skip_ws s = c # cs" using 1 by (auto split: list.splits)
    have "length r < length (c # cs)"
      using 1 Suc.IH(2,3) [of "Suc d" cs] skip_ws_tl [of cs]
      by (auto simp: ws dest!: scan_str_shrinks scan_number_less scan_lit_less [rotated] split: if_splits)
    then show ?case using skip_ws_length [OF ws] by simp
  next
    case 2
    obtain c cs where ws: "skip_ws s = c # cs" using 2 by (auto split: list.splits)
    then show ?case using 2 skip_ws_length [OF ws]
      by (auto split: if_splits option.splits list.splits dest!: scan_str_shrinks skip_ws_length Suc.IH)
  next
    case 3
    then show ?case
      by (auto split: if_splits option.splits list.splits dest!: skip_ws_length Suc.IH)
  }
qed simp_all

lemma parser_stable:
  "2 * length s < f \<Longrightarrow> p_value (Suc f) d s = p_value f d s"
  "2 * length s + 1 < f \<Longrightarrow> p_members (Suc f) d s = p_members f d s"
  "2 * length s + 1 < f \<Longrightarrow> p_elems (Suc f) d s = p_elems f d s"
proof (induction f arbitrary: d s)
  case (Suc f)
  {
    case 1
    show ?case
    proof (cases "skip_ws s")
      case (Cons c cs)
      have "2 * length cs + 1 < f" using skip_ws_length [OF Cons] 1 by simp
      then have "p_members (Suc f) (Suc d) cs = p_members f (Suc d) cs" "p_elems (Suc f) (Suc d) cs = p_elems f (Suc d) cs"
        by (simp_all only: Suc.IH)
      then show ?thesis by (simp only: p_value.simps(2) Cons list.case)
    qed (simp only: p_value.simps(2) list.case)
  next
    case 2
    have v: "p_value (Suc f) d r = p_value f d r" if "length r < length s" for r using Suc.IH(1) [of r] 2 that by simp
    have m: "p_members (Suc f) d r = p_members f d r" if "length r < length s" for r using Suc.IH(2) [of r] 2 that by simp
    show ?case
    proof (cases "skip_ws s")
      case ws: (Cons q cs)
      show ?thesis
      proof (cases "scan_str cs")
        case k: (Some kr)
        obtain kk r where kr: "kr = (kk, r)" by fastforce
        show ?thesis
        proof (cases "skip_ws r")
          case c: (Cons col r1)
          have r1: "length r1 < length s"
            using skip_ws_length [OF c] skip_ws_length [OF ws] scan_str_shrinks [OF k [unfolded kr]] by simp
          show ?thesis
          proof (cases "p_value f d r1")
            case p: (Some vr)
            obtain x r2 where vr: "vr = (x, r2)" by fastforce
            show ?thesis
            proof (cases "skip_ws r2")
              case e: (Cons e r3)
              have "length r3 < length s" using parser_shrinks(1) [OF p [unfolded vr]] skip_ws_length [OF e] r1 by simp
              then show ?thesis by (simp only: p_members.simps(2) [of _ d s] ws k kr c list.case option.case prod.case v [OF r1] p vr e m)
            qed (simp only: p_members.simps(2) [of _ d s] ws k kr c list.case option.case prod.case v [OF r1] p vr)
          qed (simp only: p_members.simps(2) [of _ d s] ws k kr c list.case option.case prod.case v [OF r1])
        qed (simp only: p_members.simps(2) [of _ d s] ws k kr list.case option.case prod.case)
      qed (simp only: p_members.simps(2) [of _ d s] ws list.case option.case)
    qed (simp only: p_members.simps(2) [of _ d s] list.case)
  next
    case 3
    have v: "p_value (Suc f) d s = p_value f d s" using Suc.IH(1) [of s] 3 by simp
    have m: "p_elems (Suc f) d r = p_elems f d r" if "length r < length s" for r using Suc.IH(3) [of r] 3 that by simp
    show ?case
    proof (cases "p_value f d s")
      case p: (Some vr)
      obtain x r2 where vr: "vr = (x, r2)" by fastforce
      show ?thesis
      proof (cases "skip_ws r2")
        case e: (Cons e r3)
        have "length r3 < length s" using parser_shrinks(1) [OF p [unfolded vr]] skip_ws_length [OF e] by simp
        then show ?thesis by (simp only: p_elems.simps(2) [of _ d s] v p vr e list.case option.case prod.case m)
      qed (simp only: p_elems.simps(2) [of _ d s] v p vr list.case option.case prod.case)
    qed (simp only: p_elems.simps(2) [of _ d s] v option.case)
  }
qed simp_all

lemma parse_fuel:
  assumes "2 * length s < f"
  shows "p_value f d s = p_value (2 * length s + 2) d s"
proof -
  have "p_value (2 * length s + 1 + k) d s = p_value (2 * length s + 1) d s" for k
    by (induction k) (simp_all only: add_0_right add_Suc_right parser_stable(1) less_add_Suc1)
  from this [of "f - (2 * length s + 1)"] this [of 1] assms show ?thesis by simp
qed

section \<open>Objects of strings\<close>

text \<open>\<open>"key":"value"\<close> pairs with commas between them.\<close>

fun json_members :: "(string \<times> string) list \<Rightarrow> string" where
  "json_members [] = []"
| "json_members [(k, v)] = json_string k @ CHR 0x3A # json_string v"
| "json_members ((k, v) # m # ms) = json_string k @ CHR 0x3A # json_string v @ CHR 0x2C # json_members (m # ms)"

definition json_object :: "(string \<times> string) list \<Rightarrow> string" where
  "json_object ms = CHR 0x7B # json_members ms @ [CHR 0x7D]"

lemma ws_simps [simp]: "\<not> is_ws (CHR 0x22)" "\<not> is_ws (CHR 0x3A)" "\<not> is_ws (CHR 0x2C)" "\<not> is_ws (CHR 0x7B)" "\<not> is_ws (CHR 0x7D)"
  by (simp_all add: is_ws_def)

lemma p_value_string: "utf8 v \<Longrightarrow> p_value (Suc f) d (json_string v @ ys) = Some (JStr v, ys)"
  by (simp add: json_string_def json_escape_scan)

lemma p_members_step:
  assumes "utf8 k" "utf8 v" "\<not> is_ws e"
  shows "p_members (Suc (Suc g)) d (json_string k @ CHR 0x3A # json_string v @ e # r) =
    (if e = CHR 0x7D then Some ([(k, JStr v)], r)
     else if e = CHR 0x2C then map_option (\<lambda>(x, r). ((k, JStr v) # x, r)) (p_members (Suc g) d r) else None)"
proof -
  let ?r = "CHR 0x3A # json_string v @ e # r"
  have ws: "skip_ws (json_string k @ ?r) = CHR 0x22 # json_escape k @ CHR 0x22 # ?r" "skip_ws ?r = ?r" "skip_ws (e # r) = e # r"
    using assms(3) by (simp_all add: json_string_def)
  have sc: "scan_str (json_escape k @ CHR 0x22 # ?r) = Some (k, ?r)" using assms(1) by (rule json_escape_scan)
  show ?thesis
    by (simp only: p_members.simps(2) [of "Suc g" d "json_string k @ ?r"] ws sc list.case option.case prod.case
        p_value_string [OF assms(2)] refl not_True_eq_False if_False)
qed

lemma Suc_Suc_ex: "1 < f \<Longrightarrow> \<exists>g. f = Suc (Suc g)"
  by presburger

lemma p_members_object:
  assumes "ms \<noteq> []" "length ms < f" "\<forall>(k, v) \<in> set ms. utf8 k \<and> utf8 v"
  shows "p_members f d (json_members ms @ CHR 0x7D # ys) = Some (map (\<lambda>(k, v). (k, JStr v)) ms, ys)"
  using assms
proof (induction ms arbitrary: f rule: json_members.induct)
  case (2 k v)
  obtain g where f: "f = Suc (Suc g)" using 2(2) Suc_Suc_ex [of f] by auto
  show ?case using 2(3) p_members_step [of k v "CHR 0x7D" g d ys] by (simp add: f del: p_members.simps)
next
  case (3 k v m ms)
  obtain g where f: "f = Suc (Suc g)" using 3(3) Suc_Suc_ex [of f] by auto
  have "p_members (Suc g) d (json_members (m # ms) @ CHR 0x7D # ys) = Some (map (\<lambda>(k, v). (k, JStr v)) (m # ms), ys)"
    using 3(3,4) f by (intro "3.IH") auto
  then show ?case using 3(4) p_members_step [of k v "CHR 0x2C" g d "json_members (m # ms) @ CHR 0x7D # ys"]
    by (simp add: f del: p_members.simps json_members.simps(2))
qed simp

lemma json_members_length: "length ms \<le> length (json_members ms)"
  by (induction ms rule: json_members.induct) (simp_all add: json_string_def)

lemma parse_object:
  assumes "\<forall>(k, v) \<in> set ms. utf8 k \<and> utf8 v"
  shows "parse (json_object ms) = Some (JObj (map (\<lambda>(k, v). (k, JStr v)) ms))"
proof (cases "ms = []")
  case True
  have "p_value (Suc f) 0 ''{}'' = Some (JObj [], [])" for f by (simp add: max_depth_def)
  then show ?thesis using True unfolding parse_def json_object_def by (simp only: json_members.simps append.simps) simp
next
  case False
  let ?s = "json_members ms @ [CHR 0x7D]"
  have hd: "hd ?s = CHR 0x22" "?s \<noteq> []"
    using False by (cases ms rule: json_members.cases; simp add: json_string_def)+
  then have ws: "skip_ws ?s = ?s" by (cases ?s) simp_all
  have "p_value (Suc f) 0 (json_object ms) = Some (JObj (map (\<lambda>(k, v). (k, JStr v)) ms), [])" if "length ms < f" for f
    using p_members_object [OF False that assms, of 1 "[]"] hd ws
    by (simp add: json_object_def max_depth_def del: p_members.simps)
  moreover have "length ms < 2 * length (json_object ms) + 1"
    using json_members_length [of ms] by (simp add: json_object_def)
  ultimately show ?thesis by (simp add: parse_def del: p_value.simps)
qed

lemma parse_null: "parse ''null'' = Some JNull"
proof -
  have "p_value (Suc f) 0 ''null'' = Some (JNull, [])" for f by (simp add: is_ws_def scan_lit_def)
  then show ?thesis unfolding parse_def by (simp only: option.case prod.case) simp
qed

section \<open>Parsed text is UTF-8\<close>

function json_utf8 :: "json \<Rightarrow> bool" where
  "json_utf8 JNull = True"
| "json_utf8 (JBool b) = True"
| "json_utf8 (JNum n) = True"
| "json_utf8 (JStr s) = utf8 s"
| "json_utf8 (JArr xs) = (\<forall>x \<in> set xs. json_utf8 x)"
| "json_utf8 (JObj ms) = (\<forall>m \<in> set ms. utf8 (fst m) \<and> json_utf8 (snd m))"
  by pat_completeness auto
termination
proof (relation "measure size")
  fix ms :: "(string \<times> json) list" and m assume "m \<in> set ms"
  then have "size (snd m) < Suc (size_list (size_prod (\<lambda>_. 0) size) ms)"
    by (induction ms) (auto simp: size_prod_def split: prod.splits)
  then show "(snd m, JObj ms) \<in> measure size" by simp
qed (auto simp: less_Suc_eq_le size_list_estimation')

lemma parser_utf8:
  "p_value f d s = Some (v, r) \<Longrightarrow> json_utf8 v"
  "p_members f d s = Some (ms, r) \<Longrightarrow> \<forall>m \<in> set ms. utf8 (fst m) \<and> json_utf8 (snd m)"
  "p_elems f d s = Some (es, r) \<Longrightarrow> \<forall>x \<in> set es. json_utf8 x"
proof (induction f arbitrary: d s v ms es r)
  case (Suc f)
  {
    case 1
    then show ?case using Suc.IH(2,3)
      by (fastforce simp: scan_lit_def scan_number_def Let_def
          split: list.splits if_splits option.splits prod.splits dest: scan_str_utf8)
  next
    case 2
    then show ?case using Suc.IH(1,2)
      by (fastforce split: list.splits if_splits option.splits prod.splits dest: scan_str_utf8)
  next
    case 3
    then show ?case using Suc.IH(1,3) by (fastforce split: list.splits if_splits option.splits prod.splits)
  }
qed simp_all

lemma parse_utf8: "parse s = Some v \<Longrightarrow> json_utf8 v"
  by (auto simp: parse_def dest: parser_utf8(1) simp del: p_value.simps split: option.splits prod.splits if_splits)

end
