(* ===== verification/Raft_Application.thy ===== *)
theory Raft_Application
  imports Raft_Runtime
begin

text \<open>
  What the library expects of the application behind \<open>types.StateMachine\<close>, as the locale
  \<open>application\<close>, and what it gives in return: a replica that starts from a snapshot and
  applies the rest of the log agrees with one that applied the whole log.
\<close>

section \<open>The contract\<close>

text \<open>
  \<open>ok\<close> are the states the application reaches and \<open>view\<close> is what a client can see of them.
  Commands act on what is visible, and a snapshot of a state restores what was visible,
  whatever the state it is restored into.
\<close>

locale application =
  fixes sm :: "'sm state_machine"
    and ok :: "'sm \<Rightarrow> bool"
    and view :: "'sm \<Rightarrow> 'a"
  assumes apply_ok: "ok x \<Longrightarrow> ok (snd (sm_Apply sm c x))"
    and apply_view: "ok x \<Longrightarrow> ok y \<Longrightarrow> view x = view y \<Longrightarrow>
          view (snd (sm_Apply sm c x)) = view (snd (sm_Apply sm c y))"
    and snapshot_total: "ok x \<Longrightarrow> \<exists>b. sm_Snapshot sm x = Inr b"
    and restore_snapshot: "ok x \<Longrightarrow> sm_Snapshot sm x = Inr b \<Longrightarrow>
          fst (sm_Restore sm b y) = None \<and> ok (snd (sm_Restore sm b y)) \<and> view (snd (sm_Restore sm b y)) = view x"
begin

lemma steps_ok:
  assumes "dep_sm d = sm" shows "ok x \<Longrightarrow> ok (fold (sm_step d) es x)"
  using assms apply_ok by (induction es arbitrary: x) (simp_all add: sm_step_def)

lemma steps_view:
  assumes "dep_sm d = sm" "ok x" "ok y" "view x = view y"
  shows "view (fold (sm_step d) es x) = view (fold (sm_step d) es y)"
  using assms(2-)
proof (induction es arbitrary: x y)
  case (Cons e es)
  have "ok (sm_step d e x)" "ok (sm_step d e y)" "view (sm_step d e x) = view (sm_step d e y)"
    using apply_ok [OF Cons.prems(1)] apply_ok [OF Cons.prems(2)] apply_view [OF Cons.prems] Cons.prems assms(1)
    by (simp_all add: sm_step_def)
  then show ?case unfolding fold_Cons comp_apply by (rule Cons.IH)
qed simp

lemma install_transfers:
  assumes "dep_sm d = sm" "ok (n_sm n)"
    and "snapshotInstallChan (n_state m) = snapshotData d n # rest"
  shows "ok (n_sm (snapshotLoop_install d m))" "view (n_sm (snapshotLoop_install d m)) = view (n_sm n)"
proof -
  obtain b where "sm_Snapshot sm (n_sm n) = Inr b" using snapshot_total [OF assms(2)] by blast
  then show "ok (n_sm (snapshotLoop_install d m))" "view (n_sm (snapshotLoop_install d m)) = view (n_sm n)"
    using assms restore_snapshot [OF assms(2), of b "n_sm m"]
    by (simp_all add: snapshotLoop_install_def snapshotData_def case_prod_beta)
qed

text \<open>Log compaction is invisible: from a snapshot taken after \<open>es\<close>, or from the whole log.\<close>

lemma replica_from_snapshot:
  assumes "dep_sm d = sm" "ok x" "sm_Snapshot sm (fold (sm_step d) es x) = Inr b"
  shows "view (fold (sm_step d) es' (snd (sm_Restore sm b y))) = view (fold (sm_step d) (es @ es') x)"
  using steps_view [OF assms(1)] restore_snapshot [OF steps_ok [OF assms(1,2)] assms(3), of y] steps_ok [OF assms(1,2)]
  by simp

end

end
