(* ===== verification/KV_Store.thy ===== *)
theory KV_Store
  imports KV_Json Raft_Application
begin

text \<open>
  The key-value example (src/examples/kv-store/main.go): the state machine \<open>KVSM\<close> over a string
  map and the commands of its terminal. \<open>KVSM\<close> interprets the locale \<open>application\<close>: its snapshots,
  JSON texts, restore the map they were taken of.
\<close>

section \<open>Operations\<close>

record kv_op =
  op_Kind :: string
  op_Key :: string
  op_Value :: string

definition zero_op :: kv_op where
  "zero_op = \<lparr>op_Kind = '''', op_Key = '''', op_Value = ''''\<rparr>"

text \<open>\<open>json.Marshal\<close> of an \<open>Op\<close>; the tag \<open>omitempty\<close> leaves out an empty value.\<close>

definition marshal_op :: "kv_op \<Rightarrow> string" where
  "marshal_op op = json_object ([(''kind'', op_Kind op), (''key'', op_Key op)] @
     (if op_Value op = '''' then [] else [(''value'', op_Value op)]))"

text \<open>
  How the decoder matches the name of a member to a field: as it is, or with the case folded,
  where the Kelvin sign counts as a K.
\<close>

definition upper :: "char \<Rightarrow> char" where
  "upper c = (if 97 \<le> (of_char c :: nat) \<and> (of_char c :: nat) \<le> 122 then char_of ((of_char c :: nat) - 32) else c)"

fun fold_name :: "string \<Rightarrow> string" where
  "fold_name [] = []"
| "fold_name (c # cs) =
     (if c = CHR 0xE2 \<and> take 2 cs = [CHR 0x84, CHR 0xAA] then CHR ''K'' # fold_name (drop 2 cs)
      else upper c # fold_name cs)"

definition fieldOf :: "string \<Rightarrow> string option" where
  "fieldOf k =
     (if k \<in> {''kind'', ''key'', ''value''} then Some k
      else map_of [(''KIND'', ''kind''), (''KEY'', ''key''), (''VALUE'', ''value'')] (fold_name k))"

definition setField :: "string \<Rightarrow> string \<Rightarrow> kv_op \<Rightarrow> kv_op" where
  "setField f x op =
     (if f = ''kind'' then op\<lparr>op_Kind := x\<rparr> else if f = ''key'' then op\<lparr>op_Key := x\<rparr> else op\<lparr>op_Value := x\<rparr>)"

datatype json_error = SyntaxError | TypeError

text \<open>
  One member: an unknown name is skipped, \<open>null\<close> leaves the field, and any other value than a
  string is remembered as an error.
\<close>

definition storeMember :: "string \<times> json \<Rightarrow> kv_op \<times> bool \<Rightarrow> kv_op \<times> bool" where
  "storeMember m x = (case fieldOf (fst m) of
      None \<Rightarrow> x
    | Some f \<Rightarrow> (case snd m of
        JStr s \<Rightarrow> (setField f s (fst x), snd x)
      | JNull \<Rightarrow> x
      | _ \<Rightarrow> (fst x, True)))"

definition unmarshal_op :: "string \<Rightarrow> json_error + kv_op" where
  "unmarshal_op s = (case parse s of
      None \<Rightarrow> Inl SyntaxError
    | Some (JObj ms) \<Rightarrow>
        (let x = fold storeMember ms (zero_op, False) in if snd x then Inl TypeError else Inr (fst x))
    | Some JNull \<Rightarrow> Inr zero_op
    | Some _ \<Rightarrow> Inl TypeError)"

section \<open>The state machine\<close>

text \<open>\<open>None\<close> is a nil map: it reads as empty, and writing to it panics.\<close>

type_synonym kv_data = "(string, string) gomap option"

definition NewKVSM :: kv_data where
  "NewKVSM = Some []"

definition bytes_string :: "bytes \<Rightarrow> string" where
  "bytes_string = map (\<lambda>b. char_of (unat b))"

text \<open>\<open>msg\<close> gives the text of an error of encoding/json.\<close>

definition kv_Apply :: "(json_error \<Rightarrow> error) \<Rightarrow> bytes \<Rightarrow> kv_data \<Rightarrow> go_panic + error option \<times> kv_data" where
  "kv_Apply msg command kv =
     (case unmarshal_op (bytes_string command) of
        Inl e \<Rightarrow> Inr (Some (''unmarshal op: '' @ msg e), kv)
      | Inr op \<Rightarrow>
          if op_Kind op = ''set'' then
            (case kv of None \<Rightarrow> Inl NilMapWrite | Some m \<Rightarrow> Inr (None, Some (mput (op_Key op) (op_Value op) m)))
          else if op_Kind op = ''del'' then Inr (None, map_option (mdel (op_Key op)) kv)
          else Inr (None, kv))"

text \<open>\<open>json.Marshal\<close> of a map sorts the keys; a nil map is \<open>null\<close>.\<close>

definition marshal_map :: "kv_data \<Rightarrow> string" where
  "marshal_map kv = (case kv of None \<Rightarrow> ''null'' | Some m \<Rightarrow> json_object (sort_key fst m))"

definition storeEntryOf :: "string \<times> json \<Rightarrow> (string, string) gomap \<times> bool \<Rightarrow> (string, string) gomap \<times> bool" where
  "storeEntryOf m x = (case snd m of
      JStr s \<Rightarrow> (mput (fst m) s (fst x), snd x)
    | JNull \<Rightarrow> (mput (fst m) '''' (fst x), snd x)
    | _ \<Rightarrow> (mput (fst m) '''' (fst x), True))"

text \<open>\<open>json.Unmarshal\<close> into a fresh map.\<close>

definition unmarshal_map :: "string \<Rightarrow> json_error option \<times> kv_data" where
  "unmarshal_map s = (case parse s of
      None \<Rightarrow> (Some SyntaxError, Some [])
    | Some (JObj ms) \<Rightarrow>
        (let x = fold storeEntryOf ms ([], False) in (if snd x then Some TypeError else None, Some (fst x)))
    | Some JNull \<Rightarrow> (None, None)
    | Some _ \<Rightarrow> (Some TypeError, Some []))"

definition kv_Snapshot :: "kv_data \<Rightarrow> error + bytes" where
  "kv_Snapshot kv = Inr (string_bytes (marshal_map kv))"

definition kv_Restore :: "(json_error \<Rightarrow> error) \<Rightarrow> bytes \<Rightarrow> kv_data \<Rightarrow> error option \<times> kv_data" where
  "kv_Restore msg snap kv = (let (e, kv') = unmarshal_map (bytes_string snap) in (map_option msg e, kv'))"

definition kv_Get :: "string \<Rightarrow> kv_data \<Rightarrow> string option" where
  "kv_Get key kv = (case kv of None \<Rightarrow> None | Some m \<Rightarrow> map_of m key)"

text \<open>
  \<open>KVSM\<close> as a \<open>types.StateMachine\<close>. The interface has no panic; \<open>kv_never_panics\<close> shows that on
  the states of the store there is none.
\<close>

definition kv_sm :: "(json_error \<Rightarrow> error) \<Rightarrow> kv_data state_machine" where
  "kv_sm msg = \<lparr>sm_Apply = (\<lambda>c kv. case kv_Apply msg c kv of Inl _ \<Rightarrow> (None, kv) | Inr r \<Rightarrow> r),
     sm_Snapshot = kv_Snapshot, sm_Restore = kv_Restore msg\<rparr>"

section \<open>Round trips\<close>

lemma bytes_string_bytes [simp]: "bytes_string (string_bytes s) = s"
proof -
  have "char_of (unat (of_char c :: 8 word)) = c" for c
  proof -
    have "unat (of_char c :: 8 word) = (of_char c :: nat)"
      using unat_of_nat [of "of_char c", where 'a = 8] by (simp add: of_nat_of_char)
    then show ?thesis by simp
  qed
  then show ?thesis by (simp add: bytes_string_def string_bytes_def comp_def)
qed

abbreviation utf8_pairs :: "(string \<times> string) list \<Rightarrow> bool" where
  "utf8_pairs m \<equiv> \<forall>(k, v) \<in> set m. utf8 k \<and> utf8 v"

definition utf8_op :: "kv_op \<Rightarrow> bool" where
  "utf8_op op \<longleftrightarrow> utf8 (op_Kind op) \<and> utf8 (op_Key op) \<and> utf8 (op_Value op)"

lemma utf8_ascii: "list_all (\<lambda>c. (of_char c :: nat) < 0x80) s \<Longrightarrow> utf8 s"
proof (induction s)
  case (Cons c s)
  then show ?case using utf8_rune_append [of "[c]" s] by (simp add: is_rune_ascii)
qed simp

lemma op_roundtrip: "utf8_op op \<Longrightarrow> unmarshal_op (marshal_op op) = Inr op"
proof -
  assume u: "utf8_op op"
  have names: "utf8 ''kind''" "utf8 ''key''" "utf8 ''value''" by (simp_all add: utf8_ascii)
  have "fieldOf ''kind'' = Some ''kind''" "fieldOf ''key'' = Some ''key''" "fieldOf ''value'' = Some ''value''"
    by (simp_all add: fieldOf_def)
  then show ?thesis using u names unfolding unmarshal_op_def marshal_op_def
    by (subst parse_object) (auto simp: utf8_op_def storeMember_def setField_def zero_op_def)
qed

lemma storeEntryOf_strings:
  "fold storeEntryOf (map (\<lambda>(k, v). (k, JStr v)) ms) (m, b) = (fold (\<lambda>(k, v). mput k v) ms m, b)"
  by (induction ms arbitrary: m) (auto simp: storeEntryOf_def)

lemma map_of_fold_mput:
  "distinct (map fst ms) \<Longrightarrow> map_of (fold (\<lambda>(k, v). mput k v) ms m) = map_of m ++ map_of ms"
proof (induction ms arbitrary: m)
  case (Cons kv ms)
  obtain k v where kv: "kv = (k, v)" by fastforce
  have "map_of ms k = None" using Cons.prems by (simp add: kv map_of_eq_None_iff)
  then show ?case using Cons by (auto simp: kv mput_def update_conv map_add_def fun_eq_iff split: option.splits)
qed simp

lemma map_roundtrip:
  assumes "m_ok m" "utf8_pairs m"
  obtains m' where "unmarshal_map (marshal_map (Some m)) = (None, Some m')" "m_ok m'" "map_of m' = map_of m"
proof -
  let ?ms = "sort_key fst m"
  have d: "distinct (map fst m)" using assms(1) by (simp add: m_ok_def)
  then have d': "distinct (map fst ?ms)"
    using mset_eq_imp_distinct_iff [of "map fst ?ms" "map fst m"] by simp
  have "parse (json_object ?ms) = Some (JObj (map (\<lambda>(k, v). (k, JStr v)) ?ms))"
    using assms(2) by (intro parse_object) simp
  then have "unmarshal_map (marshal_map (Some m)) = (None, Some (fold (\<lambda>(k, v). mput k v) ?ms []))"
    by (simp add: unmarshal_map_def marshal_map_def storeEntryOf_strings)
  moreover have "map_of ?ms = map_of m" using d d' by (simp add: map_of_inject_set)
  ultimately show thesis using that map_of_fold_mput [OF d', of "[]"] m_ok_fold_mput [of "[]" ?ms]
    by (simp add: m_ok_def)
qed

section \<open>The states of the store\<close>

definition kv_ok :: "kv_data \<Rightarrow> bool" where
  "kv_ok kv \<longleftrightarrow> (case kv of None \<Rightarrow> False | Some m \<Rightarrow> m_ok m \<and> utf8_pairs m)"

lemma storeMember_utf8:
  "utf8 (fst m) \<and> json_utf8 (snd m) \<Longrightarrow> utf8_op (fst x) \<Longrightarrow> utf8_op (fst (storeMember m x))"
  by (cases "snd m") (auto simp: storeMember_def setField_def utf8_op_def split: option.splits)

lemma fold_storeMember_utf8:
  "\<forall>m \<in> set ms. utf8 (fst m) \<and> json_utf8 (snd m) \<Longrightarrow> utf8_op (fst x) \<Longrightarrow> utf8_op (fst (fold storeMember ms x))"
  by (induction ms arbitrary: x) (simp_all add: storeMember_utf8)

lemma unmarshal_op_utf8: "unmarshal_op s = Inr op \<Longrightarrow> utf8_op op"
proof -
  have z: "utf8_op zero_op" by (simp add: utf8_op_def zero_op_def)
  then have "utf8_op (fst (fold storeMember ms (zero_op, False)))" if "parse s = Some (JObj ms)" for ms
    using fold_storeMember_utf8 [of ms "(zero_op, False)"] parse_utf8 [OF that] by simp
  then show "unmarshal_op s = Inr op \<Longrightarrow> utf8_op op"
    using z by (auto simp: unmarshal_op_def Let_def split: option.splits json.splits if_splits)
qed

lemma utf8_pairs_mput: "utf8_pairs m \<Longrightarrow> utf8 k \<Longrightarrow> utf8 v \<Longrightarrow> utf8_pairs (mput k v m)"
  by (induction m) (auto simp: mput_def split: if_splits)

lemma utf8_pairs_mdel: "utf8_pairs m \<Longrightarrow> utf8_pairs (mdel k m)"
  by (induction m) (auto simp: mdel_def)

text \<open>The effect of a command on what \<open>kv_Get\<close> reads.\<close>

definition kv_view :: "kv_data \<Rightarrow> string \<rightharpoonup> string" where
  "kv_view kv = (\<lambda>k. kv_Get k kv)"

definition kv_exec :: "kv_op \<Rightarrow> (string \<rightharpoonup> string) \<Rightarrow> (string \<rightharpoonup> string)" where
  "kv_exec op m =
     (if op_Kind op = ''set'' then m(op_Key op \<mapsto> op_Value op)
      else if op_Kind op = ''del'' then m(op_Key op := None) else m)"

lemma kv_Apply_effect:
  assumes "kv_ok kv"
  obtains e kv' where "kv_Apply msg c kv = Inr (e, kv')" "kv_ok kv'"
    "kv_view kv' = (case unmarshal_op (bytes_string c) of Inl _ \<Rightarrow> kv_view kv | Inr op \<Rightarrow> kv_exec op (kv_view kv))"
proof -
  obtain m where m: "kv = Some m" "m_ok m" "utf8_pairs m" using assms by (auto simp: kv_ok_def split: option.splits)
  show thesis
  proof (cases "unmarshal_op (bytes_string c)")
    case (Inl e)
    then show thesis using that assms by (simp add: kv_Apply_def)
  next
    case (Inr op)
    have u: "utf8 (op_Key op)" "utf8 (op_Value op)" using unmarshal_op_utf8 [OF Inr] by (simp_all add: utf8_op_def)
    let ?m' = "if op_Kind op = ''set'' then mput (op_Key op) (op_Value op) m
      else if op_Kind op = ''del'' then mdel (op_Key op) m else m"
    show thesis
    proof (rule that)
      show "kv_Apply msg c kv = Inr (None, Some ?m')" by (simp add: kv_Apply_def Inr m(1))
      show "kv_ok (Some ?m')"
        using m u utf8_pairs_mput [OF m(3) u] utf8_pairs_mdel [OF m(3), of "op_Key op"]
        by (simp add: kv_ok_def gm.invar_put gm.invar_del)
      show "kv_view (Some ?m') = (case unmarshal_op (bytes_string c) of
          Inl _ \<Rightarrow> kv_view kv | Inr op \<Rightarrow> kv_exec op (kv_view kv))"
        by (auto simp: Inr m(1) kv_view_def kv_exec_def kv_Get_def mput_def mdel_def update_conv delete_conv fun_eq_iff)
    qed
  qed
qed

lemma kv_never_panics: "kv_ok kv \<Longrightarrow> kv_Apply msg c kv \<noteq> Inl p"
  using kv_Apply_effect [of kv msg c] by (metis Inl_Inr_False)

lemma kv_sm_Apply:
  assumes "kv_ok x"
  shows "kv_ok (snd (sm_Apply (kv_sm msg) c x))"
    and "kv_view (snd (sm_Apply (kv_sm msg) c x)) =
      (case unmarshal_op (bytes_string c) of Inl _ \<Rightarrow> kv_view x | Inr op \<Rightarrow> kv_exec op (kv_view x))"
proof -
  obtain e kv' where k: "kv_Apply msg c x = Inr (e, kv')" "kv_ok kv'"
    "kv_view kv' = (case unmarshal_op (bytes_string c) of Inl _ \<Rightarrow> kv_view x | Inr op \<Rightarrow> kv_exec op (kv_view x))"
    by (rule kv_Apply_effect [OF assms])
  then have "snd (sm_Apply (kv_sm msg) c x) = kv'" by (simp add: kv_sm_def)
  with k show "kv_ok (snd (sm_Apply (kv_sm msg) c x))" "kv_view (snd (sm_Apply (kv_sm msg) c x)) =
      (case unmarshal_op (bytes_string c) of Inl _ \<Rightarrow> kv_view x | Inr op \<Rightarrow> kv_exec op (kv_view x))"
    by (simp_all only:)
qed

interpretation kv: application "kv_sm msg" kv_ok kv_view for msg
proof
  fix x y :: kv_data and c b
  show "kv_ok x \<Longrightarrow> kv_ok (snd (sm_Apply (kv_sm msg) c x))"
    by (rule kv_sm_Apply)
  show "kv_ok x \<Longrightarrow> kv_ok y \<Longrightarrow> kv_view x = kv_view y \<Longrightarrow>
      kv_view (snd (sm_Apply (kv_sm msg) c x)) = kv_view (snd (sm_Apply (kv_sm msg) c y))"
    by (simp only: kv_sm_Apply(2))
  show "kv_ok x \<Longrightarrow> \<exists>b. sm_Snapshot (kv_sm msg) x = Inr b"
    by (simp add: kv_sm_def kv_Snapshot_def)
  assume x: "kv_ok x" "sm_Snapshot (kv_sm msg) x = Inr b"
  then obtain m where m: "x = Some m" "m_ok m" "utf8_pairs m" by (auto simp: kv_ok_def split: option.splits)
  obtain m' where m': "unmarshal_map (marshal_map (Some m)) = (None, Some m')" "m_ok m'" "map_of m' = map_of m"
    using map_roundtrip [OF m(2,3)] by metis
  have "set m' = set m" using m'(2,3) m(2) by (simp add: m_ok_def map_of_inject_set)
  then show "fst (sm_Restore (kv_sm msg) b y) = None \<and> kv_ok (snd (sm_Restore (kv_sm msg) b y)) \<and>
      kv_view (snd (sm_Restore (kv_sm msg) b y)) = kv_view x"
    using x m m' by (auto simp: kv_sm_def kv_Snapshot_def kv_Restore_def kv_ok_def kv_view_def kv_Get_def)
qed

section \<open>The log as a sequence of operations\<close>

text \<open>The operations in the command entries; entries that do not decode are skipped.\<close>

definition kv_ops :: "raft_log list \<Rightarrow> kv_op list" where
  "kv_ops = List.map_filter (\<lambda>e. if rl_Type e = LogCommand
     then (case unmarshal_op (bytes_string (rl_Data e)) of Inr op \<Rightarrow> Some op | Inl _ \<Rightarrow> None) else None)"

lemma kv_ops_simps [simp]:
  "kv_ops [] = []" "kv_ops (xs @ ys) = kv_ops xs @ kv_ops ys"
  "kv_ops (e # es) = (if rl_Type e = LogCommand then
      (case unmarshal_op (bytes_string (rl_Data e)) of Inr op \<Rightarrow> op # kv_ops es | Inl _ \<Rightarrow> kv_ops es) else kv_ops es)"
  by (auto simp: kv_ops_def map_filter_def split: sum.splits)

lemma kv_steps:
  assumes "dep_sm d = kv_sm msg" "kv_ok x"
  shows "kv_ok (fold (sm_step d) es x) \<and> kv_view (fold (sm_step d) es x) = fold kv_exec (kv_ops es) (kv_view x)"
  using assms(2)
proof (induction es arbitrary: x)
  case (Cons e es)
  have "kv_ok (sm_step d e x)" using kv_sm_Apply(1) [OF Cons.prems] Cons.prems assms(1) by (simp add: sm_step_def)
  moreover have "kv_view (sm_step d e x) = fold kv_exec (kv_ops [e]) (kv_view x)"
    using kv_sm_Apply(2) [OF Cons.prems, of msg "rl_Data e"] assms(1) by (simp add: sm_step_def split: sum.splits)
  moreover have "kv_ops (e # es) = kv_ops [e] @ kv_ops es" by (simp split: sum.splits)
  ultimately show ?case using Cons.IH [of "sm_step d e x"] by (simp del: kv_ops_simps(3))
qed simp

section \<open>The terminal\<close>

text \<open>The bytes of the white space rune (\<open>unicode.IsSpace\<close>) at the front, \<open>0\<close> when there is none.\<close>

definition space_len :: "string \<Rightarrow> nat" where
  "space_len s =
     (if s \<noteq> [] \<and> (byte_in 9 13 (hd s) \<or> hd s = CHR 0x20) then 1
      else if take 2 s \<in> {[CHR 0xC2, CHR 0x85], [CHR 0xC2, CHR 0xA0]} then 2
      else if take 3 s \<in> {[CHR 0xE1, CHR 0x9A, CHR 0x80], [CHR 0xE2, CHR 0x80, CHR 0xA8], [CHR 0xE2, CHR 0x80, CHR 0xA9],
          [CHR 0xE2, CHR 0x80, CHR 0xAF], [CHR 0xE2, CHR 0x81, CHR 0x9F], [CHR 0xE3, CHR 0x80, CHR 0x80]}
        \<or> (take 2 s = [CHR 0xE2, CHR 0x80] \<and> length s > 2 \<and> byte_in 0x80 0x8A (s ! 2)) then 3
      else 0)"

function trim_left :: "string \<Rightarrow> string" where
  "trim_left s = (if s = [] \<or> space_len s = 0 then s else trim_left (drop (space_len s) s))"
  by auto
termination by (relation "measure length") auto

definition space_end :: "string \<Rightarrow> nat" where
  "space_end s = (case filter (\<lambda>k. k \<le> length s \<and> space_len (drop (length s - k) s) = k) [1, 2, 3] of
     [] \<Rightarrow> 0 | k # _ \<Rightarrow> k)"

function trim_right :: "string \<Rightarrow> string" where
  "trim_right s = (if s = [] \<or> space_end s = 0 then s else trim_right (take (length s - space_end s) s))"
  by auto
termination by (relation "measure length") auto

declare trim_left.simps [simp del] trim_right.simps [simp del]

definition TrimSpace :: "string \<Rightarrow> string" where
  "TrimSpace s = trim_right (trim_left s)"

text \<open>\<open>strings.Fields\<close>; \<open>w\<close> is the word being read, last byte first.\<close>

function Fields_from :: "string \<Rightarrow> string \<Rightarrow> string list" where
  "Fields_from w s =
     (let word = (if w = [] then [] else [rev w])
      in if s = [] then word
         else if space_len s > 0 then word @ Fields_from [] (drop (space_len s) s)
         else Fields_from (hd s # w) (tl s))"
  by auto
termination by (relation "measure (\<lambda>(w, s). length s)") auto

declare Fields_from.simps [simp del]

definition Fields :: "string \<Rightarrow> string list" where
  "Fields s = Fields_from [] s"

fun Split :: "char \<Rightarrow> string \<Rightarrow> string list" where
  "Split c [] = [[]]"
| "Split c (x # xs) = (if x = c then [] # Split c xs else (case Split c xs of [] \<Rightarrow> [[x]] | w # ws \<Rightarrow> (x # w) # ws))"

fun Join :: "string list \<Rightarrow> string" where
  "Join [] = []"
| "Join [w] = w"
| "Join (w # v # ws) = w @ '' '' @ Join (v # ws)"

text \<open>
  \<open>strings.ToUpper\<close> as far as the comparison with the three commands can see it: ASCII letters,
  and the long s, whose upper case is S.
\<close>

fun ToUpper :: "string \<Rightarrow> string" where
  "ToUpper [] = []"
| "ToUpper (c # cs) =
     (if c = CHR 0xC5 \<and> take 1 cs = [CHR 0xBF] then CHR ''S'' # ToUpper (tl cs) else upper c # ToUpper cs)"

datatype kv_action = NoAction | Print string | UnknownCommand string | Submit kv_op

text \<open>What \<open>main\<close> does with one line of input; the word of an unknown command is printed in upper case.\<close>

definition main_line :: "string \<Rightarrow> kv_data \<Rightarrow> kv_action" where
  "main_line text kv =
     (let line = TrimSpace text; parts = Fields line
      in if line = '''' then NoAction
         else let cmd = ToUpper (hd parts)
         in if cmd = ''GET'' then
              (if length parts < 2 then Print ''usage: GET <key>''
               else case kv_Get (parts ! 1) kv of
                      Some v \<Rightarrow> Print (parts ! 1 @ '' = '' @ v)
                    | None \<Rightarrow> Print (parts ! 1 @ '': not found''))
            else if cmd = ''SET'' then
              (if length parts < 3 then Print ''usage: SET <key> <value>''
               else Submit \<lparr>op_Kind = ''set'', op_Key = parts ! 1, op_Value = Join (drop 2 parts)\<rparr>)
            else if cmd = ''DEL'' then
              (if length parts < 2 then Print ''usage: DEL <key>''
               else Submit \<lparr>op_Kind = ''del'', op_Key = parts ! 1, op_Value = ''''\<rparr>)
            else UnknownCommand (hd parts))"

text \<open>The call of \<open>node.Apply\<close> for a submitted operation, and what is printed for its result.\<close>

definition main_args :: "string \<Rightarrow> int \<Rightarrow> kv_op \<Rightarrow> int \<times> apply_args" where
  "main_args sid seqNum op =
     (let seqNum' = wrap64 (seqNum + 1)
      in (seqNum', \<lparr>aa_ClientID = sid, aa_SeqNum = seqNum', aa_Command = string_bytes (marshal_op op)\<rparr>))"

definition main_result :: "error + apply_response \<Rightarrow> string" where
  "main_result r = (case r of
      Inl e \<Rightarrow> ''error: '' @ e
    | Inr resp \<Rightarrow> if \<not> ar_Success resp then ''not leader (leader='' @ ar_LeaderID resp @ '')'' else ''OK'')"

definition main_config :: "string \<Rightarrow> string \<Rightarrow> raft_config option" where
  "main_config sid peersStr =
     (if sid = '''' then None
      else Some \<lparr>cfg_ID = sid,
        cfg_Peers = (if peersStr = '''' then [] else map TrimSpace (Split (CHR 0x2C) peersStr)),
        cfg_HeartbeatMs = 50, cfg_ElectionMinMs = 300, cfg_ElectionMaxMs = 500\<rparr>)"

section \<open>UTF-8 input gives UTF-8 operations\<close>

abbreviation continues :: "string \<Rightarrow> bool" where
  "continues s \<equiv> s \<noteq> [] \<and> byte_in 0x80 0xBF (hd s)"

lemma rune_inner: "0 < i \<Longrightarrow> i < rune_len s \<Longrightarrow> byte_in 0x80 0xBF (s ! i)"
proof (cases s)
  case (Cons c cs)
  assume i: "0 < i" "i < rune_len s"
  then have "i \<in> {1, 2, 3}" by (auto simp: Cons Let_def split: if_splits list.splits)
  then show ?thesis using i
    by (auto simp: Cons Let_def second_ok_def numeral_2_eq_2 numeral_3_eq_3 split: if_splits list.splits)
qed simp

lemma utf8_split:
  assumes "utf8 (a @ b)" "\<not> continues b"
  shows "utf8 a \<and> utf8 b"
  using assms(1)
proof (induction "length a" arbitrary: a rule: less_induct)
  case less
  show ?case
  proof (cases "a = []")
    case False
    let ?n = "rune_len (a @ b)"
    have n: "?n \<noteq> 0" "utf8 (drop ?n (a @ b))" using less.prems False utf8.simps [of "a @ b"] by (auto split: if_splits)
    have "?n \<le> length a"
    proof (rule ccontr)
      assume g: "\<not> ?n \<le> length a"
      then have "b \<noteq> []" using rune_len_le [of "a @ b"] by auto
      moreover have "byte_in 0x80 0xBF ((a @ b) ! length a)" using rune_inner [of "length a" "a @ b"] g False by simp
      ultimately show False using assms(2) by (simp add: nth_append hd_conv_nth)
    qed
    then have d: "utf8 (drop ?n a @ b)" "is_rune (take ?n a)" using n take_rune [OF n(1)] by simp_all
    have "utf8 (drop ?n a) \<and> utf8 b" by (rule less.hyps) (use n d False in auto)
    then show ?thesis using utf8_rune_append [OF d(2), of "drop ?n a"] by simp
  qed (use less.prems in simp)
qed

lemma utf8_append: "utf8 a \<Longrightarrow> utf8 b \<Longrightarrow> utf8 (a @ b)"
proof (induction a rule: utf8.induct)
  case (1 a)
  show ?case
  proof (cases "a = []")
    case False
    have n: "rune_len a \<noteq> 0" "utf8 (drop (rune_len a) a)" using "1.prems"(1) False utf8.simps [of a] by (auto split: if_splits)
    have "utf8 (take (rune_len a) a @ drop (rune_len a) a @ b)"
      using "1.IH" [OF False n "1.prems"(2)] utf8_rune_append [OF take_rune [OF n(1)]] by simp
    then show ?thesis by (simp flip: append_assoc)
  qed (use "1.prems" in simp)
qed

lemma space_rune:
  assumes "space_len s \<noteq> 0"
  shows "is_rune (take (space_len s) s)" "\<not> continues s" "space_len s \<le> length s"
proof -
  consider (one) c cs where "s = c # cs" "(of_char c :: nat) < 0x80" "space_len s = 1"
    | (two) b cs where "s = CHR 0xC2 # b # cs" "byte_in 0x80 0xBF b" "space_len s = 2"
    | (three) a b c cs where "s = a # b # c # cs" "byte_in 0xE1 0xE3 a" "byte_in 0x80 0xBF b" "byte_in 0x80 0xBF c" "space_len s = 3"
  proof (cases "s \<noteq> [] \<and> (byte_in 9 13 (hd s) \<or> hd s = CHR 0x20)")
    case True
    then show thesis using one by (cases s) (auto simp: space_len_def)
  next
    case n1: False
    show thesis
    proof (cases "take 2 s \<in> {[CHR 0xC2, CHR 0x85], [CHR 0xC2, CHR 0xA0]}")
      case True
      then obtain b cs where "s = CHR 0xC2 # b # cs" "b \<in> {CHR 0x85, CHR 0xA0}"
        by (cases s; cases "tl s") auto
      then show thesis using two [of b cs] n1 by (auto simp: space_len_def)
    next
      case n2: False
      have "space_len s = 3" using assms n1 n2 by (auto simp: space_len_def split: if_splits)
      then obtain a b c cs where s: "s = a # b # c # cs"
        using assms n1 n2 by (cases s; cases "tl s"; cases "tl (tl s)") (auto simp: space_len_def split: if_splits)
      have "[a, b, c] \<in> {[CHR 0xE1, CHR 0x9A, CHR 0x80], [CHR 0xE2, CHR 0x80, CHR 0xA8], [CHR 0xE2, CHR 0x80, CHR 0xA9],
          [CHR 0xE2, CHR 0x80, CHR 0xAF], [CHR 0xE2, CHR 0x81, CHR 0x9F], [CHR 0xE3, CHR 0x80, CHR 0x80]}
        \<or> [a, b] = [CHR 0xE2, CHR 0x80] \<and> byte_in 0x80 0x8A c"
        using assms n1 n2 by (auto simp: space_len_def s numeral_3_eq_3 split: if_splits)
      then show thesis using three [OF s] \<open>space_len s = 3\<close> by auto
    qed
  qed
  then have "is_rune (take (space_len s) s) \<and> \<not> continues s \<and> space_len s \<le> length s"
  proof cases
    case three
    have "is_rune [a, b, c]" using three(2-4) by (auto simp: is_rune_def Let_def second_ok_def)
    then show ?thesis using three by (simp add: numeral_3_eq_3)
  qed (auto simp: is_rune_def Let_def)
  then show "is_rune (take (space_len s) s)" "\<not> continues s" "space_len s \<le> length s" by blast+
qed

lemma utf8_drop_space: "utf8 s \<Longrightarrow> space_len s \<noteq> 0 \<Longrightarrow> utf8 (drop (space_len s) s)"
  using utf8_rune_append [OF space_rune(1), of s "drop (space_len s) s"] by simp

lemma trim_left_utf8: "utf8 s \<Longrightarrow> utf8 (trim_left s)"
  by (induction s rule: trim_left.induct) (subst trim_left.simps, simp add: utf8_drop_space)

lemma trim_right_utf8: "utf8 s \<Longrightarrow> utf8 (trim_right s)"
proof (induction s rule: trim_right.induct)
  case (1 s)
  show ?case
  proof (cases "s = [] \<or> space_end s = 0")
    case False
    let ?k = "space_end s"
    have k: "?k \<le> length s" "space_len (drop (length s - ?k) s) = ?k"
      using False by (auto simp: space_end_def split: if_splits)
    have "utf8 (take (length s - ?k) s)"
      using utf8_split [of "take (length s - ?k) s" "drop (length s - ?k) s"] "1.prems"
        space_rune(2) [of "drop (length s - ?k) s"] k False by simp
    then show ?thesis using "1.IH" [OF False] False by (subst trim_right.simps) simp
  qed (use "1.prems" in \<open>subst trim_right.simps, simp\<close>)
qed

lemma Fields_utf8: "utf8 (rev w @ s) \<Longrightarrow> \<forall>x \<in> set (Fields_from w s). utf8 x"
proof (induction w s rule: Fields_from.induct)
  case (1 w s)
  show ?case
  proof (cases "s = []")
    case True
    then show ?thesis using "1.prems" by (subst Fields_from.simps) (simp add: Let_def)
  next
    case ne: False
    show ?thesis
    proof (cases "space_len s > 0")
      case True
      have u: "utf8 (rev w)" "utf8 s" using utf8_split [OF "1.prems"] space_rune(2) [of s] True by simp_all
      have "\<forall>x \<in> set (Fields_from [] (drop (space_len s) s)). utf8 x"
        using "1.IH"(1) [OF refl ne True] utf8_drop_space [OF u(2)] True by simp
      then show ?thesis using u ne True by (subst Fields_from.simps) (simp add: Let_def)
    next
      case False
      then have "\<forall>x \<in> set (Fields_from (hd s # w) (tl s)). utf8 x"
        using "1.IH"(2) [OF refl ne False] "1.prems" ne by simp
      then show ?thesis using ne False by (subst Fields_from.simps) (simp add: Let_def)
    qed
  qed
qed

lemma Join_utf8: "\<forall>w \<in> set ws. utf8 w \<Longrightarrow> utf8 (Join ws)"
proof (induction ws rule: Join.induct)
  case (3 w v ws)
  have "utf8 (w @ [CHR 0x20] @ Join (v # ws))" using 3 by (intro utf8_append) (simp_all add: utf8_ascii)
  then show ?case by simp
qed simp_all

lemma main_line_utf8:
  assumes "utf8 text" "main_line text kv = Submit op"
  shows "utf8_op op"
proof -
  let ?parts = "Fields (TrimSpace text)"
  have w: "\<forall>x \<in> set ?parts. utf8 x"
    using Fields_utf8 [of "[]"] trim_right_utf8 [OF trim_left_utf8 [OF assms(1)]] by (simp add: Fields_def TrimSpace_def)
  then have "utf8 (?parts ! 1)" if "2 \<le> length ?parts" using that by simp
  moreover have "utf8 (Join (drop 2 ?parts))" using w by (intro Join_utf8) (meson in_set_dropD)
  ultimately show ?thesis using assms(2)
    by (auto simp: main_line_def utf8_op_def utf8_ascii Let_def split: if_splits option.splits)
qed

end
