(* ===== verification/Raft_Demo.thy ===== *)
theory Raft_Demo
  imports Raft_Cluster Raft_Network KV_Store
begin

text \<open>
  Concrete nodes and messages: a three-server cluster with a counter as its application,
  and a run of it. The properties of the library are applied to them, which shows that
  what they assume can hold.
\<close>

section \<open>A small application on memory storage\<close>

text \<open>The application adds up the bytes of the commands; its snapshot is one byte.\<close>

definition demo_sm :: "nat state_machine" where
  "demo_sm = \<lparr>sm_Apply = (\<lambda>cmd n. (None, n + length cmd)),
     sm_Snapshot = (\<lambda>n. Inr [word_of_nat n]),
     sm_Restore = (\<lambda>b _. (None, length b))\<rparr>"

definition demo_deps :: "(nat, memory_storage) deps" where
  "demo_deps = \<lparr>dep_sm = demo_sm, dep_st = memory_storage_ops, dep_sha = (\<lambda>_. zero_hash)\<rparr>"

definition demo_cfg :: "server_id \<Rightarrow> server_id list \<Rightarrow> raft_config" where
  "demo_cfg i ps = DefaultConfig i ps"

definition demo_env :: node_env where
  "demo_env = \<lparr>env_rand = (\<lambda>_. 7), env_now = 42\<rparr>"

abbreviation demo_sha :: "bytes \<Rightarrow> bytes" where
  "demo_sha \<equiv> \<lambda>_. zero_hash"

section \<open>Two elections\<close>

text \<open>
  \<open>a\<close> is elected in term 1 by \<open>b\<close>; \<open>c\<close> hears nothing, times out twice and is elected in
  term 2 by \<open>b\<close>; its request also reaches \<open>a\<close>, which refuses because of its longer log.
\<close>

definition "demo_a0 = newNodeState ''a'' [''b'', ''c''] 150 300"
definition "demo_b0 = newNodeState ''b'' [''a'', ''c''] 150 300"
definition "demo_c0 = newNodeState ''c'' [''a'', ''b''] 150 300"
definition "demo_a1 = startElection ''a'' demo_a0"
definition "demo_rva = prepareRequestVoteRPC ''a'' demo_a1"
definition "demo_b1 = snd (handleRequestToVote ''b'' demo_rva demo_b0)"
definition "demo_vb = fst (handleRequestToVote ''b'' demo_rva demo_b0)"
definition "demo_a2 = winElection demo_sha ''a'' (snd (updateElection demo_vb demo_a1))"
definition "demo_c1 = startElection ''c'' (startElection ''c'' demo_c0)"
definition "demo_rvc = prepareRequestVoteRPC ''c'' demo_c1"
definition "demo_b2 = snd (handleRequestToVote ''b'' demo_rvc demo_b1)"
definition "demo_wb = fst (handleRequestToVote ''b'' demo_rvc demo_b1)"
definition "demo_a3 = snd (handleRequestToVote ''a'' demo_rvc demo_a2)"
definition "demo_c2 = winElection demo_sha ''c'' (snd (updateElection demo_wb demo_c1))"

lemmas demo_nodes = demo_a1_def demo_b1_def demo_a2_def demo_c1_def demo_b2_def demo_a3_def demo_c2_def

abbreviation demo_M :: "server_id set" where
  "demo_M \<equiv> {''a'', ''b'', ''c''}"

definition demo_k0 :: cluster where
  "demo_k0 = \<lparr>cl_node = (\<lambda>_. demo_c0)(''a'' := demo_a0, ''b'' := demo_b0), cl_reqs = {#}, cl_resps = {#},
     cl_votes = {}, cl_counted = (\<lambda>_ _. {}), cl_won = {}\<rparr>"

lemma demo_init: "init_cluster demo_M demo_k0"
proof -
  have "config_is demo_M demo_a0 \<and> config_is demo_M demo_b0 \<and> config_is demo_M demo_c0"
    unfolding config_is_def by code_simp
  moreover have "currentTerm demo_a0 = 0 \<and> currentTerm demo_b0 = 0 \<and> currentTerm demo_c0 = 0"
    "votedFor demo_a0 = [] \<and> votedFor demo_b0 = [] \<and> votedFor demo_c0 = []"
    "role demo_a0 = Follower \<and> role demo_b0 = Follower \<and> role demo_c0 = Follower" by code_simp+
  ultimately show ?thesis by (simp add: init_cluster_def demo_k0_def)
qed

text \<open>The two steps of an election of \<open>i\<close> with the vote of \<open>p\<close>, as they occur in the run.\<close>

lemma reach_timeout:
  assumes "reach sha M c" "i \<in> M" "finite M" "role (cl_node c i) \<noteq> Leader" "currentTerm (cl_node c i) < max_int64"
    "s' = startElection i (cl_node c i)"
  obtains c' where "reach sha M c'" "cl_node c' = (cl_node c)(i := s')" "cl_won c' = cl_won c"
    "cl_resps c' = cl_resps c" "\<forall>p \<in> M - {i}. (p, prepareRequestVoteRPC i s') \<in># cl_reqs c'"
    "\<forall>m. m \<in># cl_reqs c \<longrightarrow> m \<in># cl_reqs c'"
  using reach.step [OF assms(1) cstep.timeout [OF assms(2,4-6)]] assms(3) that by simp

lemma reach_vote:
  assumes "reach sha M c" "p \<in> M" "(p, a) \<in># cl_reqs c"
  obtains c' where "reach sha M c'" "cl_node c' = (cl_node c)(p := snd (handleRequestToVote p a (cl_node c p)))"
    "cl_won c' = cl_won c"
    "(rv_CandidateID a, fst (handleRequestToVote p a (cl_node c p))) \<in># cl_resps c'"
    "\<forall>m. m \<in># cl_reqs c \<longrightarrow> m \<noteq> (p, a) \<longrightarrow> m \<in># cl_reqs c'"
    "\<forall>m. m \<in># cl_resps c \<longrightarrow> m \<in># cl_resps c'"
  using reach.step [OF assms(1) cstep.vote [OF assms(2,3) prod.collapse [symmetric]]] that
  by (simp add: in_diff_count)

lemma reach_win:
  assumes "reach sha M c" "i \<in> M" "(i, r) \<in># cl_resps c" "role (cl_node c i) = Candidate"
    "fst (updateElection r (cl_node c i))"
  obtains c' where "reach sha M c'"
    "cl_node c' = (cl_node c)(i := winElection sha i (snd (updateElection r (cl_node c i))))"
    "cl_won c' = insert (currentTerm (snd (updateElection r (cl_node c i))), i) (cl_won c)"
    "cl_reqs c' = cl_reqs c"
  using reach.step [OF assms(1) cstep.count [OF assms(2-4) prod.collapse [symmetric]]] assms(5) that by simp

lemma demo_facts:
  "role demo_a0 \<noteq> Leader \<and> currentTerm demo_a0 < max_int64 \<and> role demo_c0 \<noteq> Leader \<and>
     currentTerm demo_c0 < max_int64 \<and> role (startElection ''c'' demo_c0) \<noteq> Leader \<and>
     currentTerm (startElection ''c'' demo_c0) < max_int64"
  "role demo_a1 = Candidate \<and> fst (updateElection demo_vb demo_a1) \<and>
     currentTerm (snd (updateElection demo_vb demo_a1)) = 1 \<and> rv_CandidateID demo_rva = ''a''"
  "role demo_c1 = Candidate \<and> fst (updateElection demo_wb demo_c1) \<and>
     currentTerm (snd (updateElection demo_wb demo_c1)) = 2 \<and> rv_CandidateID demo_rvc = ''c''"
  "role demo_a3 = Leader \<and> role demo_c2 = Leader \<and> currentTerm demo_a3 = 2 \<and> currentTerm demo_c2 = 2"
  by code_simp+

lemma demo_run:
  obtains c where "reach demo_sha demo_M c" "cl_node c ''a'' = demo_a3" "cl_node c ''c'' = demo_c2"
    "cl_won c = {(1, ''a''), (2, ''c'')}"
proof -
  note r0 = reach.init [OF demo_init, of demo_sha]
  have n0: "cl_node demo_k0 = (\<lambda>_. demo_c0)(''a'' := demo_a0, ''b'' := demo_b0)" "cl_won demo_k0 = {}"
    by (simp_all add: demo_k0_def)
  obtain k1 where k1: "reach demo_sha demo_M k1" "cl_node k1 = (cl_node demo_k0)(''a'' := demo_a1)" "cl_won k1 = {}"
    "(''b'', demo_rva) \<in># cl_reqs k1"
    by (rule reach_timeout [OF r0, of "''a''" demo_a1])
      (use demo_facts(1) n0 in \<open>simp_all add: demo_a1_def demo_rva_def\<close>)
  obtain k2 where k2: "reach demo_sha demo_M k2" "cl_node k2 = (cl_node k1)(''b'' := demo_b1)" "cl_won k2 = {}"
    "(''a'', demo_vb) \<in># cl_resps k2"
    by (rule reach_vote [OF k1(1), of "''b''" demo_rva])
      (use k1 n0 demo_facts(2) in \<open>simp_all add: demo_b1_def demo_vb_def\<close>)
  obtain k3 where k3: "reach demo_sha demo_M k3" "cl_node k3 = (cl_node k2)(''a'' := demo_a2)" "cl_won k3 = {(1, ''a'')}"
    by (rule reach_win [OF k2(1) _ k2(4)])
      (use k2 k1 n0 demo_facts(2) in \<open>simp_all add: demo_a2_def\<close>)
  obtain k4 where k4: "reach demo_sha demo_M k4" "cl_node k4 = (cl_node k3)(''c'' := startElection ''c'' demo_c0)"
    "cl_won k4 = {(1, ''a'')}"
    by (rule reach_timeout [OF k3(1), of "''c''" "startElection ''c'' demo_c0"])
      (use k3 k2 k1 n0 demo_facts(1) in simp_all)
  obtain k5 where k5: "reach demo_sha demo_M k5" "cl_node k5 = (cl_node k4)(''c'' := demo_c1)" "cl_won k5 = {(1, ''a'')}"
    "(''a'', demo_rvc) \<in># cl_reqs k5" "(''b'', demo_rvc) \<in># cl_reqs k5"
    by (rule reach_timeout [OF k4(1), of "''c''" demo_c1])
      (use k4 demo_facts(1) in \<open>simp_all add: demo_c1_def demo_rvc_def\<close>)
  obtain k6 where k6: "reach demo_sha demo_M k6" "cl_node k6 = (cl_node k5)(''b'' := demo_b2)" "cl_won k6 = {(1, ''a'')}"
    "(''c'', demo_wb) \<in># cl_resps k6" "(''a'', demo_rvc) \<in># cl_reqs k6"
    by (rule reach_vote [OF k5(1), of "''b''" demo_rvc])
      (use k5 k4 k3 k2 demo_facts(3) in \<open>simp_all add: demo_b2_def demo_wb_def\<close>)
  obtain k7 where k7: "reach demo_sha demo_M k7" "cl_node k7 = (cl_node k6)(''a'' := demo_a3)" "cl_won k7 = {(1, ''a'')}"
    "(''c'', demo_wb) \<in># cl_resps k7"
    by (rule reach_vote [OF k6(1), of "''a''" demo_rvc])
      (use k6 k5 k4 k3 in \<open>simp_all add: demo_a3_def\<close>)
  obtain k8 where k8: "reach demo_sha demo_M k8" "cl_node k8 = (cl_node k7)(''c'' := demo_c2)"
    "cl_won k8 = {(2, ''c''), (1, ''a'')}"
    by (rule reach_win [OF k7(1) _ k7(4)])
      (use k7 k6 k5 demo_facts(3) in \<open>simp_all add: demo_c2_def\<close>)
  show thesis by (rule that [OF k8(1)]) (use k8 k7 in auto)
qed

section \<open>A leader and a follower with diverging logs\<close>

text \<open>
  Indices 0 and 1 agree (term 1); at index 2 the follower has an entry of term 2 that was
  never committed, the leader has entries of term 3.
\<close>

definition demo_entry :: "int \<Rightarrow> int \<Rightarrow> bytes \<Rightarrow> raft_log" where
  "demo_entry i t cmd = zero_raft_log\<lparr>rl_Index := i, rl_Term := t, rl_Type := LogCommand, rl_Data := cmd,
     rl_ClientID := ''x'', rl_SeqNum := i + 1\<rparr>"

definition demo_leader :: node_state where
  "demo_leader = demo_a0\<lparr>role := Leader, currentTerm := 3, votedFor := ''a'', currentLeader := ''a'',
     logs := (logs demo_a0)(0 := demo_entry 0 1 [1], 1 := demo_entry 1 1 [2, 2], 2 := demo_entry 2 3 [3], 3 := demo_entry 3 3 []),
     nextLogIdx := 4, commitIndex := 1, lastApplied := 0,
     nextIndex := [(''b'', 2), (''c'', 4)], matchIndex := [(''b'', - 1), (''c'', 3), (''a'', 3)],
     lastSentLogIndex := [(''b'', - 1), (''c'', 3), (''a'', 3)]\<rparr>"

definition demo_follower :: node_state where
  "demo_follower = demo_b0\<lparr>currentTerm := 2, votedFor := ''c'',
     logs := (logs demo_b0)(0 := demo_entry 0 1 [1], 1 := demo_entry 1 1 [2, 2], 2 := demo_entry 2 2 [9]),
     nextLogIdx := 3, commitIndex := 1, lastApplied := 0\<rparr>"

definition demo_aea :: append_entries_args where
  "demo_aea = the (fst (getAppendEntriesArgs ''b'' demo_leader))"

text \<open>Both satisfy the invariant, and the message is well-formed and fits the follower.\<close>

lemma demo_invs: "node_inv demo_leader \<and> node_inv demo_follower"
  by code_simp

lemma demo_msg: "aea_wf demo_aea \<and> aea_fits demo_follower demo_aea"
  unfolding aea_wf_def consec_def by code_simp

lemma demo_sent: "fst (getAppendEntriesArgs ''b'' demo_leader) \<noteq> None"
  by code_simp

lemma log_matching_prefix:
  assumes base: "base_index a = base_index b" and pre: "take k (live_log a) = take k (live_log b)"
    and diff: "\<forall>i < min (nextLogIdx a) (nextLogIdx b). k \<le> i \<longrightarrow> rl_Term (logs a i) \<noteq> rl_Term (logs b i)"
  shows "log_matching a b"
  unfolding log_matching_def
proof (intro allI impI, elim conjE)
  fix idx x y j x' y'
  assume e: "entry_at a idx = Some x" "entry_at b idx = Some y" "rl_Term x = rl_Term y" "j \<le> idx"
    "entry_at a j = Some x'" "entry_at b j = Some y'"
  obtain i where i: "i < nextLogIdx a" "idx = base_index a + 1 + int i" "x = logs a i"
    using e(1) by (auto simp: entry_at_nth)
  obtain m where m: "m < nextLogIdx a" "j = base_index a + 1 + int m" "x' = live_log a ! m"
    using e(5) by (auto simp: entry_at_nth)
  have ib: "i < nextLogIdx b" "y = logs b i" using e(2) i(2) base by (auto simp: entry_at_nth)
  have mb: "m < nextLogIdx b" "y' = live_log b ! m" using e(6) m(2) base by (auto simp: entry_at_nth)
  have "m < k" using diff i ib m(2) e(3,4) by (metis linorder_not_less min_less_iff_conj add_le_cancel_left of_nat_le_iff order_trans)
  then show "x' = y'" using m(3) mb(2) pre by (metis nth_take)
qed

lemma demo_matching: "log_matching demo_leader demo_follower"
  by (rule log_matching_prefix [where k = 2]; code_simp)

section \<open>Nodes\<close>

definition demo_node :: "server_id \<Rightarrow> server_id list \<Rightarrow> node_state \<Rightarrow> (nat, memory_storage) raft_node" where
  "demo_node i ps s = \<lparr>n_cfg = demo_cfg i ps, n_sm = 0, n_storage = NewMemoryStorage, n_state = s,
     n_connected = True, n_stopped = False, n_pendingCommands = [(1, 77)], n_pendingConfigApplied = [],
     n_waiting = [], n_lastPersistedSnapIdx = 0, n_metrics = newMetrics, n_electionStarted = 0\<rparr>"

lemma demo_ready: "ready demo_leader \<and> ready demo_follower"
  by code_simp

lemma demo_event: "event_wf demo_follower (AEArgs demo_aea)"
  using demo_msg by (simp add: event_wf_def)

section \<open>Messages\<close>

definition demo_isa :: install_snapshot_args where
  "demo_isa = \<lparr>is_ID = ''a'', is_Term = 4, is_LastIncludedIndex = 9, is_LastIncludedTerm = 3, is_Data = [1],
     is_ServerConfiguration = serverConfig demo_leader, is_Hash = zero_hash\<rparr>"

definition demo_change :: config_entry where
  "demo_change = \<lparr>ce_msg = \<lparr>cc_Add = False, cc_Server = ''c''\<rparr>, ce_chanApplied = 5, ce_resultCh = 6\<rparr>"

text \<open>A follower that conflicts with the leader from index 1 on.\<close>

definition demo_conflict :: node_state where
  "demo_conflict = demo_b0\<lparr>currentTerm := 2,
     logs := (logs demo_b0)(0 := demo_entry 0 1 [1], 1 := demo_entry 1 2 [8], 2 := demo_entry 2 2 [9]),
     nextLogIdx := 3\<rparr>"

section \<open>A command that is overwritten\<close>

text \<open>
  The leader \<open>a\<close> of term 1 accepts a command at index 1; \<open>b\<close>, the leader of term 2, overwrites
  that entry by a no-op; \<open>a\<close> times out, is elected in term 3 by \<open>c\<close>, replicates its own
  no-op to \<open>c\<close>, commits and applies.
\<close>

definition demo_old :: "(nat, memory_storage) raft_node" where
  "demo_old = (demo_node ''a'' [''b'', ''c''] demo_a2)\<lparr>n_pendingCommands := []\<rparr>"

definition demo_cmd :: apply_args where
  "demo_cmd = \<lparr>aa_ClientID = ''x'', aa_SeqNum = 1, aa_Command = [1, 1]\<rparr>"

text \<open>An equation that evaluates the count of a vote before the election that depends on it.\<close>

lemmas handleCandidate_code [code] = handleCandidate_def [unfolded Let_def case_prod_beta]

definition demo_takeover :: "((nat, memory_storage) raft_node \<Rightarrow> (nat, memory_storage) node_result) list" where
  "demo_takeover =
    [handleApplyRequest demo_deps demo_cmd 7,
     run_iteration demo_deps demo_env (AEArgs \<lparr>ae_Term = 2, ae_LeaderID = ''b'', ae_PrevLogIndex = 0, ae_PrevLogTerm = 1,
       ae_Entries = [zero_raft_log\<lparr>rl_Index := 1, rl_Term := 2, rl_Type := LogNoop\<rparr>], ae_LeaderCommit = - 1\<rparr>),
     run_iteration demo_deps demo_env TimerTick,
     run_iteration demo_deps demo_env (VoteResponse \<lparr>rvr_ID = ''c'', rvr_Term = 3, rvr_VoteGranted = True\<rparr>),
     handleAppendEntriesReply demo_deps \<lparr>aer_ID = ''c'', aer_Term = 3, aer_Success = True, aer_LastIndex = 1\<rparr>,
     run_iteration demo_deps demo_env HeartbeatTick,
     run_iteration demo_deps demo_env HeartbeatTick]"

section \<open>A transport and a network\<close>

definition demo_net :: net where
  "demo_net = \<lparr>net_dial = (\<lambda>_. Inr 5), net_close = (\<lambda>_. None), net_listen = Inr, net_register = None\<rparr>"

definition demo_transport :: "'h rpc_transport" where
  "demo_transport = (NewRPCTransport ''a'')\<lparr>tr_connections := [(''b'', \<lparr>conn_client = Some 1\<rparr>), (''c'', \<lparr>conn_client = Some 2\<rparr>)]\<rparr>"

definition demo_remote :: "(nat, memory_storage) raft_node transport_handler rpc_transport" where
  "demo_remote = RegisterHandler (node_handler demo_deps demo_env (\<lambda>_ _. None) (\<lambda>_ _. None)) (NewRPCTransport ''b'')"

section \<open>A key-value node\<close>

definition demo_kv_deps :: "(kv_data, memory_storage) deps" where
  "demo_kv_deps = \<lparr>dep_sm = kv_sm (\<lambda>_. ''json''), dep_st = memory_storage_ops, dep_sha = (\<lambda>_. zero_hash)\<rparr>"

definition demo_op :: "string \<Rightarrow> string \<Rightarrow> string \<Rightarrow> kv_op" where
  "demo_op kind k v = \<lparr>op_Kind = kind, op_Key = k, op_Value = v\<rparr>"

text \<open>Two committed commands, a SET and a DEL, of which none is applied.\<close>

definition demo_kv_node :: "(kv_data, memory_storage) raft_node" where
  "demo_kv_node = \<lparr>n_cfg = demo_cfg ''a'' [''b'', ''c''], n_sm = Some [(''k'', ''0''), (''x'', ''y'')], n_storage = NewMemoryStorage,
     n_state = demo_a0\<lparr>role := Leader, currentTerm := 1, currentLeader := ''a'',
       logs := (logs demo_a0)(0 := demo_entry 0 1 (string_bytes (marshal_op (demo_op ''set'' ''k'' ''v w''))),
         1 := demo_entry 1 1 (string_bytes (marshal_op (demo_op ''del'' ''x'' '''')))),
       nextLogIdx := 2, commitIndex := 1\<rparr>,
     n_connected = True, n_stopped = False, n_pendingCommands = [], n_pendingConfigApplied = [],
     n_waiting = [], n_lastPersistedSnapIdx = 0, n_metrics = newMetrics, n_electionStarted = 0\<rparr>"

end
