(* ===== verification/Spec2Isabelle.thy ===== *)
theory Spec2Isabelle
  imports Raft_Demo Raft_Network KV_Store
begin

text \<open>
  A verification development for raft-lib, a Raft consensus library in Go.

  \<^bold>\<open>The program.\<close> A server is a \<open>RaftNode\<close> (src/raft/node.go) around a \<open>nodeState\<close>
  (src/raft/state.go) that holds the protocol state: term, vote, a log array of 1024
  entries, the last snapshot, the indices a leader keeps per peer, the configuration and
  the queue of membership changes. The operations on it are in log.go, election.go,
  snapshot.go and config_change.go. A node runs one loop that serves RPCs and timers in
  its role (\<open>handleFollower\<close>, \<open>handleCandidate\<close>, \<open>handleLeader\<close>) and goroutines for client
  commands, membership requests, replies of peers and snapshots. It saves its state through
  a \<open>Storage\<close> (src/storage), sends through a \<open>Transport\<close> (src/transport) and feeds committed
  commands to a \<open>StateMachine\<close> of the application. src/transport has a \<open>Transport\<close> over net/rpc and
  src/examples/kv-store an application, a key-value store with a terminal.

  \<^bold>\<open>The theories.\<close> In the order of the imports:
  \<^item> \<open>Raft_Prelude\<close>: 64-bit integers and float64 conversions, Go maps as association lists
    (locale \<open>go_map\<close>), majorities (locale \<open>quorum_system\<close>), little-endian bytes.
  \<^item> \<open>Raft_Types\<close>: src/types/types.go, one record per struct.
  \<^item> \<open>Raft_State\<close>: state.go; the record \<open>node_state\<close>, and the invariant \<open>node_inv\<close> (the log array
    holds consecutive indices from the snapshot on, terms do not decrease and do not
    pass the current term, committed and applied indices lie in the log, the maps and the queue
    are consistent).
  \<^item> \<open>Raft_Snapshot\<close>, \<open>Raft_Config\<close>, \<open>Raft_Log\<close>, \<open>Raft_Election\<close>: the \<open>nodeState\<close> methods of
    snapshot.go, config_change.go, log.go and election.go, one definition per method, each
    with its cases and the proof that it keeps \<open>node_inv\<close>.
  \<^item> \<open>Raft_Replication\<close>: what the two sides of AppendEntries promise each other: well-formed
    messages, the merge specification, Log Matching, the commit rule.
  \<^item> \<open>Raft_Storage\<close>: the \<open>Storage\<close> interface as a record of operations, its contract as the
    locale \<open>stable_storage\<close>, and \<open>MemoryStorage\<close>, which interprets it.
  \<^item> \<open>Raft_Metrics\<close>: metrics.go.
  \<^item> \<open>Raft_Node\<close>: node.go and the \<open>RaftNode\<close> methods of the other files. An iteration of the run
    loop (\<open>run_iteration\<close>) or of another goroutine takes the event its \<open>select\<close> received
    and gives the new node and its outputs, or a panic.
  \<^item> \<open>Raft_Runtime\<close>, \<open>Raft_Iteration\<close>, \<open>Raft_Restart\<close>: the apply loop, totality of every
    iteration, durability and recovery.
  \<^item> \<open>Raft_Cluster\<close>: several servers and the votes in flight, as a step relation; its invariant
    gives election safety.
  \<^item> \<open>Raft_Client\<close>: the callers of a node (node.go): \<open>Apply\<close>, \<open>AddServer\<close>, \<open>RemoveServer\<close> and the
    \<open>Handle...\<close> methods. Callers and goroutines interleave in the step relation \<open>client_step\<close>.
  \<^item> \<open>Raft_Transport\<close>: src/transport and \<open>connectToPeers\<close> of node.go; what a user of connections
    relies on is the locale \<open>connections\<close>, which \<open>RPCTransport\<close> interprets.
  \<^item> \<open>Raft_Network\<close>: a node as the handler of a transport, and an RPC all the way to it.
  \<^item> \<open>Raft_Application\<close>: the contract of a \<open>StateMachine\<close>, as the locale \<open>application\<close>, and what
    replication gives an application that keeps it.
  \<^item> \<open>KV_Json\<close>: what the example uses of encoding/json and UTF-8: escaping, the scanner, and that
    what was written is read back.
  \<^item> \<open>KV_Store\<close>: main.go of the example; \<open>KVSM\<close> interprets \<open>application\<close>, and \<open>main_line\<close> is what \<open>main\<close>
    does with a line of input.
  \<^item> \<open>Raft_Demo\<close>: concrete servers and runs on which the properties are applied.
  This theory states the properties that span the components.

  \<^bold>\<open>Reading the model.\<close> Go's \<open>int\<close> and \<open>int64\<close> are \<open>int\<close>; where a counter could overflow, a
  property asks for room below \<open>max_int64\<close> (\<open>ready\<close>), and the metrics wrap. A panic is the left
  side of a sum. Maps are association lists with distinct keys; \<open>mget\<close> returns Go's zero
  value for a missing key. Channels are numbers, and what a goroutine sends is an output.
  SHA-256, the random source, the clock, the application and the store are parameters, as are
  the answers of the network (the record \<open>net\<close>, and the outcome of a call). Go strings are lists
  of bytes, so the JSON texts are exact, and the texts of decoding errors are a parameter.

  \<^bold>\<open>Fuel.\<close> Two loops have fuel. \<open>checkLogsToApply\<close> gives \<open>checkLogs_loop\<close> one step more
  than there are committed and unapplied indices, and \<open>apply_loop_exits\<close> shows that this
  reaches the exit of the source's loop. The JSON parser \<open>p_value\<close> gets fuel by the length of the
  text; more fuel gives the same result (\<open>parser_stable\<close>), and on every text the store writes the
  parser succeeds (\<open>parse_object\<close>). \<open>ConnectWithRetry\<close>, which may try forever, is a partial function
  and returns once dialling succeeds (\<open>ConnectWithRetry_returns\<close>). All other loops are structural
  recursions or have a termination proof.

  \<^bold>\<open>What is shown.\<close> Elections (C1, C2, C23-C25): at most one winner per term, when votes are
  granted and counted. Replication (C3-C7): the messages a leader builds, their effect on
  a follower, Log Matching, commitment. The node (C8-C17, C21, C22, C27): every iteration
  returns and keeps the invariant; commands are applied once and in order, acknowledged
  when applied and answered at most once; state is saved before a reply and recovered at a
  start. Snapshots (C19, C20), storage (C18) and metrics (C26) each have their functional
  specification. The transport (C28, C29): an RPC gets the reply of the iteration that served it,
  and the node is told that it is connected when it is. The key-value store (C30-C32) refines
  a map, survives compaction, and stores what was typed. C33-C40 state where the code
  departs from the protocol or from what its users need: two leaders in one term,
  commitment without a majority, a second vote in a term, a lost snapshot, replication that
  cannot advance, an acknowledged command that was overwritten, a connection that is never
  opened again, and writes that are dropped after a restart.

  \<^bold>\<open>Not modelled.\<close> Locks and the scheduling of goroutines inside an operation (each operation
  holds its mutex, so it is one step), log output, sockets and the inside of net/rpc, flag parsing
  and printing of the example, and the tests. The getters that only read a field are the
  fields of the records.
\<close>

section \<open>Elections\<close>



text \<open>C2. A vote is granted only to a candidate of a term that is not older, whose log is at
  least as up to date (last term first, then last index), and only if this node has not
  voted for another in that term; afterwards the node is a follower of that term with
  that vote.\<close>

theorem vote_granted_only_if:
  assumes "handleRequestToVote me rva s = (r, s')" "rvr_VoteGranted r"
  shows "currentTerm s \<le> rv_Term rva \<and> node_pos s \<le> candidate_pos rva \<and>
    (rv_Term rva = currentTerm s \<longrightarrow> votedFor s = '''' \<or> votedFor s = rv_CandidateID rva) \<and>
    currentTerm s' = rv_Term rva \<and> votedFor s' = rv_CandidateID rva \<and> role s' = Follower \<and>
    rvr_Term r = rv_Term rva \<and> rvr_ID r = me"
  using assms by (cases rule: handleRequestToVote_cases [of rva s me]) (auto split: if_splits)

lemma vote_granted_only_if_witness:
  "rvr_VoteGranted demo_vb \<and> node_pos demo_b0 \<le> candidate_pos demo_rva \<and> votedFor demo_b1 = rv_CandidateID demo_rva"
proof -
  have g: "rvr_VoteGranted demo_vb" by code_simp
  have "handleRequestToVote ''b'' demo_rva demo_b0 = (demo_vb, demo_b1)"
    by (simp add: demo_vb_def demo_b1_def)
  from vote_granted_only_if [OF this g] g show ?thesis by simp
qed

section \<open>Replication\<close>









text \<open>C7. The commit rule: \<open>checkCommits\<close> changes only the commit index, never lowers it, moves
  it only to an entry of the current term that more than half of the configuration's size
  replicate, and ends at or above every such entry.\<close>

theorem commit_rule:
  assumes "log_wf s"
  shows "\<exists>c. checkCommits s = s\<lparr>commitIndex := c\<rparr> \<and> commitIndex s \<le> c \<and>
    (c = commitIndex s \<or> (\<exists>i < nextLogIdx s. c = rl_Index (logs s i) \<and> committable s (logs s i))) \<and>
    (\<forall>j < nextLogIdx s. committable s (logs s j) \<longrightarrow> rl_Index (logs s j) \<le> c)"
  using checkCommits_spec [OF assms] by (intro exI [of _ "commitIndex (checkCommits s)"]) blast

lemma commit_rule_witness:
  "committable demo_leader (logs demo_leader 3) \<and> (\<exists>c. checkCommits demo_leader = demo_leader\<lparr>commitIndex := c\<rparr> \<and> 3 \<le> c)"
proof -
  have c: "committable demo_leader (logs demo_leader 3) \<and> 3 < nextLogIdx demo_leader \<and> rl_Index (logs demo_leader 3) = 3"
    by code_simp
  have "log_wf demo_leader" using demo_invs by (simp add: node_inv_def)
  from commit_rule [OF this] show ?thesis using c by metis
qed

section \<open>The run loop\<close>



text \<open>C9. The goroutines beside the run loop return as well and keep the invariant: a client's
  command, a membership request, a peer's reply to AppendEntries or to InstallSnapshot.\<close>

theorem goroutines_total:
  assumes "config_ready (n_state n)"
    and "r \<in> {handleApplyRequest d args ch n, handleConfigurationMessage d req n,
               handleAppendEntriesReply d aer n, handleInstallSnapshotReply d isr n}"
  shows "\<exists>n' out. r = Inr (n', out) \<and> node_inv (n_state n') \<and>
    currentTerm (n_state n) \<le> currentTerm (n_state n') \<and> timing (n_state n') = timing (n_state n)"
proof -
  have "node_inv (n_state n)" "last_index (n_state n) < max_int64"
    using assms(1) by (simp_all add: config_ready_def)
  then have "keeps (node_adv n) r"
    using assms handleApplyRequest_adv handleConfigurationMessage_adv replies_adv by blast
  then show ?thesis by (cases r) (auto simp: keeps_def advances_def)
qed

lemma goroutines_total_witness:
  "\<exists>n' out. handleAppendEntriesReply demo_deps \<lparr>aer_ID = ''b'', aer_Term = 3, aer_Success = True, aer_LastIndex = 2\<rparr>
     (demo_node ''a'' [''b'', ''c''] demo_leader) = Inr (n', out) \<and> node_inv (n_state n')"
proof -
  have "config_ready demo_leader" by code_simp
  then show ?thesis
    using goroutines_total [of "demo_node ''a'' [''b'', ''c''] demo_leader"] by (simp add: demo_node_def) blast
qed

section \<open>Applying\<close>

text \<open>C10. State machine safety on one node: \<open>checkLogsToApply\<close> feeds the application exactly
  the committed entries it holds and has not applied yet, once each and in log order, and
  leaves nothing due; the log, the term, the vote and the store are untouched.\<close>

theorem applies_committed_in_order:
  assumes "node_inv (n_state n)" "commitIndex (n_state n) \<le> max_int64"
  shows "applied_all d (due (n_state n)) n (fst (checkLogsToApply d n)) \<and>
    due (n_state (fst (checkLogsToApply d n))) = [] \<and>
    (\<forall>i < length (due (n_state n)). rl_Index (due (n_state n) ! i) = lastApplied (n_state n) + 1 + int i \<and>
       due (n_state n) ! i \<in> set (live_log (n_state n))) \<and>
    length (due (n_state n)) =
      nat (min (commitIndex (n_state n)) (last_index (n_state n)) - lastApplied (n_state n))"
  using checkLogsToApply_applies [OF assms] due_nth [OF assms(1)] length_due(2) [OF assms(1)] by blast

lemma applies_committed_in_order_witness:
  "n_sm (fst (checkLogsToApply demo_deps (demo_node ''b'' [''a'', ''c''] demo_follower))) = 2 \<and>
   lastApplied (n_state (fst (checkLogsToApply demo_deps (demo_node ''b'' [''a'', ''c''] demo_follower)))) = 1"
proof -
  let ?n = "demo_node ''b'' [''a'', ''c''] demo_follower"
  have s: "n_state ?n = demo_follower" "n_sm ?n = 0" by (simp_all add: demo_node_def)
  have d: "due demo_follower = [demo_entry 1 1 [2, 2]] \<and> commitIndex demo_follower \<le> max_int64 \<and>
      lastApplied demo_follower = 0 \<and> fold (sm_step demo_deps) [demo_entry 1 1 [2, 2]] 0 = 2" by code_simp
  have "applied_all demo_deps (due (n_state ?n)) ?n (fst (checkLogsToApply demo_deps ?n))"
    using applies_committed_in_order [of ?n demo_deps] d demo_invs s(1) by simp
  then show ?thesis using d s unfolding applied_all_def by simp
qed

text \<open>C11. The apply loop terminates by its own exit test: any fuel above the number of due
  entries gives the result of the unbounded loop, and \<open>checkLogsToApply\<close> has that much.\<close>

theorem apply_loop_exits:
  assumes "node_inv (n_state n)" "commitIndex (n_state n) \<le> max_int64"
    "length (due (n_state n)) < fuel"
  shows "checkLogs_loop fuel d n = checkLogsToApply d n \<and>
    fst (updateLastApplied (n_state (fst (checkLogs_loop fuel d n)))) = - 1"
proof -
  let ?n' = "fst (checkLogsToApply d n)"
  have e: "checkLogs_loop fuel d n = checkLogsToApply d n" by (rule checkLogsToApply_exits [OF assms])
  have "node_inv (n_state ?n')" "commitIndex (n_state ?n') \<le> max_int64" "due (n_state ?n') = []"
    using checkLogsToApply_applies [OF assms(1,2), of d] assms(2) by (simp_all add: applied_all_def)
  then have "fst (updateLastApplied (n_state ?n')) = - 1"
    by (cases rule: updateLastApplied_due) auto
  then show ?thesis using e by simp
qed

lemma apply_loop_exits_witness:
  "checkLogs_loop 5 demo_deps (demo_node ''b'' [''a'', ''c''] demo_follower) =
   checkLogsToApply demo_deps (demo_node ''b'' [''a'', ''c''] demo_follower)"
proof -
  have "length (due demo_follower) < 5 \<and> commitIndex demo_follower \<le> max_int64" by code_simp
  then show ?thesis
    using apply_loop_exits [of "demo_node ''b'' [''a'', ''c''] demo_follower" 5 demo_deps] demo_invs
    by (simp add: demo_node_def)
qed



text \<open>C14. A leader with room in its log accepts a new command: the entry, with the next index and
  the current term, is the last of the log, and the client's channel is registered under
  that index, so that the answer comes when the entry is applied.\<close>

theorem client_command_accepted:
  assumes "node_inv (n_state n)" "last_index (n_state n) < max_int64" "role (n_state n) = Leader"
    and "nextLogIdx (n_state n) < logArrayCapacity"
    and "aa_SeqNum args \<le> 0 \<or> getClientLastSeq (aa_ClientID args) (n_state n) < aa_SeqNum args"
  shows "\<exists>n' out e. handleApplyRequest d args ch n = Inr (n', out) \<and>
    live_log (n_state n') = live_log (n_state n) @ [e] \<and> rl_Index e = last_index (n_state n) + 1 \<and>
    rl_Term e = currentTerm (n_state n) \<and> rl_Type e = LogCommand \<and> rl_Data e = aa_Command args \<and>
    rl_ClientID e = aa_ClientID args \<and> rl_SeqNum e = aa_SeqNum args \<and>
    map_of (n_pendingCommands n') (rl_Index e) = Some ch \<and> commitIndex (n_state n') = commitIndex (n_state n)"
proof -
  let ?s = "n_state n"
  let ?e = "commandLogEntry ?s (aa_ClientID args) (aa_SeqNum args) (aa_Command args)"
  let ?t = "trackLeader (n_id n) (last_index ?s + 1) (storeEntry (dep_sha d) ?e ?s)"
  let ?n2 = "persistState d (n\<lparr>n_state := ?t\<rparr>)"
  let ?n3 = "?n2\<lparr>n_pendingCommands := mput (last_index ?s + 1) ch (n_pendingCommands ?n2)\<rparr>"
  have wf: "log_wf ?s" "- 1 \<le> last_index ?s" using assms(1) last_index_ge by (auto simp: node_inv_def)
  have i: "rl_Index ?e = last_index ?s + 1" using wf(1) assms(2) by (simp add: command_noop_index)
  have "addCommandLog (dep_sha d) (snapshotData d n) (n_id n) (aa_ClientID args) (aa_SeqNum args) (aa_Command args) ?s
      = (last_index ?s + 1, ?t)"
    using assms(4) i by (simp add: addCommandLog_def Let_def)
  then have h: "handleApplyRequest d args ch n = sendAppendEntriesRPCs ?n3"
    using assms(3,5) wf(2) by (auto simp: handleApplyRequest_def Let_def)
  obtain n' out where r: "sendAppendEntriesRPCs ?n3 = Inr (n', out)" and f: "sent_from ?n3 n'"
    using sendAppendEntriesRPCs_sent [of ?n3] by (auto simp: keeps_def split: sum.splits)
  obtain m where n': "n' = ?n3\<lparr>n_state := ?t\<lparr>lastSentLogIndex := m\<rparr>\<rparr>"
    using f by (auto simp: sent_from_def same_but_sent_def)
  have "live_log (n_state n') = live_log ?s @ [?e]"
    using live_log_storeEntry [of "dep_sha d" ?e ?s] by (simp add: n' live_log_def)
  moreover have "map_of (n_pendingCommands n') (rl_Index ?e) = Some ch"
    by (simp add: n' i mput_def update_conv)
  moreover have "commitIndex (n_state n') = commitIndex ?s" by (simp add: n')
  ultimately show ?thesis using h r i by (intro exI [of _ n'] exI [of _ out] exI [of _ ?e]) simp
qed

lemma client_command_accepted_witness:
  "\<exists>n' out e. handleApplyRequest demo_deps \<lparr>aa_ClientID = ''x'', aa_SeqNum = 9, aa_Command = [5]\<rparr> 8
      (demo_node ''a'' [''b'', ''c''] demo_leader) = Inr (n', out) \<and>
    live_log (n_state n') = live_log demo_leader @ [e] \<and> rl_Index e = 4 \<and> rl_Data e = [5] \<and>
    map_of (n_pendingCommands n') 4 = Some 8"
proof -
  let ?a = "\<lparr>aa_ClientID = ''x'', aa_SeqNum = 9, aa_Command = [5]\<rparr>"
  have "last_index demo_leader = 3 \<and> role demo_leader = Leader \<and> nextLogIdx demo_leader < logArrayCapacity \<and>
     getClientLastSeq (aa_ClientID ?a) demo_leader < aa_SeqNum ?a \<and> 3 < max_int64" by code_simp
  then show ?thesis
    using client_command_accepted [of "demo_node ''a'' [''b'', ''c''] demo_leader" ?a demo_deps 8] demo_invs
    by (simp add: demo_node_def) metis
qed



section \<open>Persistence\<close>



text \<open>C17. Crash recovery: started again from a durable store, a node has the term, the vote,
  the log and the snapshot it had; it is a follower whose committed and applied indices
  restart at the snapshot, and the invariant holds.\<close>

theorem restart_recovers_state:
  assumes "node_inv (n_state n)" "durable d n" "currentTerm (n_state n) > 0"
    and "case lastSnapshot (n_state n) of None \<Rightarrow> sm' = sm0
         | Some sn \<Rightarrow> sm_Restore (dep_sm d) (snap_Data sn) sm0 = (None, sm')"
  shows "\<exists>n'. restart d cfg sm0 (n_storage n) = Inr n' \<and> n_sm n' = sm' \<and>
    currentTerm (n_state n') = currentTerm (n_state n) \<and> votedFor (n_state n') = votedFor (n_state n) \<and>
    live_log (n_state n') = live_log (n_state n) \<and> lastSnapshot (n_state n') = lastSnapshot (n_state n) \<and>
    commitIndex (n_state n') = base_index (n_state n) \<and> lastApplied (n_state n') = base_index (n_state n) \<and>
    role (n_state n') = Follower \<and> node_inv (n_state n')"
  by (rule restart_recovers [OF assms, of cfg]) blast

lemma restart_recovers_state_witness:
  "\<exists>n'. restart demo_deps (demo_cfg ''b'' [''a'', ''c'']) 0
      (n_storage (persistState demo_deps (demo_node ''b'' [''a'', ''c''] demo_follower))) = Inr n' \<and>
    votedFor (n_state n') = ''c'' \<and> live_log (n_state n') = live_log demo_follower"
proof -
  let ?n = "demo_node ''b'' [''a'', ''c''] demo_follower"
  let ?p = "persistState demo_deps ?n"
  have f: "lastSnapshot demo_follower = None \<and> 0 < currentTerm demo_follower \<and> votedFor demo_follower = ''c''" by code_simp
  have s: "n_state ?p = demo_follower" by (simp add: demo_node_def)
  have "dep_st demo_deps = memory_storage_ops" by (simp add: demo_deps_def)
  moreover have "mem_ok (n_storage ?n)" "snap_tracked demo_deps ?n"
    using f by (simp_all add: snap_tracked_def demo_node_def NewMemoryStorage_def mem_ok_def demo_deps_def
        memory_storage_ops_def mem_LoadSnapshot_def)
  ultimately have "durable demo_deps ?p" by (rule mem.persist_durable)
  then show ?thesis
    using restart_recovers_state [of ?p demo_deps 0 0 "demo_cfg ''b'' [''a'', ''c'']"] demo_invs f s by auto
qed



section \<open>Snapshots\<close>

text \<open>C19. Taking a snapshot discards exactly the applied entries: the snapshot ends at the last
  applied index with that entry's term, the application's bytes and a copy of the
  configuration; the entries after it stay in order, the last index does not move and the
  invariant holds.\<close>

theorem snapshot_compacts_applied:
  assumes "node_inv s" "takeSnapshot g s = (True, s')"
  shows "base_index s' = lastApplied s \<and> base_term s' = rl_Term (logs s (nat (lastApplied s - base_index s - 1))) \<and>
    live_log s' = drop (nat (lastApplied s - base_index s)) (live_log s) \<and> last_index s' = last_index s \<and>
    (\<exists>sn. lastSnapshot s' = Some sn \<and> snap_Data sn = g \<and> snap_ServerConfig sn = serverConfig s) \<and> node_inv s'"
proof -
  have wf: "log_wf s" "apply_wf s" "m_ok (serverConfig s)" using assms(1) by (simp_all add: node_inv_def maps_wf_def)
  have "\<exists>sn. lastSnapshot s' = Some sn \<and> snap_Data sn = g \<and> snap_ServerConfig sn = serverConfig s"
    using wf(1,2)
  proof (cases rule: takeSnapshot_wf_cases [where g = g])
    case (some k sn t)
    then show ?thesis using assms(2) wf(3) by (simp add: copyLogsToBeginning_result copyConfig_id)
  qed (use assms(2) in simp)
  then show ?thesis using takeSnapshot_effect [OF wf(1,2) assms(2)] takeSnapshot_inv [OF assms] by blast
qed

lemma snapshot_compacts_applied_witness:
  "base_index (snd (takeSnapshot [7] demo_leader)) = 0 \<and>
   live_log (snd (takeSnapshot [7] demo_leader)) = [demo_entry 1 1 [2, 2], demo_entry 2 3 [3], demo_entry 3 3 []]"
proof -
  have t: "fst (takeSnapshot [7] demo_leader) \<and> lastApplied demo_leader = 0 \<and>
     drop (nat (lastApplied demo_leader - base_index demo_leader)) (live_log demo_leader) =
       [demo_entry 1 1 [2, 2], demo_entry 2 3 [3], demo_entry 3 3 []]" by code_simp
  then have "takeSnapshot [7] demo_leader = (True, snd (takeSnapshot [7] demo_leader))" by (simp add: prod_eq_iff)
  from snapshot_compacts_applied [OF _ this] demo_invs have
    "base_index (snd (takeSnapshot [7] demo_leader)) = lastApplied demo_leader"
    "live_log (snd (takeSnapshot [7] demo_leader)) =
       drop (nat (lastApplied demo_leader - base_index demo_leader)) (live_log demo_leader)" by simp_all
  then show ?thesis using t by metis
qed



section \<open>Membership\<close>

text \<open>C21. Membership changes are served first come first served, one at a time and without a
  panic: with a change in progress or an empty queue nothing happens; otherwise the head
  of the queue is started, its entry is appended when there is room, and the lock is set.\<close>

theorem config_queue_fifo:
  assumes "node_inv s" "last_index s < max_int64"
  shows "\<exists>r s'. handleNextConfigurationChange sha s = Inr (r, s') \<and> node_inv s' \<and>
    (if inConfigChange s \<or> configQueue s = [] then s' = s \<and> \<not> fst r
     else r = (True, hd (configQueue s)) \<and> configQueue s' = tl (configQueue s) \<and> inConfigChange s' \<and>
       lastConfigLogIndex s' = last_index s + 1 \<and>
       (nextLogIdx s < logArrayCapacity \<longrightarrow> live_log s' =
          live_log s @ [configLogEntry s (ce_msg (hd (configQueue s)))]))"
proof -
  have q: "queue_wf s" using assms(1) by (simp add: node_inv_def)
  from q show ?thesis
  proof (cases rule: handleNext_cases [where sha = sha])
    case idle
    then show ?thesis using assms(1) by auto
  next
    case (start e rest)
    let ?t = "s\<lparr>inConfigChange := True, configQueue := rest, pendingConfigs := pendingConfigs s - 1\<rparr>"
    have t: "configLogEntry ?t (ce_msg e) = configLogEntry s (ce_msg e)" "live_log ?t = live_log s"
      by (simp_all add: configLogEntry_def getLastLogIdxTerm_def live_log_def cong: option.case_cong)
    have i: "rl_Index (configLogEntry s (ce_msg e)) = last_index s + 1"
      using assms by (simp add: configLogEntry_index node_inv_def)
    show ?thesis using start t i handleNext_inv [OF assms start(3)]
      by (auto simp: addConfigLogUnlocked_def Let_def)
  qed
qed

lemma config_queue_fifo_witness:
  "\<exists>s'. handleNextConfigurationChange demo_sha (enqueueConfig demo_change demo_leader) = Inr ((True, demo_change), s') \<and>
     inConfigChange s' \<and> node_inv s'"
proof -
  let ?s = "enqueueConfig demo_change demo_leader"
  have "node_inv ?s \<and> last_index ?s < max_int64 \<and> \<not> inConfigChange ?s" "configQueue ?s = [demo_change]" by code_simp+
  then show ?thesis using config_queue_fifo [of ?s demo_sha] by auto
qed

text \<open>C22. A membership change adds or removes one server, and any majority of the configuration
  before meets any majority of the configuration after: two leaders cannot be elected, or
  two conflicting entries committed, by disjoint majorities of successive configurations.\<close>

theorem config_change_majorities_meet:
  assumes "node_inv s" "majority_of (serverConfig s) A"
    and "majority_of (serverConfig (applyConfigurationLocked i c s)) B"
  shows "A \<inter> B \<noteq> {} \<and> oldServerConfig (applyConfigurationLocked i c s) = serverConfig s"
proof -
  have m: "m_ok (serverConfig s)" using assms(1) by (rule node_inv_m_ok)
  have "A \<inter> B \<noteq> {}"
    using assms(2,3) majorities_meet_put [OF m assms(2)] majorities_meet_del [OF m assms(2)]
    by (simp add: serverConfig_apply split: if_splits)
  then show ?thesis using m by (simp add: copyConfig_id)
qed

lemma config_change_majorities_meet_witness:
  "majority_of (serverConfig demo_leader) {''a'', ''b''} \<and>
   majority_of (serverConfig (applyConfigurationLocked 4 \<lparr>cc_Add = True, cc_Server = ''d''\<rparr> demo_leader)) {''b'', ''c'', ''d''} \<and>
   {''a'', ''b''} \<inter> {''b'', ''c'', ''d''} \<noteq> {}"
proof -
  have "majority_of (serverConfig demo_leader) {''a'', ''b''} \<and>
     majority_of (serverConfig (applyConfigurationLocked 4 \<lparr>cc_Add = True, cc_Server = ''d''\<rparr> demo_leader)) {''b'', ''c'', ''d''}"
    by code_simp
  then show ?thesis using config_change_majorities_meet [of demo_leader "{''a'', ''b''}"] demo_invs by blast
qed

section \<open>Winning an election\<close>

text \<open>C23. Counting votes: only a grant of the candidate's own term counts; it wins exactly when
  the votes pass half of the configuration; an answer from a later term makes the
  candidate a follower of that term without a vote; anything else is ignored.\<close>

theorem vote_counting:
  assumes "- 1 \<le> electionVotes s" "electionVotes s < max_int64" "updateElection r s = (won, s')"
  shows "(won \<longleftrightarrow> rvr_VoteGranted r \<and> rvr_Term r = currentTerm s \<and>
            int (mlen (serverConfig s) div 2) < electionVotes s + 1) \<and>
    (rvr_Term r > currentTerm s \<longrightarrow> role s' = Follower \<and> currentTerm s' = rvr_Term r \<and> votedFor s' = '''') \<and>
    (rvr_Term r = currentTerm s \<and> rvr_VoteGranted r \<longrightarrow> s' = s\<lparr>electionVotes := electionVotes s + 1\<rparr>) \<and>
    (rvr_Term r < currentTerm s \<or> rvr_Term r = currentTerm s \<and> \<not> rvr_VoteGranted r \<longrightarrow> s' = s)"
  using wrap64_succ [OF assms(1,2)] assms(3)
  by (cases rule: updateElection_cases [of s r]) auto

lemma vote_counting_witness:
  "fst (updateElection demo_vb demo_a1) \<and> electionVotes (snd (updateElection demo_vb demo_a1)) = 2"
proof -
  have "- 1 \<le> electionVotes demo_a1 \<and> electionVotes demo_a1 < max_int64 \<and> rvr_VoteGranted demo_vb \<and>
    rvr_Term demo_vb = currentTerm demo_a1 \<and> electionVotes demo_a1 = 1 \<and> mlen (serverConfig demo_a1) = 3" by code_simp
  then show ?thesis
    using vote_counting [of demo_a1 demo_vb "fst (updateElection demo_vb demo_a1)" "snd (updateElection demo_vb demo_a1)"]
    by simp
qed

text \<open>C24. What a new leader does: it leads its own term under its own name, appends a no-op of that
  term at the next index (when the array has room), and will send every known peer the
  entries from that index on.\<close>

theorem new_leader_state:
  assumes "node_inv s" "last_index s < max_int64" "nextLogIdx s < logArrayCapacity"
    and "mhas (nextIndex s) p" "p \<noteq> me"
  shows "role (winElection sha me s) = Leader \<and> currentLeader (winElection sha me s) = me \<and>
    currentTerm (winElection sha me s) = currentTerm s \<and> votedFor (winElection sha me s) = votedFor s \<and>
    (\<exists>e. live_log (winElection sha me s) = live_log s @ [e] \<and> rl_Type e = LogNoop \<and>
         rl_Term e = currentTerm s \<and> rl_Index e = last_index s + 1) \<and>
    mget 0 (nextIndex (winElection sha me s)) p = last_index s + 1 \<and> node_inv (winElection sha me s)"
proof -
  have wf: "log_wf s" using assms(1) by (simp add: node_inv_def)
  have "wrap64 (fst (getLastLogIdxTerm s) + 1) = last_index s + 1" by (rule next_entry_index [OF wf assms(2)])
  then show ?thesis
    using winElection_append [OF assms(3), where sha = sha and me = me] assms(4,5) command_noop_index(2) [OF wf assms(2)]
      winElection_inv [OF assms(1,2), of sha me] by simp
qed

lemma new_leader_state_witness:
  "mget 0 (nextIndex (winElection demo_sha ''b'' demo_follower)) ''a'' = 3 \<and> role (winElection demo_sha ''b'' demo_follower) = Leader"
proof -
  have "last_index demo_follower = 2 \<and> 2 < max_int64 \<and> nextLogIdx demo_follower < logArrayCapacity \<and>
    mhas (nextIndex demo_follower) ''a''" by code_simp
  then show ?thesis using new_leader_state [of demo_follower "''a''" "''b''" demo_sha] demo_invs by simp
qed

text \<open>C25. A single server elects itself: when its election timer fires, one iteration later it is
  leader of the next term, with its own vote and a no-op of that term in the log.\<close>

theorem single_server_elects_itself:
  assumes "role_ready (n_state n)" "electionTimeoutStarted (n_state n)" "n_connected n" "cfg_Peers (n_cfg n) = []"
    and "nextLogIdx (n_state n) < logArrayCapacity"
  shows "\<exists>n'. handleFollower d env TimerTick n = Inr (n', []) \<and> role (n_state n') = Leader \<and>
    currentTerm (n_state n') = currentTerm (n_state n) + 1 \<and> votedFor (n_state n') = n_id n \<and>
    (\<exists>e. live_log (n_state n') = live_log (n_state n) @ [e] \<and> rl_Type e = LogNoop \<and>
         rl_Term e = currentTerm (n_state n) + 1) \<and> node_inv (n_state n')"
proof -
  note tick = role_ready_tick [OF assms(1)]
  let ?m = "onState (stopElectionTimeout \<circ> consumeTick) n"
  let ?b = "beginElection d env ?m"
  have ct: "logs (consumeTick s) = logs s" "nextLogIdx (consumeTick s) = nextLogIdx s" for s
    by (simp_all add: consumeTick_def)
  have b: "node_inv (n_state ?b)" "last_index (n_state ?b) < max_int64"
    "currentTerm (n_state ?b) = currentTerm (n_state n) + 1" "votedFor (n_state ?b) = n_id n"
    "live_log (n_state ?b) = live_log (n_state n)" "nextLogIdx (n_state ?b) = nextLogIdx (n_state n)"
    using beginElection_adv [OF tick(2-4), of d env] tick(5) startElection_advances(2) [OF tick(2-4)] ct
    by (simp_all add: beginElection_def advances_def startElection_def live_log_def)
  let ?l = "becomeLeader d env ?b"
  have c: "n_cfg ?m = n_cfg n" "n_cfg ?b = n_cfg n" "n_connected ?m = n_connected n"
    by (simp_all add: beginElection_def)
  have h: "handleFollower d env TimerTick n = Inr (?l, [])"
    using assms(2-4) c by (simp add: handleFollower_def checkElectionTimeout_def Let_def)
  have l: "n_state ?l = winElection (dep_sha d) (n_id ?b) (n_state ?b)"
    by (simp add: becomeLeader_def Let_def)
  have "live_log (n_state ?l) = live_log (n_state n) @ [noopLogEntry (n_state ?b)]"
    using winElection_append(1) [of "n_state ?b"] assms(5) b(5,6) l by simp
  then show ?thesis
    using h l b becomeLeader_adv [OF b(1,2), of d env] by (auto simp: advances_def)
qed

lemma single_server_elects_itself_witness:
  "\<exists>n'. handleFollower demo_deps demo_env TimerTick (demo_node ''b'' [] (demo_follower\<lparr>electionTimeoutStarted := True\<rparr>)) = Inr (n', []) \<and>
     role (n_state n') = Leader \<and> currentTerm (n_state n') = 3"
proof -
  let ?n = "demo_node ''b'' [] (demo_follower\<lparr>electionTimeoutStarted := True\<rparr>)"
  have "role_ready (n_state ?n) \<and> electionTimeoutStarted (n_state ?n) \<and> n_connected ?n \<and> cfg_Peers (n_cfg ?n) = [] \<and>
    nextLogIdx (n_state ?n) < logArrayCapacity \<and> currentTerm (n_state ?n) = 2" by code_simp
  then show ?thesis using single_server_elects_itself [of ?n demo_deps demo_env] by auto
qed

section \<open>Metrics\<close>

text \<open>C26. A percentile is a nearest-rank value: for a rank that is not negative it is a sample with
  at least rank + 1 samples not above it and at least n - rank not below it, the rank cut
  at the last sample; with no samples it is 0.\<close>

theorem percentile_nearest_rank:
  assumes "0 \<le> fidx"
  shows "\<exists>v. Percentile fidx m = Inr v \<and>
    (if histData m = [] then v = 0
     else let n = length (histData m); k = min (nat fidx) (n - 1)
          in v \<in> set (histData m) \<and> k < length (filter (\<lambda>x. x \<le> v) (histData m)) \<and>
             n - k \<le> length (filter (\<lambda>x. v \<le> x) (histData m)))"
proof (cases "histData m = []")
  case True
  then show ?thesis by (simp add: Percentile_def)
next
  case False
  define xs where "xs = sort (histData m)"
  define n where "n = length (histData m)"
  define k where "k = min (nat fidx) (n - 1)"
  have l: "length xs = n" "set xs = set (histData m)" "sorted xs" by (simp_all add: xs_def n_def)
  have k: "k < n" using False unfolding k_def n_def by (cases "histData m") (auto simp: min_def)
  have cnt: "length (filter P (histData m)) = length (filter P xs)" for P
    by (metis xs_def mset_filter mset_sort size_mset)
  have "filter (\<lambda>x. x \<le> xs ! k) (take (Suc k) xs) = take (Suc k) xs"
    using k l by (intro filter_True) (auto intro: sorted_take_le)
  then have "Suc k \<le> length (filter (\<lambda>x. x \<le> xs ! k) (take (Suc k) xs))" using k l by simp
  also have "\<dots> \<le> length (filter (\<lambda>x. x \<le> xs ! k) xs)"
    by (metis append_take_drop_id filter_append le_add1 length_append)
  finally have lo: "k < length (filter (\<lambda>x. x \<le> xs ! k) xs)" by simp
  have "xs ! k \<le> x" if "x \<in> set (drop k xs)" for x
    using that l k by (auto simp: in_set_conv_nth intro!: sorted_nth_mono)
  then have "filter (\<lambda>x. xs ! k \<le> x) (drop k xs) = drop k xs" by (intro filter_True) auto
  then have "n - k \<le> length (filter (\<lambda>x. xs ! k \<le> x) (drop k xs))" using l by simp
  also have "\<dots> \<le> length (filter (\<lambda>x. xs ! k \<le> x) xs)"
    by (metis append_take_drop_id filter_append le_add2 length_append)
  finally have hi: "n - k \<le> length (filter (\<lambda>x. xs ! k \<le> x) xs)" .
  have i: "nat (if fidx \<ge> int n then int n - 1 else fidx) = k" using assms k by (auto simp: k_def min_def)
  have nn: "\<not> (if fidx \<ge> int n then int n - 1 else fidx) < 0" using assms k by auto
  have "Percentile fidx m = Inr (xs ! k)"
    using i nn k
    by (simp add: Percentile_def Let_def n_def [symmetric] xs_def [symmetric] sortDurations_sort)
  moreover have "xs ! k \<in> set (histData m)" using l k nth_mem by metis
  ultimately show ?thesis
    using False lo hi cnt unfolding Let_def n_def [symmetric] k_def [symmetric] by simp
qed

lemma percentile_nearest_rank_witness:
  "Percentile 1 (newMetrics\<lparr>histData := [30, 10, 20]\<rparr>) = Inr 20 \<and>
   (\<exists>v. Percentile 1 (newMetrics\<lparr>histData := [30, 10, 20]\<rparr>) = Inr v \<and> v \<in> {30, 10, 20})"
proof -
  have "Percentile 1 (newMetrics\<lparr>histData := [30, 10, 20]\<rparr>) = Inr 20" by code_simp
  then show ?thesis using percentile_nearest_rank [of 1 "newMetrics\<lparr>histData := [30, 10, 20]\<rparr>"] by (auto simp: Let_def)
qed

section \<open>Construction and start\<close>



section \<open>Clients\<close>



section \<open>The transport\<close>





section \<open>The key-value store\<close>

text \<open>C30. The replicated store implements a map: on a node that runs \<open>KVSM\<close>, applying the committed
  entries changes what \<open>Get\<close> reads as executing their operations one after another on a map;
  entries that do not decode and entries of the protocol change nothing, and the
  store stays in a state that a snapshot can save.\<close>

theorem kv_store_refines_map:
  assumes "dep_sm d = kv_sm msg" "kv_ok (n_sm n)" "node_inv (n_state n)" "commitIndex (n_state n) \<le> max_int64"
  shows "kv_ok (n_sm (fst (checkLogsToApply d n))) \<and>
    kv_view (n_sm (fst (checkLogsToApply d n))) = fold kv_exec (kv_ops (due (n_state n))) (kv_view (n_sm n))"
proof -
  have "n_sm (fst (checkLogsToApply d n)) = fold (sm_step d) (due (n_state n)) (n_sm n)"
    using checkLogsToApply_applies(1) [OF assms(3,4), of d] by (simp add: applied_all_def)
  then show ?thesis using kv_steps [OF assms(1,2)] by simp
qed

lemma kv_store_refines_map_witness:
  "kv_Get ''k'' (n_sm (fst (checkLogsToApply demo_kv_deps demo_kv_node))) = Some ''v w'' \<and>
   kv_Get ''x'' (n_sm (fst (checkLogsToApply demo_kv_deps demo_kv_node))) = None"
proof -
  let ?set = "demo_op ''set'' ''k'' ''v w''" and ?del = "demo_op ''del'' ''x'' ''''"
  have "utf8_op ?set" "utf8_op ?del" by (simp_all add: utf8_op_def demo_op_def utf8_ascii)
  note rt = op_roundtrip [OF this(1)] op_roundtrip [OF this(2)]
  have n: "node_inv (n_state demo_kv_node) \<and> commitIndex (n_state demo_kv_node) \<le> max_int64 \<and>
     nextLogIdx (n_state demo_kv_node) = 2 \<and> base_index (n_state demo_kv_node) = - 1 \<and>
     lastApplied (n_state demo_kv_node) = - 1 \<and> commitIndex (n_state demo_kv_node) = 1" by code_simp
  have "due (n_state demo_kv_node) = [demo_entry 0 1 (string_bytes (marshal_op ?set)), demo_entry 1 1 (string_bytes (marshal_op ?del))]"
    using n by (simp add: due_def live_log_def demo_kv_node_def numeral_2_eq_2)
  then have "kv_ops (due (n_state demo_kv_node)) = [?set, ?del]" by (simp add: demo_entry_def rt)
  moreover have "dep_sm demo_kv_deps = kv_sm (\<lambda>_. ''json'')" "kv_ok (n_sm demo_kv_node)"
    by (simp_all add: demo_kv_deps_def demo_kv_node_def kv_ok_def m_ok_def utf8_ascii)
  ultimately have "kv_view (n_sm (fst (checkLogsToApply demo_kv_deps demo_kv_node))) = fold kv_exec [?set, ?del] (kv_view (n_sm demo_kv_node))"
    using kv_store_refines_map [of demo_kv_deps "\<lambda>_. ''json''" demo_kv_node] n by simp
  then have "kv_view (n_sm (fst (checkLogsToApply demo_kv_deps demo_kv_node))) = (kv_view (n_sm demo_kv_node))(''k'' \<mapsto> ''v w'', ''x'' := None)"
    by (simp add: kv_exec_def demo_op_def)
  then show ?thesis unfolding kv_view_def by (simp add: fun_eq_iff)
qed

text \<open>C31. Compaction is invisible to clients: a replica that restores the JSON snapshot another
  node took after some entries, whatever it held before, and applies the rest of the log
  reads the same values as one that applied the whole log.\<close>

theorem kv_replica_from_snapshot:
  assumes "dep_sm d = kv_sm msg" "kv_ok x" "kv_Snapshot (fold (sm_step d) es x) = Inr b"
  shows "fst (kv_Restore msg b y) = None \<and>
    kv_view (fold (sm_step d) es' (snd (kv_Restore msg b y))) = kv_view (fold (sm_step d) (es @ es') x)"
proof -
  have b: "sm_Snapshot (kv_sm msg) (fold (sm_step d) es x) = Inr b" using assms(3) by (simp add: kv_sm_def)
  have "sm_Restore (kv_sm msg) = kv_Restore msg" by (simp add: kv_sm_def)
  then show ?thesis
    using kv.replica_from_snapshot [OF assms(1,2) b, of es' y] kv.restore_snapshot [OF kv.steps_ok [OF assms(1,2)] b, of y]
    by simp
qed

lemma kv_replica_from_snapshot_witness:
  "\<exists>b. kv_Snapshot (fold (sm_step demo_kv_deps) [demo_entry 0 1 [1]] NewKVSM) = Inr b \<and>
     kv_view (fold (sm_step demo_kv_deps) [demo_entry 1 1 [2]] (snd (kv_Restore (\<lambda>_. ''json'') b None))) =
     kv_view (fold (sm_step demo_kv_deps) [demo_entry 0 1 [1], demo_entry 1 1 [2]] NewKVSM)"
proof -
  have "dep_sm demo_kv_deps = kv_sm (\<lambda>_. ''json'')" "kv_ok NewKVSM"
    by (simp_all add: demo_kv_deps_def NewKVSM_def kv_ok_def m_ok_def)
  moreover obtain b where "kv_Snapshot (fold (sm_step demo_kv_deps) [demo_entry 0 1 [1]] NewKVSM) = Inr b"
    by (simp add: kv_Snapshot_def)
  ultimately show ?thesis
    using kv_replica_from_snapshot [of demo_kv_deps "\<lambda>_. ''json''" NewKVSM "[demo_entry 0 1 [1]]" b None "[demo_entry 1 1 [2]]"]
    by (metis append_Cons append_Nil)
qed

text \<open>C32. What is typed is what is stored: the command that \<open>main\<close> builds from a line of UTF-8 text,
  encoded as JSON, is decoded by the state machine to the same operation, which is
  executed without error or panic.\<close>

theorem kv_terminal_roundtrip:
  assumes "utf8 text" "main_line text kv0 = Submit op" "kv_ok kv"
  shows "\<exists>kv'. kv_Apply msg (aa_Command (snd (main_args sid seqNum op))) kv = Inr (None, kv') \<and> kv_ok kv' \<and>
    kv_view kv' = kv_exec op (kv_view kv) \<and> op_Kind op \<in> {''set'', ''del''}"
proof -
  have u: "unmarshal_op (bytes_string (aa_Command (snd (main_args sid seqNum op)))) = Inr op"
    using op_roundtrip [OF main_line_utf8 [OF assms(1,2)]] by (simp add: main_args_def Let_def)
  obtain e kv' where k: "kv_Apply msg (aa_Command (snd (main_args sid seqNum op))) kv = Inr (e, kv')" "kv_ok kv'"
    "kv_view kv' = kv_exec op (kv_view kv)"
    using kv_Apply_effect [OF assms(3)] u by (metis sum.case(2))
  have "e = None" using k(1) u by (auto simp: kv_Apply_def split: if_splits option.splits)
  moreover have "op_Kind op \<in> {''set'', ''del''}"
    using assms(2) by (auto simp: main_line_def Let_def split: if_splits option.splits)
  ultimately show ?thesis using k by blast
qed

lemma kv_terminal_roundtrip_witness:
  "\<exists>kv'. kv_Apply (\<lambda>_. ''json'') (aa_Command (snd (main_args ''a'' 0 (demo_op ''set'' ''k'' ''v w'')))) NewKVSM = Inr (None, kv') \<and>
     kv_view kv' ''k'' = Some ''v w''"
proof -
  have "main_line ''  set k v  w '' NewKVSM = Submit (demo_op ''set'' ''k'' ''v w'')" by code_simp
  moreover have "utf8 ''  set k v  w ''" "kv_ok NewKVSM" by (simp_all add: utf8_ascii NewKVSM_def kv_ok_def m_ok_def)
  ultimately obtain kv' where "kv_Apply (\<lambda>_. ''json'') (aa_Command (snd (main_args ''a'' 0 (demo_op ''set'' ''k'' ''v w'')))) NewKVSM = Inr (None, kv')"
    "kv_view kv' = kv_exec (demo_op ''set'' ''k'' ''v w'') (kv_view NewKVSM)"
    using kv_terminal_roundtrip [of "''  set k v  w ''" NewKVSM "demo_op ''set'' ''k'' ''v w''" NewKVSM "\<lambda>_. ''json''" "''a''" 0] by blast
  then show ?thesis by (simp add: kv_exec_def demo_op_def)
qed

section \<open>Where the code falls short of the protocol\<close>

text \<open>C33. A leader that refuses a vote request of a later term adopts the term and stays leader: a
  run of three servers reaches a state with two leaders in one term, although only one of
  them was elected in it.\<close>

theorem two_leaders_in_one_term:
  "\<exists>c. reach demo_sha demo_M c \<and> role (cl_node c ''a'') = Leader \<and> role (cl_node c ''c'') = Leader \<and>
     currentTerm (cl_node c ''a'') = currentTerm (cl_node c ''c'') \<and>
     (currentTerm (cl_node c ''a''), ''a'') \<notin> cl_won c"
proof -
  obtain c where c: "reach demo_sha demo_M c" "cl_node c ''a'' = demo_a3" "cl_node c ''c'' = demo_c2"
    "cl_won c = {(1, ''a''), (2, ''c'')}" by (rule demo_run)
  then show ?thesis using demo_facts(4) by (intro exI [of _ c]) simp
qed





text \<open>C37. Backing off stops too early: a refusal sets the peer's next index to its last index, so
  when the entries before that one conflict as well, every further round is the same
  refusal; the follower's log and the leader's next index for it do not change.\<close>

theorem replication_stuck_on_conflict:
  assumes "node_inv l" "node_inv f" "currentTerm f \<le> currentTerm l"
    and "mget 0 (nextIndex l) b = last_index f" "base_index l < last_index f" "last_index f \<le> last_index l"
    and "base_index f < last_index f - 1"
    and "(base_term l # map rl_Term (live_log l)) ! nat (last_index f - 1 - base_index l)
           \<noteq> rl_Term (logs f (nat (last_index f - base_index f - 2)))"
    and "getAppendEntriesArgs b l = (Some aea, l')" "handleAppendEntries sha g b aea f = (r, f')"
  shows "\<not> aer_Success r \<and> live_log f' = live_log f \<and>
    mget 0 (nextIndex (snd (handleAppendEntriesResponse me r l'))) b = last_index f"
proof -
  have wf: "log_wf l" "log_wf f" "- 1 \<le> base_index f" using assms(1,2) by (auto simp: node_inv_def log_wf_def)
  let ?n = "last_index f"
  have a: "ae_PrevLogIndex aea = ?n - 1" "ae_Term aea = currentTerm l"
    "ae_PrevLogTerm aea = (base_term l # map rl_Term (live_log l)) ! nat (?n - 1 - base_index l)"
    "l' = l\<lparr>lastSentLogIndex := mput b (last_index l) (lastSentLogIndex l)\<rparr>"
    by (cases rule: getAppendEntriesArgs_cases [OF wf(1) assms(4) [symmetric]]; use assms(5,6,9) in auto)+
  have "log_wf (stepDownTo aea f)" using stepDownTo_inv [OF assms(2)] by (simp add: node_inv_def)
  note find = findArrayIdx_wf [OF this, of "?n - 1"]
  have sd: "base_index (stepDownTo aea f) = base_index f" "last_index (stepDownTo aea f) = last_index f"
    by (simp_all add: base_index_def last_index_def)
  have "checkPrevLog aea (stepDownTo aea f) = None"
    unfolding checkPrevLog_def a(1,3) using find assms(7) assms(8) [symmetric] wf(3) by (simp add: sd)
  then have r: "r = \<lparr>aer_ID = b, aer_Term = currentTerm l, aer_Success = False, aer_LastIndex = ?n\<rparr>"
    and f': "f' = stepDownTo aea f"
    using assms(3,10) a(2) getLastLogIdxTerm_wf [OF wf(2)]
    by (cases rule: handleAppendEntries_cases [where aea = aea and s = f and sha = sha and g = g and me = b]; auto)+
  have "live_log f' = live_log f" by (simp add: f' live_log_def)
  moreover have "mget 0 (nextIndex (snd (handleAppendEntriesResponse me r l'))) b = ?n"
    using assms(7) wf(3) by (simp add: r a(4) handleAppendEntriesResponse_def Let_def mget_def mput_def update_conv)
  ultimately show ?thesis using r by simp
qed

lemma replication_stuck_on_conflict_witness:
  "mget 0 (nextIndex (snd (handleAppendEntriesResponse ''a''
      (fst (handleAppendEntries demo_sha [] ''b'' (the (fst (getAppendEntriesArgs ''b'' demo_leader))) demo_conflict))
      (snd (getAppendEntriesArgs ''b'' demo_leader))))) ''b'' = 2"
proof -
  let ?g = "getAppendEntriesArgs ''b'' demo_leader"
  let ?h = "handleAppendEntries demo_sha [] ''b'' (the (fst ?g)) demo_conflict"
  have "?g = (Some (the (fst ?g)), snd ?g)" using demo_sent by (simp add: prod_eq_iff)
  moreover have "node_inv demo_conflict \<and> currentTerm demo_conflict \<le> currentTerm demo_leader \<and>
    mget 0 (nextIndex demo_leader) ''b'' = last_index demo_conflict \<and> base_index demo_leader < last_index demo_conflict \<and>
    last_index demo_conflict \<le> last_index demo_leader \<and> base_index demo_conflict < last_index demo_conflict - 1 \<and>
    last_index demo_conflict = 2"
    "(base_term demo_leader # map rl_Term (live_log demo_leader)) ! nat (last_index demo_conflict - 1 - base_index demo_leader)
       \<noteq> rl_Term (logs demo_conflict (nat (last_index demo_conflict - base_index demo_conflict - 2)))"
    by code_simp+
  ultimately show ?thesis
    using replication_stuck_on_conflict [of demo_leader demo_conflict "''b''" "the (fst ?g)" "snd ?g" demo_sha "[]" "fst ?h" "snd ?h" "''a''"]
      demo_invs by simp
qed

text \<open>C38. An acknowledgement may be wrong: pending commands are kept when a leader loses its
  office, so after a new leader has overwritten the entry and the old one is elected again,
  applying the other entry at that index tells the client that its command succeeded,
  while no log entry carries the command and the application never saw it.\<close>

theorem acknowledged_but_overwritten:
  "\<exists>n out. in_turn demo_takeover demo_old = Inr (n, out) \<and>
     ReplyApply 7 \<lparr>ar_Success = True, ar_LeaderID = ''a''\<rparr> \<in> set out \<and>
     aa_Command demo_cmd \<notin> rl_Data ` set (live_log (n_state n)) \<and>
     lastApplied (n_state n) = last_index (n_state n) \<and> n_sm n = n_sm demo_old"
proof -
  have "case in_turn demo_takeover demo_old of Inl _ \<Rightarrow> False | Inr (n, out) \<Rightarrow>
     (7, \<lparr>ar_Success = True, ar_LeaderID = ''a''\<rparr>) \<in> set (answers out) \<and>
     list_all (\<lambda>e. rl_Data e \<noteq> aa_Command demo_cmd) (live_log (n_state n)) \<and>
     lastApplied (n_state n) = last_index (n_state n) \<and> n_sm n = n_sm demo_old"
    by code_simp
  moreover have "ReplyApply ch r \<in> set out" if "(ch, r) \<in> set (answers out)" for ch r out
    using that by (auto simp: answers_def map_filter_def split: node_output.splits)
  ultimately show ?thesis by (fastforce simp: list_all_iff split: sum.splits)
qed

text \<open>C39. A connection is lost for good: when an AppendEntries gets an error from its call, the
  transport forgets the connection, and every later RPC of any kind to that peer
  fails at once, whatever is sent to others in between; only a new \<open>Connect\<close> helps, and it
  does as soon as dialling succeeds.\<close>

theorem lost_connection_not_reopened:
  assumes "map_of (tr_connections t) p = Some \<lparr>conn_client = Some k\<rparr>"
    "go k ''RaftRPCListener.AppendEntriesRPC'' args = CallDone (Inl e)"
  shows "\<exists>t'. Raft_Transport.SendAppendEntries go p args t = (Inl e, t') \<and> \<not> connected_to t' p \<and>
    (\<forall>q. q \<noteq> p \<longrightarrow> connected_to t' q = connected_to t q) \<and>
    (\<forall>xs i. i < length xs \<and> snd (xs ! i) = p \<longrightarrow> \<not> fst (run_sends doSend xs t') ! i) \<and>
    (\<forall>xs w. fst (tryConnect w p (snd (run_sends doSend xs t'))) = (\<not> isl (net_dial w p)) \<and>
       connected_to (snd (tryConnect w p (snd (run_sends doSend xs t')))) p = (\<not> isl (net_dial w p)))"
proof -
  let ?t = "t\<lparr>tr_connections := mdel p (tr_connections t)\<rparr>"
  have s: "Raft_Transport.SendAppendEntries go p args t = (Inl e, ?t)"
    using assms by (simp add: Raft_Transport.SendAppendEntries_def call_def)
  have d: "\<not> connected_to ?t p" "q \<noteq> p \<Longrightarrow> connected_to ?t q = connected_to t q" for q
    by (simp_all add: connected_to_def)
  have "fst (tryConnect w p t2) = (\<not> isl (net_dial w p))" for w and t2 :: "'a rpc_transport"
    by (cases rule: Connect_cases [of w p t2]) (simp_all add: tryConnect_def)
  then show ?thesis using s d rt.stays_down [OF d(1)] by (auto simp: rt.connect_decides)
qed

lemma lost_connection_not_reopened_witness:
  "\<exists>t'. Raft_Transport.SendAppendEntries (\<lambda>_ _ _. CallDone (Inl ''EOF'')) ''b'' demo_aea (demo_transport :: unit rpc_transport) =
       (Inl ''EOF'', t') \<and> connected_to t' ''c'' \<and>
     \<not> fst (doSend (SRequestVote demo_rva (CallDone (Inr demo_vb))) ''b'' t') \<and> fst (tryConnect demo_net ''b'' t')"
proof -
  let ?t = "demo_transport :: unit rpc_transport" and ?go = "\<lambda>_ _ _. CallDone (Inl ''EOF'')"
  have "map_of (tr_connections ?t) ''b'' = Some \<lparr>conn_client = Some 1\<rparr>" by (simp add: demo_transport_def)
  then obtain t' where t': "Raft_Transport.SendAppendEntries ?go ''b'' demo_aea ?t = (Inl ''EOF'', t')"
    "\<forall>q. q \<noteq> ''b'' \<longrightarrow> connected_to t' q = connected_to ?t q"
    "\<forall>xs i. i < length xs \<and> snd (xs ! i) = ''b'' \<longrightarrow> \<not> fst (run_sends doSend xs t') ! i"
    "\<forall>xs w. fst (tryConnect w ''b'' (snd (run_sends doSend xs t'))) = (\<not> isl (net_dial w ''b''))"
    by (rule exE [OF lost_connection_not_reopened [OF _ refl]]) (elim conjE, rule that, assumption+, simp)
  have "connected_to ?t ''c''" by (simp add: demo_transport_def connected_to_def mhas_map_of)
  moreover have "\<not> fst (doSend (SRequestVote demo_rva (CallDone (Inr demo_vb))) ''b'' t')"
    using t'(3) [rule_format, of 0 "[(SRequestVote demo_rva (CallDone (Inr demo_vb)), ''b'')]"]
    by (simp add: case_prod_beta Let_def)
  moreover have "fst (tryConnect demo_net ''b'' t')" using t'(4) [rule_format, of demo_net "[]"] by (simp add: demo_net_def)
  ultimately show ?thesis using t'(1,2) by auto
qed



end
